(* ===== verification/Proactor_Prelude.thy ===== *)
theory Proactor_Prelude
  imports Main "HOL-Library.Word"
begin

text \<open>
  Shared vocabulary of the development: the machine types of the C++ sources, the faults a
  run can end in, sequencing of fallible operations, reads from byte memory, and chains of
  nodes linked through a \<open>next_\<close> field, with the generic lemmas the components use.
\<close>

unbundle bit_operations_syntax

named_theorems outcome_iff \<open>inversion of a sequencing that returned a value\<close>
named_theorems unat_simps \<open>word operations read as natural-number operations\<close>

section \<open>Machine types\<close>

type_synonym byte = "8 word"
type_synonym u16 = "16 word"
type_synonym u32 = "32 word"
type_synonym u64 = "64 word"
type_synonym size_t = "64 word"
type_synonym addr = "64 word"
type_synonym memory = "addr \<Rightarrow> byte"

section \<open>Faults and outcomes\<close>

text \<open>
  What ends a run of the C++ code other than a return: a null or dangling pointer, a failed
  \<open>assert\<close>, an access outside a buffer, \<open>LOG_FATAL\<close> / \<open>exit\<close>, a loop that never ends.
\<close>

datatype fault = NullDeref | AssertFailed | OutOfBounds | Exit int | Diverges

type_synonym 'a outcome = "fault + 'a"

definition andThen :: "'a outcome \<Rightarrow> ('a \<Rightarrow> 'b outcome) \<Rightarrow> 'b outcome" where
  "andThen m f = (case m of Inl e \<Rightarrow> Inl e | Inr x \<Rightarrow> f x)"

definition check :: "bool \<Rightarrow> fault \<Rightarrow> unit outcome" where
  "check b e = (if b then Inr () else Inl e)"

text \<open>The result of an operation with a loop that may run forever, seen from its caller.\<close>

definition finished :: "'a outcome option \<Rightarrow> 'a outcome" where
  "finished r = (case r of None \<Rightarrow> Inl Diverges | Some x \<Rightarrow> x)"

lemma finished_simps [simp]: "finished (Some x) = x" "finished None = Inl Diverges"
  by (simp_all add: finished_def)

lemma andThen_simps [simp]:
  "andThen (Inl e) f = Inl e"
  "andThen (Inr x) f = f x"
  by (simp_all add: andThen_def)

lemma check_simps [simp]:
  "check True e = Inr ()"
  "check False e = Inl e"
  by (simp_all add: check_def)

lemma andThen_Inr_iff [outcome_iff]:
  "andThen m f = Inr y \<longleftrightarrow> (\<exists>x. m = Inr x \<and> f x = Inr y)"
  by (cases m) auto

lemma check_Inr_iff [outcome_iff]: "check b e = Inr u \<longleftrightarrow> b"
  by (simp add: check_def)

lemma andThen_cong [fundef_cong]:
  "m = m' \<Longrightarrow> (\<And>x. m' = Inr x \<Longrightarrow> f x = f' x) \<Longrightarrow> andThen m f = andThen m' f'"
  by (cases m') auto

section \<open>Words without wrap-around\<close>

lemma unat_plus_small [unat_simps]:
  fixes a b :: "'a::len word"
  shows "unat a + unat b < 2 ^ LENGTH('a) \<Longrightarrow> unat (a + b) = unat a + unat b"
  by (simp add: unat_word_ariths)

lemma unat_minus_le [unat_simps]:
  fixes a b :: "'a::len word"
  shows "unat b \<le> unat a \<Longrightarrow> unat (a - b) = unat a - unat b"
  by (simp add: unat_sub word_le_nat_alt)

lemma unat_of_nat_small [unat_simps]:
  "n < 2 ^ LENGTH('a) \<Longrightarrow> unat (of_nat n :: 'a::len word) = n"
  by (simp add: unat_of_nat)

lemma unat_of_int_small [unat_simps]:
  "0 \<le> i \<Longrightarrow> nat i < 2 ^ LENGTH('a) \<Longrightarrow> unat (of_int i :: 'a::len word) = nat i"
  using unat_of_nat_small [of "nat i", where 'a = 'a] by simp

lemma unat_eq_iff: "unat a = unat b \<longleftrightarrow> a = b"
  by (metis unsigned_word_eqI)

lemma unat_min [unat_simps]: "unat (min a b) = min (unat a) (unat b)"
  by (simp add: min_def word_le_nat_alt)

lemma unat_bound64: "unat (x :: 64 word) < 2 ^ 64"
proof -
  have "unat x < 2 ^ LENGTH(64)" by (rule unsigned_less)
  then show ?thesis by simp
qed

lemma of_nat_inj_small:
  "m < 2 ^ LENGTH('a) \<Longrightarrow> n < 2 ^ LENGTH('a) \<Longrightarrow>
   (of_nat m :: 'a::len word) = of_nat n \<longleftrightarrow> m = n"
  by (metis unat_of_nat_small)

section \<open>Reading memory\<close>

text \<open>\<open>std::copy (p, p + n, ...)\<close> reads the \<open>n\<close> bytes that start at \<open>p\<close>.\<close>

definition read_mem :: "memory \<Rightarrow> addr \<Rightarrow> nat \<Rightarrow> byte list" where
  "read_mem mem p n = map (\<lambda>k. mem (p + of_nat k)) [0..<n]"

lemma length_read_mem [simp]: "length (read_mem mem p n) = n"
  by (simp add: read_mem_def)

lemma read_mem_0 [simp]: "read_mem mem p 0 = []"
  by (simp add: read_mem_def)

lemma read_mem_add:
  "read_mem mem p (m + n) = read_mem mem p m @ read_mem mem (p + of_nat m) n"
proof -
  have "[0..<m + n] = [0..<m] @ map (\<lambda>k. k + m) [0..<n]"
    using upt_add_eq_append [of 0 m n] map_add_upt [of m n] by (simp add: add.commute)
  then show ?thesis
    by (simp add: read_mem_def comp_def ac_simps)
qed

lemma read_mem_take: "m \<le> n \<Longrightarrow> take m (read_mem mem p n) = read_mem mem p m"
  by (simp add: read_mem_def take_map take_upt)

lemma read_mem_drop:
  "m \<le> n \<Longrightarrow> drop m (read_mem mem p n) = read_mem mem (p + of_nat m) (n - m)"
  using read_mem_add [of mem p m "n - m"] by simp

text \<open>Writing a block of bytes at an address.\<close>

definition write_mem :: "memory \<Rightarrow> addr \<Rightarrow> byte list \<Rightarrow> memory" where
  "write_mem mem p bs = (\<lambda>a. if unat (a - p) < length bs then bs ! unat (a - p) else mem a)"

lemma read_write_mem:
  assumes "length bs \<le> 2 ^ 64"
  shows "read_mem (write_mem mem p bs) p (length bs) = bs"
proof (rule nth_equalityI)
  fix k assume "k < length (read_mem (write_mem mem p bs) p (length bs))"
  then have k: "k < length bs" by simp
  then have "unat (of_nat k :: addr) = k" using assms by (intro unat_of_nat_small) simp
  with k show "read_mem (write_mem mem p bs) p (length bs) ! k = bs ! k"
    by (simp add: read_mem_def write_mem_def)
qed simp

lemma read_write_mem_other:
  assumes "\<And>k. k < n \<Longrightarrow> length bs \<le> unat (q + of_nat k - p)"
  shows "read_mem (write_mem mem p bs) q n = read_mem mem q n"
  by (auto simp: read_mem_def write_mem_def dest: leD [OF assms])

section \<open>Linked chains\<close>

text \<open>
  \<open>linked nx p xs q\<close>: following \<open>next_\<close> (the function \<open>nx\<close>) from the pointer \<open>p\<close> visits
  the nodes \<open>xs\<close> in this order and arrives at the pointer \<open>q\<close>. A null pointer is \<open>None\<close>.
\<close>

fun linked :: "('p \<Rightarrow> 'p option) \<Rightarrow> 'p option \<Rightarrow> 'p list \<Rightarrow> 'p option \<Rightarrow> bool" where
  "linked nx p [] q \<longleftrightarrow> p = q"
| "linked nx p (x # xs) q \<longleftrightarrow> p = Some x \<and> linked nx (nx x) xs q"

fun walk :: "('p \<Rightarrow> 'p option) \<Rightarrow> nat \<Rightarrow> 'p option \<Rightarrow> 'p list" where
  "walk nx 0 p = []"
| "walk nx (Suc k) p = (case p of None \<Rightarrow> [] | Some x \<Rightarrow> x # walk nx k (nx x))"

lemma linked_append:
  "linked nx p (xs @ ys) q \<longleftrightarrow> (\<exists>r. linked nx p xs r \<and> linked nx r ys q)"
  by (induction xs arbitrary: p) auto

lemma linked_None_Nil: "linked nx None xs q \<Longrightarrow> xs = []"
  by (cases xs) auto

lemma linked_cong:
  "(\<And>x. x \<in> set xs \<Longrightarrow> nx x = nx' x) \<Longrightarrow> linked nx p xs q = linked nx' p xs q"
  by (induction xs arbitrary: p) auto

lemma linked_snoc:
  "linked nx p xs q \<Longrightarrow> q = Some y \<Longrightarrow> linked nx p (xs @ [y]) (nx y)"
  by (simp add: linked_append)

lemma walk_None [simp]: "walk nx k None = []"
  by (cases k) auto

lemma linked_walk:
  "linked nx p xs None \<Longrightarrow> length xs \<le> k \<Longrightarrow> walk nx k p = xs"
proof (induction xs arbitrary: p k)
  case Nil
  then show ?case by simp
next
  case (Cons x xs)
  then obtain k' where "k = Suc k'" by (cases k) auto
  with Cons show ?case by simp
qed

lemma linked_unique:
  assumes "linked nx p xs None" and "linked nx p ys None"
  shows "xs = ys"
  using linked_walk [OF assms(1), of "length xs + length ys"]
    linked_walk [OF assms(2), of "length xs + length ys"] by simp

lemma linked_head:
  assumes "linked nx p xs None"
  shows "p = None \<longleftrightarrow> xs = []"
  using assms by (cases xs) auto

lemma linked_tl:
  assumes "linked nx (Some x) xs None"
  obtains ys where "xs = x # ys" and "linked nx (nx x) ys None"
  using assms by (cases xs) auto

text \<open>Linking one more node behind the last one.\<close>

lemma linked_extend:
  assumes "linked nx p xs None" and "xs \<noteq> []" and "distinct xs" and "y \<notin> set xs"
    and "nx y = None"
  shows "linked (nx(last xs := Some y)) p (xs @ [y]) None"
proof -
  from assms(2) obtain zs z where xs: "xs = zs @ [z]" by (metis rev_exhaust)
  from assms(1) xs obtain r where r: "linked nx p zs r" "r = Some z"
    by (auto simp: linked_append)
  have "linked (nx(z := Some y)) p zs (Some z)"
    using r assms(3) xs by (subst linked_cong [where nx' = nx]) auto
  then show ?thesis
    using assms(4,5) xs by (auto simp: linked_append)
qed

section \<open>Runs and invariants\<close>

text \<open>
  The contract of a step relation that keeps an invariant. Every model with interleaved threads
  meets it, and the runs of the model inherit the invariant.
\<close>

locale step_invariant =
  fixes step :: "'s \<Rightarrow> 's \<Rightarrow> bool" and inv :: "'s \<Rightarrow> bool"
  assumes step_inv: "step s s' \<Longrightarrow> inv s \<Longrightarrow> inv s'"
begin

lemma inv_along_run: "step\<^sup>*\<^sup>* s s' \<Longrightarrow> inv s \<Longrightarrow> inv s'"
  by (induction rule: rtranclp_induct) (auto intro: step_inv)

end

section \<open>Lists\<close>

lemma nth_list_update_if:
  "xs[i := x] ! j = (if i = j \<and> j < length xs then x else xs ! j)"
  by (cases "i = j") (auto simp: list_update_beyond)

lemma take_min_length: "take (min n (length xs)) xs = take n xs"
  by (simp add: min_def)

lemma sum_list_map_le:
  fixes f g :: "'a \<Rightarrow> nat"
  shows "(\<And>x. x \<in> set xs \<Longrightarrow> f x \<le> g x) \<Longrightarrow> sum_list (map f xs) \<le> sum_list (map g xs)"
  by (rule sum_list_mono)

lemma length_concat_map: "length (concat (map f xs)) = (\<Sum>x\<leftarrow>xs. length (f x))"
  by (simp add: length_concat comp_def)

lemma distinct_bounded_length:
  "distinct xs \<Longrightarrow> set xs \<subseteq> {..<n} \<Longrightarrow> length xs \<le> n"
  by (metis card_lessThan card_mono distinct_card finite_lessThan)

end
