(* ===== verification/Chunk_Pool.thy ===== *)
theory Chunk_Pool
  imports Proactor_Prelude
begin

text \<open>
  The memory side of the receive path: \<open>Chunk\<close> and \<open>ChunkPool\<close> (include/ChunkPool.h) and
  \<open>ChunkPoolManagerInput\<close> (include/ChunkPoolManagerInput.h, src/ChunkPoolManagerInput.cc),
  which cuts one mapping into chunks and lends them to the kernel through a buffer ring.
  A \<open>Chunk*\<close> is the index of the chunk in \<open>chunks_data_\<close>, which never changes its size
  after construction. The operating system and liburing are parameters: \<open>mmap\<close> answers with
  an address or fails, and a \<open>buf_ring_api\<close> holds the buffer-ring calls of liburing.
\<close>

section \<open>Chunks\<close>

record chunk =
  ck_data_ptr :: addr
  ck_index :: u16
  ck_next :: "nat option"
  ck_head :: size_t
  ck_tail :: size_t

definition Chunk :: "addr \<Rightarrow> u16 \<Rightarrow> chunk" where
  "Chunk data_ptr idx =
     \<lparr>ck_data_ptr = data_ptr, ck_index = idx, ck_next = None, ck_head = 0, ck_tail = 0\<rparr>"

definition readableBytes :: "chunk \<Rightarrow> size_t" where
  "readableBytes c = ck_tail c - ck_head c"

definition chunk_reset :: "chunk \<Rightarrow> chunk" where
  "chunk_reset c = c\<lparr>ck_head := 0, ck_tail := 0, ck_next := None\<rparr>"

definition beginWrite :: "chunk \<Rightarrow> addr" where
  "beginWrite c = ck_data_ptr c + ck_tail c"

definition beginRead :: "chunk \<Rightarrow> addr" where
  "beginRead c = ck_data_ptr c + ck_head c"

section \<open>The memory pool\<close>

record chunk_pool =
  cp_data_ptr :: addr
  cp_bytes :: size_t
  cp_chunks :: size_t

text \<open>
  The parameter \<open>mmap huge n\<close> is the kernel's answer to the anonymous private mapping of \<open>n\<close>
  bytes, with or without \<open>MAP_HUGETLB\<close>; \<open>None\<close> is \<open>MAP_FAILED\<close>.
\<close>

definition ChunkPool ::
    "(bool \<Rightarrow> size_t \<Rightarrow> addr option) \<Rightarrow> size_t \<Rightarrow> size_t \<Rightarrow> chunk_pool outcome" where
  "ChunkPool mmap chunk_size chunk_num =
     (let bytes = chunk_size * chunk_num in
      case mmap True bytes of
        Some p \<Rightarrow> Inr \<lparr>cp_data_ptr = p, cp_bytes = bytes, cp_chunks = chunk_num\<rparr>
      | None \<Rightarrow>
          (case mmap False bytes of
             Some p \<Rightarrow> Inr \<lparr>cp_data_ptr = p, cp_bytes = bytes, cp_chunks = chunk_num\<rparr>
           | None \<Rightarrow> Inl (Exit 1)))"

section \<open>The buffer ring of liburing, as a parameter\<close>

text \<open>
  The calls of liburing the manager makes on its buffer ring. \<open>'b\<close> is the ring's memory;
  \<open>br_register\<close> is the return code of \<open>io_uring_register_buf_ring\<close>.
\<close>

record 'b buf_ring_api =
  br_init :: "addr \<Rightarrow> 'b"
  br_mask :: "u32 \<Rightarrow> int"
  br_add :: "'b \<Rightarrow> addr \<Rightarrow> u32 \<Rightarrow> u16 \<Rightarrow> int \<Rightarrow> int \<Rightarrow> 'b"
  br_advance :: "'b \<Rightarrow> int \<Rightarrow> 'b"
  br_register :: "addr \<Rightarrow> u32 \<Rightarrow> u16 \<Rightarrow> int"
  br_sizeof_ring :: size_t
  br_sizeof_buf :: size_t

section \<open>The manager\<close>

record 'b chunk_manager =
  cm_pool :: chunk_pool
  cm_chunk_size :: size_t
  cm_chunks_data :: "chunk list"
  cm_ring :: 'b
  cm_ring_size :: size_t
  cm_mask :: int
  cm_ring_addr :: addr
  cm_ring_entries :: u32
  cm_bgid :: u16
  cm_count :: u16

text \<open>The static counter of \<open>generateBid\<close>: the value handed out and the next counter.\<close>

definition generateBid :: "u16 \<Rightarrow> u16 \<times> u16" where
  "generateBid bid = (bid, bid + 1)"

definition fill_ring ::
    "'b buf_ring_api \<Rightarrow> size_t \<Rightarrow> int \<Rightarrow> chunk list \<Rightarrow> 'b \<Rightarrow> 'b" where
  "fill_ring U chunk_size msk cs br =
     fold (\<lambda>c b. br_add U b (ck_data_ptr c) (ucast chunk_size) (ck_index c) msk
                   (uint (ck_index c))) cs br"

definition ChunkPoolManagerInput ::
    "'b buf_ring_api \<Rightarrow> (bool \<Rightarrow> size_t \<Rightarrow> addr option) \<Rightarrow> (size_t \<Rightarrow> addr option) \<Rightarrow>
     size_t \<Rightarrow> size_t \<Rightarrow> u16 \<Rightarrow> ('b chunk_manager \<times> u16) outcome" where
  "ChunkPoolManagerInput U mmap ring_mmap chunk_size chunk_num bid =
     andThen (ChunkPool mmap chunk_size chunk_num) (\<lambda>pool.
       let cs = map (\<lambda>i. Chunk (cp_data_ptr pool + chunk_size * of_nat i) (of_nat i))
                  [0..<unat (cp_chunks pool)]
       in if cp_chunks pool AND (cp_chunks pool - 1) \<noteq> 0 then Inl (Exit 1)
          else
            (let ring_size = br_sizeof_ring U + cp_chunks pool * br_sizeof_buf U in
             case ring_mmap ring_size of
               None \<Rightarrow> Inl (Exit 1)
             | Some ring_mem \<Rightarrow>
                 (let br = br_init U ring_mem;
                      msk = br_mask U (ucast (cp_chunks pool));
                      entries = ucast (cp_chunks pool);
                      (bgid, bid') = generateBid bid
                  in if br_register U ring_mem entries bgid < 0 then Inl (Exit 1)
                     else Inr
                       (\<lparr>cm_pool = pool, cm_chunk_size = chunk_size, cm_chunks_data = cs,
                         cm_ring = br_advance U (fill_ring U chunk_size msk cs br) (uint entries),
                         cm_ring_size = ring_size, cm_mask = msk, cm_ring_addr = ring_mem,
                         cm_ring_entries = entries, cm_bgid = bgid, cm_count = 0\<rparr>, bid'))))"

definition getChunkById :: "'b chunk_manager \<Rightarrow> u16 \<Rightarrow> nat option" where
  "getChunkById m bid =
     (if unat bid \<ge> length (cm_chunks_data m) then None else Some (unat bid))"

text \<open>Reading and writing the chunk a \<open>Chunk*\<close> points to.\<close>

definition chunk_at :: "'b chunk_manager \<Rightarrow> nat \<Rightarrow> chunk outcome" where
  "chunk_at m i =
     (if i < length (cm_chunks_data m) then Inr (cm_chunks_data m ! i) else Inl NullDeref)"

definition set_chunk :: "nat \<Rightarrow> chunk \<Rightarrow> 'b chunk_manager \<Rightarrow> 'b chunk_manager" where
  "set_chunk i c m = m\<lparr>cm_chunks_data := (cm_chunks_data m)[i := c]\<rparr>"

definition returnOneChunk ::
    "'b buf_ring_api \<Rightarrow> 'b chunk_manager \<Rightarrow> nat \<Rightarrow> 'b chunk_manager outcome" where
  "returnOneChunk U m i =
     andThen (chunk_at m i) (\<lambda>c0.
       let c = chunk_reset c0;
           m1 = set_chunk i c m;
           br = br_add U (cm_ring m1) (ck_data_ptr c) (ucast (cm_chunk_size m1)) (ck_index c)
                  (cm_mask m1) (uint (cm_count m1));
           m2 = m1\<lparr>cm_ring := br, cm_count := cm_count m1 + 1\<rparr>
       in Inr (if cm_count m2 \<ge> 1
               then m2\<lparr>cm_ring := br_advance U (cm_ring m2) (uint (cm_count m2)), cm_count := 0\<rparr>
               else m2))"

definition get_buf_group_id :: "'b chunk_manager \<Rightarrow> u16" where
  "get_buf_group_id m = cm_bgid m"

section \<open>The contract of the buffer ring\<close>

text \<open>
  What the manager relies on in liburing's buffer ring, for a ring of \<open>n\<close> entries: \<open>avail\<close> are
  the buffers published to the kernel and not yet taken by it, oldest first, \<open>slot b k\<close> the
  buffer written \<open>k\<close> places behind the tail. The mask of a ring is its size less one,
  \<open>io_uring_buf_ring_add\<close> writes one place and publishes nothing, and
  \<open>io_uring_buf_ring_advance\<close> publishes the next places if the ring has room for them.
\<close>

type_synonym buf = "addr \<times> u32 \<times> u16"

definition buf_ring_laws ::
    "'b buf_ring_api \<Rightarrow> ('b \<Rightarrow> buf list) \<Rightarrow> ('b \<Rightarrow> int \<Rightarrow> buf option) \<Rightarrow> nat \<Rightarrow> bool" where
  "buf_ring_laws U avail slot n \<longleftrightarrow>
     (\<forall>p. avail (br_init U p) = []) \<and>
     br_mask U (of_nat n) = int n - 1 \<and>
     (\<forall>b a l i k. avail (br_add U b a l i (int n - 1) k) = avail b) \<and>
     (\<forall>b a l i k j. 0 \<le> k \<longrightarrow> k < int n \<longrightarrow> 0 \<le> j \<longrightarrow> j < int n \<longrightarrow>
        slot (br_add U b a l i (int n - 1) k) j = (if j = k then Some (a, l, i) else slot b j)) \<and>
     (\<forall>b k f. length (avail b) + k \<le> n \<longrightarrow> (\<forall>j<k. slot b (int j) = Some (f j)) \<longrightarrow>
        avail (br_advance U b (int k)) = avail b @ map f [0..<k])"

text \<open>The buffer a chunk stands for in the ring, and the chunks the kernel may fill.\<close>

definition chunk_buf :: "'b chunk_manager \<Rightarrow> nat \<Rightarrow> buf" where
  "chunk_buf m i =
     (ck_data_ptr (cm_chunks_data m ! i), ucast (cm_chunk_size m), ck_index (cm_chunks_data m ! i))"

section \<open>Well-formed managers\<close>

definition manager_wf :: "'b chunk_manager \<Rightarrow> bool" where
  "manager_wf m \<longleftrightarrow>
     length (cm_chunks_data m) = unat (cp_chunks (cm_pool m)) \<and>
     length (cm_chunks_data m) \<le> 65536 \<and>
     unat (cm_chunk_size m) * length (cm_chunks_data m) < 2 ^ 64 \<and>
     (\<forall>i < length (cm_chunks_data m).
        ck_index (cm_chunks_data m ! i) = of_nat i \<and>
        ck_data_ptr (cm_chunks_data m ! i) =
          cp_data_ptr (cm_pool m) + cm_chunk_size m * of_nat i) \<and>
     cm_mask m = int (length (cm_chunks_data m)) - 1 \<and>
     cm_count m = 0"

lemma chunk_reset_simps [simp]:
  "ck_head (chunk_reset c) = 0" "ck_tail (chunk_reset c) = 0" "ck_next (chunk_reset c) = None"
  "ck_index (chunk_reset c) = ck_index c" "ck_data_ptr (chunk_reset c) = ck_data_ptr c"
  by (simp_all add: chunk_reset_def)

lemma set_chunk_simps [simp]:
  "cm_chunks_data (set_chunk i c m) = (cm_chunks_data m)[i := c]"
  "cm_pool (set_chunk i c m) = cm_pool m"
  "cm_chunk_size (set_chunk i c m) = cm_chunk_size m"
  "cm_ring (set_chunk i c m) = cm_ring m"
  "cm_mask (set_chunk i c m) = cm_mask m"
  "cm_count (set_chunk i c m) = cm_count m"
  by (simp_all add: set_chunk_def)

lemma manager_wf_bytes:
  "manager_wf m \<Longrightarrow> unat (cm_chunk_size m) * length (cm_chunks_data m) < 2 ^ 64"
  unfolding manager_wf_def by blast

lemma manager_wf_set_chunk:
  assumes "manager_wf m" and "i < length (cm_chunks_data m)"
    and "ck_index c = ck_index (cm_chunks_data m ! i)"
    and "ck_data_ptr c = ck_data_ptr (cm_chunks_data m ! i)"
  shows "manager_wf (set_chunk i c m)"
  using assms by (auto simp: manager_wf_def nth_list_update)

lemma returnOneChunk_eq:
  assumes "manager_wf m" and "i < length (cm_chunks_data m)"
  shows "returnOneChunk U m i =
     Inr (set_chunk i (chunk_reset (cm_chunks_data m ! i)) m
       \<lparr>cm_ring := br_advance U
          (br_add U (cm_ring m) (fst (chunk_buf m i)) (fst (snd (chunk_buf m i)))
             (snd (snd (chunk_buf m i))) (cm_mask m) 0) 1,
        cm_count := 0\<rparr>)"
  using assms
  by (simp add: returnOneChunk_def chunk_at_def Let_def chunk_buf_def manager_wf_def)

section \<open>The manager as a lender of chunks\<close>

text \<open>
  What the input buffer relies on: chunks are found by their buffer id, giving one back resets
  it and touches no other, and writing a chunk's cursor fields touches no other chunk.
\<close>

locale chunk_lender =
  fixes wf :: "'m \<Rightarrow> bool"
    and chunks :: "'m \<Rightarrow> chunk list"
    and find_id :: "'m \<Rightarrow> u16 \<Rightarrow> nat option"
    and give_back :: "'m \<Rightarrow> nat \<Rightarrow> 'm outcome"
    and set_at :: "nat \<Rightarrow> chunk \<Rightarrow> 'm \<Rightarrow> 'm"
  assumes find_id_bound: "wf m \<Longrightarrow> find_id m b = Some i \<Longrightarrow> i < length (chunks m)"
    and find_id_ok: "wf m \<Longrightarrow> unat b < length (chunks m) \<Longrightarrow> find_id m b = Some (unat b)"
    and set_at_chunks: "chunks (set_at i c m) = (chunks m)[i := c]"
    and set_at_wf: "wf m \<Longrightarrow> i < length (chunks m) \<Longrightarrow> ck_index c = ck_index (chunks m ! i) \<Longrightarrow>
      ck_data_ptr c = ck_data_ptr (chunks m ! i) \<Longrightarrow> wf (set_at i c m)"
    and give_back_ok: "wf m \<Longrightarrow> i < length (chunks m) \<Longrightarrow>
      \<exists>m'. give_back m i = Inr m' \<and> wf m' \<and>
        chunks m' = (chunks m)[i := chunk_reset (chunks m ! i)]"
begin

text \<open>Giving back a whole list of chunks, one after the other.\<close>

fun give_back_all :: "'m \<Rightarrow> nat list \<Rightarrow> 'm outcome" where
  "give_back_all m [] = Inr m"
| "give_back_all m (i # is) = andThen (give_back m i) (\<lambda>m'. give_back_all m' is)"

lemma give_back_all_ok:
  "wf m \<Longrightarrow> set is \<subseteq> {..<length (chunks m)} \<Longrightarrow>
   \<exists>m'. give_back_all m is = Inr m' \<and> wf m' \<and> length (chunks m') = length (chunks m) \<and>
     (\<forall>j. j \<notin> set is \<longrightarrow> chunks m' ! j = chunks m ! j) \<and>
     (\<forall>j\<in>set is. ck_head (chunks m' ! j) = 0 \<and> ck_tail (chunks m' ! j) = 0 \<and>
        ck_next (chunks m' ! j) = None)"
proof (induction "is" arbitrary: m)
  case Nil
  then show ?case by simp
next
  case (Cons i "is")
  then obtain m1 where m1: "give_back m i = Inr m1" "wf m1"
      "chunks m1 = (chunks m)[i := chunk_reset (chunks m ! i)]"
    using give_back_ok [of m i] by auto
  moreover from Cons.prems m1 have "set is \<subseteq> {..<length (chunks m1)}" by simp
  ultimately obtain m2 where m2: "give_back_all m1 is = Inr m2" "wf m2"
      "length (chunks m2) = length (chunks m1)"
      "\<forall>j. j \<notin> set is \<longrightarrow> chunks m2 ! j = chunks m1 ! j"
      "\<forall>j\<in>set is. ck_head (chunks m2 ! j) = 0 \<and> ck_tail (chunks m2 ! j) = 0 \<and>
        ck_next (chunks m2 ! j) = None"
    using Cons.IH [of m1] by auto
  from Cons.prems have "i < length (chunks m)" by simp
  then have i: "ck_head (chunks m2 ! i) = 0 \<and> ck_tail (chunks m2 ! i) = 0 \<and>
      ck_next (chunks m2 ! i) = None"
    using m1(3) m2(4,5) by (cases "i \<in> set is") auto
  show ?case
    using m1 m2 i by (auto simp: nth_list_update)
qed

end

lemma returnOneChunk_lends:
  assumes "manager_wf m" and "i < length (cm_chunks_data m)"
  shows "\<exists>m'. returnOneChunk U m i = Inr m' \<and> manager_wf m' \<and>
    cm_chunks_data m' = (cm_chunks_data m)[i := chunk_reset (cm_chunks_data m ! i)]"
proof -
  let ?m1 = "set_chunk i (chunk_reset (cm_chunks_data m ! i)) m"
  from assms have "manager_wf ?m1" by (intro manager_wf_set_chunk) simp_all
  then have "manager_wf (?m1\<lparr>cm_ring := r, cm_count := 0\<rparr>)" for r
    by (auto simp: manager_wf_def)
  with assms show ?thesis by (auto simp: returnOneChunk_eq)
qed

interpretation pool: chunk_lender manager_wf cm_chunks_data getChunkById
  "returnOneChunk U" set_chunk for U :: "'b buf_ring_api"
proof unfold_locales
  show "manager_wf m \<Longrightarrow> getChunkById m b = Some i \<Longrightarrow> i < length (cm_chunks_data m)"
    for m :: "'b chunk_manager" and b i
    by (auto simp: getChunkById_def split: if_splits)
qed (auto simp: getChunkById_def manager_wf_set_chunk returnOneChunk_lends)

section \<open>Filling and refilling the ring\<close>

lemma uint_of_nat_u16: "i < 65536 \<Longrightarrow> uint (of_nat i :: u16) = int i"
  by (simp add: uint_nat unat_of_nat)

lemma uint_of_nat_u32: "i \<le> 65536 \<Longrightarrow> uint (of_nat i :: u32) = int i"
  by (simp add: uint_nat unat_of_nat)

text \<open>After the first \<open>k\<close> additions of the constructor's loop the first \<open>k\<close> places are written.\<close>

lemma fill_ring_slots:
  assumes laws: "buf_ring_laws U avail slot n" and "n \<le> 65536" and "k \<le> n"
    and idx: "\<And>i. i < k \<Longrightarrow> ck_index (c i) = of_nat i"
  shows "avail (fill_ring U cs (int n - 1) (map c [0..<k]) br) = avail br \<and>
    (\<forall>j<k. slot (fill_ring U cs (int n - 1) (map c [0..<k]) br) (int j) =
       Some (ck_data_ptr (c j), ucast cs, ck_index (c j)))"
  using \<open>k \<le> n\<close> idx
proof (induction k)
  case 0
  then show ?case by (simp add: fill_ring_def)
next
  case (Suc k)
  let ?b = "fill_ring U cs (int n - 1) (map c [0..<k]) br"
  have k: "k < 65536" "k < n" using Suc.prems(1) \<open>n \<le> 65536\<close> by auto
  have step: "fill_ring U cs (int n - 1) (map c [0..<Suc k]) br =
      br_add U ?b (ck_data_ptr (c k)) (ucast cs) (ck_index (c k)) (int n - 1) (int k)"
    using Suc.prems(2) [of k] k uint_of_nat_u16 [of k] by (simp add: fill_ring_def)
  have IH: "avail ?b = avail br" and
    slots: "\<And>j. j < k \<Longrightarrow> slot ?b (int j) = Some (ck_data_ptr (c j), ucast cs, ck_index (c j))"
    using Suc.IH Suc.prems by auto
  have sl: "slot (br_add U b a l i (int n - 1) (int k)) (int j) =
      (if j = k then Some (a, l, i) else slot b (int j))" if "j < n" for b a l i j
    using laws that k by (simp add: buf_ring_laws_def)
  have "avail (br_add U ?b a l i (int n - 1) (int k)) = avail br" for a l i
    using laws IH by (simp add: buf_ring_laws_def)
  then show ?case
    unfolding step using sl slots k by (auto simp: less_Suc_eq)
qed

lemma ring_refill:
  assumes laws: "buf_ring_laws U avail slot n" and n: "0 < n" and room: "length (avail b) < n"
  shows "avail (br_advance U (br_add U b a l i (int n - 1) 0) 1) = avail b @ [(a, l, i)]"
proof -
  let ?b = "br_add U b a l i (int n - 1) 0"
  have "slot ?b (int 0) = Some (a, l, i)" "avail ?b = avail b"
    using laws n by (auto simp: buf_ring_laws_def)
  moreover have "avail (br_advance U ?b (int 1)) = avail ?b @ map (\<lambda>_. (a, l, i)) [0..<1]"
    using laws room calculation unfolding buf_ring_laws_def
    by (metis One_nat_def Suc_leI add.commute less_one plus_1_eq_Suc)
  ultimately show ?thesis by simp
qed

text \<open>
  Constructor of the chunk manager: whenever it returns, the manager is well formed and the
  kernel's buffer ring holds exactly the pool's chunks, each once, in index order.
\<close>

theorem constructor_publishes_all_chunks:
  assumes ring: "buf_ring_laws U avail slot (unat chunk_num)"
    and small: "unat chunk_num \<le> 65536" "unat chunk_size * unat chunk_num < 2 ^ 64"
    and ret: "ChunkPoolManagerInput U mmap ring_mmap chunk_size chunk_num bid = Inr (m, bid')"
  shows "manager_wf m \<and> length (cm_chunks_data m) = unat chunk_num \<and>
    avail (cm_ring m) = map (chunk_buf m) [0..<unat chunk_num] \<and> bid' = bid + 1"
proof -
  from ret obtain pool ring_mem where pool: "ChunkPool mmap chunk_size chunk_num = Inr pool"
    and m: "m = \<lparr>cm_pool = pool, cm_chunk_size = chunk_size,
      cm_chunks_data = map (\<lambda>i. Chunk (cp_data_ptr pool + chunk_size * of_nat i) (of_nat i))
                  [0..<unat (cp_chunks pool)],
      cm_ring = br_advance U (fill_ring U chunk_size (br_mask U (ucast (cp_chunks pool)))
        (map (\<lambda>i. Chunk (cp_data_ptr pool + chunk_size * of_nat i) (of_nat i))
                  [0..<unat (cp_chunks pool)]) (br_init U ring_mem))
        (uint (ucast (cp_chunks pool) :: u32)),
      cm_ring_size = br_sizeof_ring U + cp_chunks pool * br_sizeof_buf U,
      cm_mask = br_mask U (ucast (cp_chunks pool)), cm_ring_addr = ring_mem,
      cm_ring_entries = ucast (cp_chunks pool), cm_bgid = bid, cm_count = 0\<rparr>"
    and bid: "bid' = bid + 1"
    by (auto simp: ChunkPoolManagerInput_def Let_def generateBid_def outcome_iff
          split: if_splits option.splits)
  have num: "cp_chunks pool = chunk_num"
    using pool by (auto simp: ChunkPool_def Let_def split: option.splits)
  let ?n = "unat chunk_num"
  have entries: "uint (ucast chunk_num :: u32) = int ?n"
    using uint_of_nat_u32 [OF small(1)] by simp
  have msk: "br_mask U (ucast chunk_num) = int ?n - 1"
    using ring by (simp add: buf_ring_laws_def)
  let ?c = "\<lambda>i. Chunk (cp_data_ptr pool + chunk_size * of_nat i) (of_nat i)"
  let ?f = "fill_ring U chunk_size (int ?n - 1) (map ?c [0..<?n]) (br_init U ring_mem)"
  have fill: "avail ?f = []" "\<forall>j<?n. slot ?f (int j) =
      Some (ck_data_ptr (?c j), ucast chunk_size, ck_index (?c j))"
    using fill_ring_slots [OF ring small(1) order_refl, of ?c chunk_size "br_init U ring_mem"] ring
    by (auto simp: Chunk_def buf_ring_laws_def)
  have adv: "avail (br_advance U b (int k)) = avail b @ map f [0..<k]"
    if "length (avail b) + k \<le> ?n" "\<forall>j<k. slot b (int j) = Some (f j)" for b k f
    using ring that unfolding buf_ring_laws_def by blast
  have "avail (br_advance U ?f (int ?n)) = map (chunk_buf m) [0..<?n]"
    using adv [of ?f ?n "\<lambda>j. (ck_data_ptr (?c j), ucast chunk_size, ck_index (?c j))"] fill
    by (simp add: m num chunk_buf_def)
  moreover have "manager_wf m"
    using small by (auto simp: m num msk manager_wf_def Chunk_def)
  ultimately show ?thesis
    using bid by (simp add: m num msk entries)
qed

text \<open>
  Returning a chunk: \<open>returnOneChunk\<close> resets the chunk, publishes exactly its buffer behind the
  ones already in the ring, touches no other chunk and keeps the manager well formed.
\<close>

theorem return_publishes_chunk:
  assumes ring: "buf_ring_laws U avail slot (length (cm_chunks_data m))"
    and wf: "manager_wf m" and i: "i < length (cm_chunks_data m)"
    and room: "length (avail (cm_ring m)) < length (cm_chunks_data m)"
  shows "\<exists>m'. returnOneChunk U m i = Inr m' \<and> manager_wf m' \<and>
    avail (cm_ring m') = avail (cm_ring m) @ [chunk_buf m i] \<and>
    cm_chunks_data m' = (cm_chunks_data m)[i := chunk_reset (cm_chunks_data m ! i)]"
proof -
  let ?n = "length (cm_chunks_data m)"
  obtain a l b where buf: "chunk_buf m i = (a, l, b)" by (cases "chunk_buf m i")
  have msk: "cm_mask m = int ?n - 1" using wf by (simp add: manager_wf_def)
  have "avail (br_advance U (br_add U (cm_ring m) a l b (cm_mask m) 0) 1) =
      avail (cm_ring m) @ [(a, l, b)]"
    using ring_refill [OF ring _ room, of a l b] i unfolding msk by linarith
  with returnOneChunk_lends [OF wf i, of U] show ?thesis
    using returnOneChunk_eq [OF wf i, of U] buf by auto
qed

lemma chunk_addresses_distinct:
  assumes wf: "manager_wf m" and i: "i < length (cm_chunks_data m)"
    and j: "j < length (cm_chunks_data m)" and "i \<noteq> j"
    and a: "a < cm_chunk_size m" and b: "b < cm_chunk_size m"
  shows "ck_data_ptr (cm_chunks_data m ! i) + a \<noteq> ck_data_ptr (cm_chunks_data m ! j) + b"
proof
  let ?s = "unat (cm_chunk_size m)" and ?n = "length (cm_chunks_data m)"
  assume "ck_data_ptr (cm_chunks_data m ! i) + a = ck_data_ptr (cm_chunks_data m ! j) + b"
  then have eq: "cm_chunk_size m * of_nat i + a = cm_chunk_size m * of_nat j + b"
    using wf i j by (auto simp: manager_wf_def add.assoc)
  have off: "unat (cm_chunk_size m * of_nat k + c) = ?s * k + unat c \<and> unat c < ?s"
    if k: "k < ?n" and c: "c < cm_chunk_size m" for k and c :: size_t
  proof -
    have c': "unat c < ?s" using c by (simp add: word_less_nat_alt)
    have "?s * k + ?s \<le> ?s * ?n" using k
      by (metis Suc_leI mult_Suc_right mult_le_mono2 add.commute)
    then have lt: "?s * k + unat c < 2 ^ 64"
      using manager_wf_bytes [OF wf] c' by linarith
    have "cm_chunk_size m * of_nat k + c = of_nat (?s * k + unat c)" by simp
    then have "unat (cm_chunk_size m * of_nat k + c) = ?s * k + unat c"
      using lt using unat_of_nat_small [where 'a = 64, of "?s * k + unat c"] by simp
    with c' show ?thesis by simp
  qed
  have "?s * i + unat a = ?s * j + unat b" "unat a < ?s" "unat b < ?s"
    using off [OF i a] off [OF j b] eq by auto
  then have "i = j"
    by (metis add.commute div_mult_self2 div_less add_0 not_less_zero)
  with \<open>i \<noteq> j\<close> show False by simp
qed


section \<open>The power-of-two guard\<close>

lemma nat_and_pred_zero: "n AND (n - 1) = 0 \<longleftrightarrow> n = 0 \<or> (\<exists>k. n = 2 ^ k)" for n :: nat
proof (induction n rule: less_induct)
  case (less n)
  consider "n = 0" | m where "n = 2 * m" "0 < m" | m where "n = 2 * m + 1"
    by (metis evenE oddE gr0I mult_0_right)
  then show ?case
  proof cases
    case 1
    then show ?thesis by simp
  next
    case (2 m)
    have half: "(n - 1) div 2 = m - 1" using 2 by (cases m) auto
    have "n AND (n - 1) = 2 * (m AND (m - 1))"
      using 2 half by (subst and_rec [of n "n - 1"]) (auto simp: bit_simps)
    moreover have "(\<exists>k. m = 2 ^ k) \<longleftrightarrow> (\<exists>k. n = 2 ^ k)"
    proof
      assume "\<exists>k. m = 2 ^ k"
      then show "\<exists>k. n = 2 ^ k" using 2 by (metis power_Suc)
    next
      assume "\<exists>k. n = 2 ^ k"
      then obtain k where k: "n = 2 ^ k" by blast
      with 2 have "k \<noteq> 0" by (intro notI) simp
      with k 2 show "\<exists>k. m = 2 ^ k" by (cases k) auto
    qed
    ultimately show ?thesis using less.IH [of m] 2 by simp
  next
    case (3 m)
    have "n AND (n - 1) = 2 * m"
      using 3 by (subst and_rec [of n "n - 1"]) auto
    moreover have "(\<exists>k. n = 2 ^ k) \<longleftrightarrow> m = 0"
    proof
      assume "\<exists>k. n = 2 ^ k"
      then obtain k where "2 * m + 1 = (2::nat) ^ k" using 3 by auto
      then show "m = 0" by (cases k) (auto, presburger)
    qed (use 3 in \<open>auto intro: exI [of _ 0]\<close>)
    ultimately show ?thesis using 3 by auto
  qed
qed

lemma pow2_guard: "x AND (x - 1) = 0 \<longleftrightarrow> x = 0 \<or> (\<exists>k. unat x = 2 ^ k)" for x :: size_t
proof (cases "x = 0")
  case False
  then have "unat (x - 1) = unat x - 1"
    by (metis unat_minus_one)
  then have "unat (x AND (x - 1)) = (unat x AND (unat x - 1))"
    by (simp add: unsigned_and_eq)
  then show ?thesis
    using nat_and_pred_zero [of "unat x"] False by (metis unat_0 unat_eq_zero)
qed simp

text \<open>
  The constructor refuses a chunk count that is not a power of two with \<open>exit(1)\<close>: when the pool
  itself could be mapped, a manager is built only for zero chunks or a power of two.
\<close>

theorem constructor_rejects_non_powers_of_two:
  assumes "ChunkPool mmap chunk_size chunk_num = Inr pool"
    and "chunk_num \<noteq> 0" and "\<And>k. unat chunk_num \<noteq> 2 ^ k"
  shows "ChunkPoolManagerInput U mmap ring_mmap chunk_size chunk_num bid = Inl (Exit 1)"
proof -
  have "cp_chunks pool = chunk_num"
    using assms(1) by (auto simp: ChunkPool_def Let_def split: option.splits)
  moreover have "chunk_num AND (chunk_num - 1) \<noteq> 0"
    using assms(2,3) by (simp add: pow2_guard)
  ultimately show ?thesis
    using assms(1) by (simp add: ChunkPoolManagerInput_def Let_def)
qed

section \<open>A buffer ring that satisfies the contract\<close>

text \<open>
  The places behind the tail and the published buffers, kept apart: an instance of the
  parameter at which the hypotheses on the ring hold.
\<close>

definition list_ring :: "((int \<Rightarrow> buf option) \<times> buf list) buf_ring_api" where
  "list_ring =
     \<lparr>br_init = (\<lambda>p. (\<lambda>_. None, [])),
      br_mask = (\<lambda>n. uint n - 1),
      br_add = (\<lambda>(s, l) a len i m k. (s(k := Some (a, len, i)), l)),
      br_advance = (\<lambda>(s, l) k.
        (\<lambda>j. s (j + k), l @ map (\<lambda>j. the (s (int j))) [0..<nat k])),
      br_register = (\<lambda>_ _ _. 0), br_sizeof_ring = 16, br_sizeof_buf = 16\<rparr>"

lemma list_ring_laws: "n \<le> 65536 \<Longrightarrow> buf_ring_laws list_ring snd fst n"
  by (auto simp: buf_ring_laws_def list_ring_def uint_of_nat_u32 case_prod_beta)

definition demo_mmap :: "bool \<Rightarrow> size_t \<Rightarrow> addr option" where
  "demo_mmap huge n = (if huge then None else Some 4096)"

definition demo_manager :: "((int \<Rightarrow> buf option) \<times> buf list) chunk_manager" where
  "demo_manager =
     (case ChunkPoolManagerInput list_ring demo_mmap (\<lambda>_. Some 65536) 16 4 1 of
        Inr (m, _) \<Rightarrow> m)"

lemma demo_constructor:
  "ChunkPoolManagerInput list_ring demo_mmap (\<lambda>_. Some 65536) 16 4 1 = Inr (demo_manager, 2)"
  by (simp add: demo_manager_def ChunkPoolManagerInput_def ChunkPool_def demo_mmap_def
      Let_def generateBid_def list_ring_def)

theorem constructor_publishes_all_chunks_witness:
  "manager_wf demo_manager \<and> length (cm_chunks_data demo_manager) = 4 \<and>
   snd (cm_ring demo_manager) = map (chunk_buf demo_manager) [0..<4]"
  using constructor_publishes_all_chunks [of list_ring snd fst 4 16, OF _ _ _ demo_constructor]
  by (simp add: list_ring_laws)

lemma demo_manager_wf: "manager_wf demo_manager"
  and demo_manager_length: "length (cm_chunks_data demo_manager) = 4"
  by (simp_all add: demo_manager_def ChunkPoolManagerInput_def ChunkPool_def demo_mmap_def
      Let_def generateBid_def list_ring_def manager_wf_def Chunk_def)

lemma demo_manager_fields:
  "cm_chunks_data demo_manager = map (\<lambda>i. Chunk (4096 + 16 * of_nat i) (of_nat i)) [0..<4]"
  "cm_chunk_size demo_manager = 16"
  by (simp_all add: demo_manager_def ChunkPoolManagerInput_def ChunkPool_def demo_mmap_def
      Let_def generateBid_def list_ring_def)

theorem return_publishes_chunk_witness:
  "\<exists>m'. returnOneChunk list_ring (demo_manager\<lparr>cm_ring := (\<lambda>_. None, [])\<rparr>) 2 = Inr m' \<and>
     snd (cm_ring m') = [chunk_buf demo_manager 2]"
proof -
  let ?m = "demo_manager\<lparr>cm_ring := (\<lambda>_. None, [])\<rparr>"
  have "manager_wf ?m" using demo_manager_wf by (auto simp: manager_wf_def)
  then have "\<exists>m'. returnOneChunk list_ring ?m 2 = Inr m' \<and> manager_wf m' \<and>
      snd (cm_ring m') = snd (cm_ring ?m) @ [chunk_buf ?m 2] \<and>
      cm_chunks_data m' = (cm_chunks_data ?m)[2 := chunk_reset (cm_chunks_data ?m ! 2)]"
    by (intro return_publishes_chunk [where slot = fst])
      (simp_all add: list_ring_laws demo_manager_length)
  then show ?thesis by (auto simp: chunk_buf_def)
qed


lemma pow2_even: "(2::nat) ^ k = n \<Longrightarrow> odd n \<Longrightarrow> n = 1"
  by (cases k) auto

theorem constructor_rejects_non_powers_of_two_witness:
  "ChunkPoolManagerInput list_ring demo_mmap (\<lambda>_. Some 65536) 16 3 1 = Inl (Exit 1)"
proof -
  have "ChunkPool demo_mmap 16 3 =
      Inr \<lparr>cp_data_ptr = 4096, cp_bytes = 48, cp_chunks = 3\<rparr>"
    by (simp add: ChunkPool_def demo_mmap_def Let_def)
  moreover have "unat (3 :: size_t) \<noteq> 2 ^ k" for k
    using pow2_even [of k 3] by auto
  ultimately show ?thesis
    by (intro constructor_rejects_non_powers_of_two) auto
qed

end
