(* ===== verification/Input_Chain_Buffer.thy ===== *)
theory Input_Chain_Buffer
  imports Chunk_Pool
begin

text \<open>
  \<open>InputChainBuffer\<close> (include/InputChainBuffer.h, src/InputChainBuffer.cc): the received bytes of
  one connection, kept in place as a chain of pool chunks. The operations take the chunk
  manager they share with all other buffers and return it updated. Loops that end only because
  the chain is well formed are partial functions; their termination is proved below.
\<close>

record icb =
  icb_head :: "nat option"
  icb_tail :: "nat option"
  icb_chunks :: size_t
  icb_total_len :: size_t

definition InputChainBuffer :: icb where
  "InputChainBuffer = \<lparr>icb_head = None, icb_tail = None, icb_chunks = 0, icb_total_len = 0\<rparr>"

definition icb_push_back ::
    "'b chunk_manager \<Rightarrow> icb \<Rightarrow> u16 \<Rightarrow> int \<Rightarrow> ('b chunk_manager \<times> icb) outcome" where
  "icb_push_back m b index len =
     (let new_chunk = getChunkById m index in
      case icb_tail b of
        None \<Rightarrow> Inr (m, b\<lparr>icb_head := new_chunk, icb_tail := new_chunk,
                          icb_chunks := icb_chunks b + 1\<rparr>)
      | Some t \<Rightarrow> andThen (chunk_at m t) (\<lambda>c.
          Inr (set_chunk t (c\<lparr>ck_next := new_chunk\<rparr>) m,
               b\<lparr>icb_tail := new_chunk, icb_chunks := icb_chunks b + 1\<rparr>)))"

definition icb_append ::
    "'b chunk_manager \<Rightarrow> icb \<Rightarrow> u16 \<Rightarrow> int \<Rightarrow> ('b chunk_manager \<times> icb) outcome" where
  "icb_append m b index len =
     andThen (icb_push_back m b index len) (\<lambda>(m1, b1).
       case icb_tail b1 of
         None \<Rightarrow> Inl NullDeref
       | Some t \<Rightarrow> andThen (chunk_at m1 t) (\<lambda>c.
           Inr (set_chunk t (c\<lparr>ck_tail := ck_tail c + of_int len\<rparr>) m1,
                b1\<lparr>icb_total_len := icb_total_len b1 + of_int len\<rparr>)))"

definition icb_pop_front ::
    "'b buf_ring_api \<Rightarrow> 'b chunk_manager \<Rightarrow> icb \<Rightarrow> ('b chunk_manager \<times> icb \<times> bool) outcome" where
  "icb_pop_front U m b =
     (if icb_chunks b = 0 then Inr (m, b, False)
      else
        andThen
          (if icb_head b = icb_tail b then Inr (b\<lparr>icb_head := None, icb_tail := None\<rparr>)
           else (case icb_head b of
                   None \<Rightarrow> Inl NullDeref
                 | Some h \<Rightarrow> andThen (chunk_at m h) (\<lambda>c. Inr (b\<lparr>icb_head := ck_next c\<rparr>))))
          (\<lambda>b1. case icb_head b of
                  None \<Rightarrow> Inl NullDeref
                | Some ret \<Rightarrow> andThen (returnOneChunk U m ret) (\<lambda>m1.
                    Inr (m1, b1\<lparr>icb_chunks := icb_chunks b1 - 1\<rparr>, True))))"

text \<open>One round of the loop of \<open>retrieve\<close>, and the loop.\<close>

definition retrieve_step ::
    "'b buf_ring_api \<Rightarrow> size_t \<Rightarrow> 'b chunk_manager \<Rightarrow> icb \<Rightarrow> size_t \<Rightarrow> nat \<Rightarrow>
     ('b chunk_manager \<times> icb \<times> size_t) outcome" where
  "retrieve_step U len m b read_bytes h =
     andThen (chunk_at m h) (\<lambda>c.
       let offset = min (readableBytes c) (len - read_bytes);
           c1 = c\<lparr>ck_head := ck_head c + offset\<rparr>;
           m1 = set_chunk h c1 m
       in if readableBytes c1 = 0
          then andThen (icb_pop_front U m1 b) (\<lambda>(m2, b2, _). Inr (m2, b2, read_bytes + offset))
          else Inr (m1, b, read_bytes + offset))"

partial_function (option) retrieve_loop ::
    "'b buf_ring_api \<Rightarrow> size_t \<Rightarrow> 'b chunk_manager \<Rightarrow> icb \<Rightarrow> size_t \<Rightarrow>
     ('b chunk_manager \<times> icb \<times> size_t) outcome option" where
  "retrieve_loop U len m b read_bytes =
     (if read_bytes < len then
        (case icb_head b of
           None \<Rightarrow> Some (Inr (m, b, read_bytes))
         | Some h \<Rightarrow>
             (case retrieve_step U len m b read_bytes h of
                Inl e \<Rightarrow> Some (Inl e)
              | Inr (m1, b1, n) \<Rightarrow> retrieve_loop U len m1 b1 n))
      else Some (Inr (m, b, read_bytes)))"

definition icb_retrieve ::
    "'b buf_ring_api \<Rightarrow> 'b chunk_manager \<Rightarrow> icb \<Rightarrow> size_t \<Rightarrow>
     ('b chunk_manager \<times> icb) outcome option" where
  "icb_retrieve U m b len =
     map_option (\<lambda>r. andThen r (\<lambda>(m1, b1, read_bytes).
         Inr (m1, b1\<lparr>icb_total_len := icb_total_len b1 - read_bytes\<rparr>)))
       (retrieve_loop U len m b 0)"

text \<open>\<open>std::copy\<close> into the caller's buffer: writing past its end is a fault.\<close>

definition copy_to :: "byte list \<Rightarrow> nat \<Rightarrow> byte list \<Rightarrow> byte list outcome" where
  "copy_to target off bs =
     (if off + length bs \<le> length target
      then Inr (take off target @ bs @ drop (off + length bs) target) else Inl OutOfBounds)"

definition remove_step ::
    "memory \<Rightarrow> 'b buf_ring_api \<Rightarrow> size_t \<Rightarrow> 'b chunk_manager \<Rightarrow> icb \<Rightarrow> byte list \<Rightarrow> size_t \<Rightarrow> nat \<Rightarrow>
     ('b chunk_manager \<times> icb \<times> byte list \<times> size_t) outcome" where
  "remove_step mem U len m b target read_count h =
     andThen (chunk_at m h) (\<lambda>c.
       let fill_size = min (readableBytes c) (len - read_count) in
       andThen (copy_to target (unat read_count) (read_mem mem (beginRead c) (unat fill_size)))
         (\<lambda>target1.
            let c1 = c\<lparr>ck_head := ck_head c + fill_size\<rparr>;
                m1 = set_chunk h c1 m
            in if readableBytes c1 = 0
               then andThen (icb_pop_front U m1 b) (\<lambda>(m2, b2, _).
                      Inr (m2, b2, target1, read_count + fill_size))
               else Inr (m1, b, target1, read_count + fill_size)))"

partial_function (option) remove_loop ::
    "memory \<Rightarrow> 'b buf_ring_api \<Rightarrow> size_t \<Rightarrow> 'b chunk_manager \<Rightarrow> icb \<Rightarrow> byte list \<Rightarrow> size_t \<Rightarrow>
     ('b chunk_manager \<times> icb \<times> byte list \<times> size_t) outcome option" where
  "remove_loop mem U len m b target read_count =
     (if read_count < len then
        (case icb_head b of
           None \<Rightarrow> Some (Inr (m, b, target, read_count))
         | Some h \<Rightarrow>
             (case remove_step mem U len m b target read_count h of
                Inl e \<Rightarrow> Some (Inl e)
              | Inr (m1, b1, t1, n) \<Rightarrow> remove_loop mem U len m1 b1 t1 n))
      else Some (Inr (m, b, target, read_count)))"

definition icb_remove ::
    "memory \<Rightarrow> 'b buf_ring_api \<Rightarrow> 'b chunk_manager \<Rightarrow> icb \<Rightarrow> byte list \<Rightarrow> size_t \<Rightarrow>
     ('b chunk_manager \<times> icb \<times> byte list \<times> size_t) outcome option" where
  "icb_remove mem U m b target len =
     map_option (\<lambda>r. andThen r (\<lambda>(m1, b1, t1, read_count).
         Inr (m1, b1\<lparr>icb_total_len := icb_total_len b1 - read_count\<rparr>, t1, read_count)))
       (remove_loop mem U len m b target 0)"

definition removeAsString ::
    "memory \<Rightarrow> 'b buf_ring_api \<Rightarrow> 'b chunk_manager \<Rightarrow> icb \<Rightarrow> size_t \<Rightarrow>
     ('b chunk_manager \<times> icb \<times> byte list) outcome option" where
  "removeAsString mem U m b sz =
     map_option (\<lambda>r. andThen r (\<lambda>(m1, b1, t1, len). Inr (m1, b1, take (unat len) t1)))
       (icb_remove mem U m b (replicate (unat sz) 0) sz)"

definition removeAllAsString ::
    "memory \<Rightarrow> 'b buf_ring_api \<Rightarrow> 'b chunk_manager \<Rightarrow> icb \<Rightarrow>
     ('b chunk_manager \<times> icb \<times> byte list) outcome option" where
  "removeAllAsString mem U m b = removeAsString mem U m b (icb_total_len b)"

definition icb_peek :: "'b chunk_manager \<Rightarrow> icb \<Rightarrow> (addr option \<times> size_t) outcome" where
  "icb_peek m b =
     (case icb_head b of
        None \<Rightarrow> Inr (None, 0)
      | Some h \<Rightarrow> andThen (chunk_at m h) (\<lambda>c. Inr (Some (beginRead c), readableBytes c)))"

text \<open>The destructor: \<open>pop_front\<close> while \<open>chunks_\<close> is not zero.\<close>

lemma icb_pop_front_decreases:
  "icb_chunks b \<noteq> 0 \<Longrightarrow> icb_pop_front U m b = Inr (m1, b1, r) \<Longrightarrow>
   unat (icb_chunks b1) < unat (icb_chunks b)"
  by (auto simp: icb_pop_front_def outcome_iff unat_minus_one unat_gt_0
      split: if_splits option.splits)

function icb_destroy ::
    "'b buf_ring_api \<Rightarrow> 'b chunk_manager \<Rightarrow> icb \<Rightarrow> ('b chunk_manager \<times> icb) outcome" where
  "icb_destroy U m b =
     (if icb_chunks b \<noteq> 0
      then andThen (icb_pop_front U m b) (\<lambda>r. icb_destroy U (fst r) (fst (snd r)))
      else Inr (m, b))"
  by pat_completeness auto
termination
proof (relation "measure (\<lambda>(U, m, b). unat (icb_chunks b))")
  fix U :: "'b buf_ring_api" and m b r
  assume "icb_chunks b \<noteq> 0" and "icb_pop_front U m b = Inr r"
  then show "((U, fst r, fst (snd r)), U, m, b) \<in> measure (\<lambda>(U, m, b). unat (icb_chunks b))"
    by (cases r) (auto dest: icb_pop_front_decreases)
qed simp

declare icb_destroy.simps [simp del]

section \<open>Representation\<close>

text \<open>
  \<open>icb_shape m b xs\<close>: the buffer \<open>b\<close> is the chain of the chunks \<open>xs\<close>; \<open>icb_links\<close>: each of them
  has unread bytes, which lie inside the chunk. \<open>icb_rep\<close> adds that \<open>total_len_\<close> counts the unread bytes.
\<close>

abbreviation chunk_next :: "'b chunk_manager \<Rightarrow> nat \<Rightarrow> nat option" where
  "chunk_next m i \<equiv> ck_next (cm_chunks_data m ! i)"

definition unread :: "'b chunk_manager \<Rightarrow> nat \<Rightarrow> nat" where
  "unread m i = unat (ck_tail (cm_chunks_data m ! i)) - unat (ck_head (cm_chunks_data m ! i))"

definition chunk_bytes :: "memory \<Rightarrow> 'b chunk_manager \<Rightarrow> nat \<Rightarrow> byte list" where
  "chunk_bytes mem m i = read_mem mem (beginRead (cm_chunks_data m ! i)) (unread m i)"

definition icb_bytes :: "memory \<Rightarrow> 'b chunk_manager \<Rightarrow> nat list \<Rightarrow> byte list" where
  "icb_bytes mem m xs = concat (map (chunk_bytes mem m) xs)"

definition icb_shape :: "'b chunk_manager \<Rightarrow> icb \<Rightarrow> nat list \<Rightarrow> bool" where
  "icb_shape m b xs \<longleftrightarrow>
     manager_wf m \<and> linked (chunk_next m) (icb_head b) xs None \<and> distinct xs \<and>
     set xs \<subseteq> {..<length (cm_chunks_data m)} \<and>
     icb_tail b = (if xs = [] then None else Some (last xs)) \<and>
     unat (icb_chunks b) = length xs"

definition icb_links :: "'b chunk_manager \<Rightarrow> icb \<Rightarrow> nat list \<Rightarrow> bool" where
  "icb_links m b xs \<longleftrightarrow>
     icb_shape m b xs \<and>
     (\<forall>i\<in>set xs. ck_head (cm_chunks_data m ! i) < ck_tail (cm_chunks_data m ! i) \<and>
        ck_tail (cm_chunks_data m ! i) \<le> cm_chunk_size m)"

definition icb_rep :: "'b chunk_manager \<Rightarrow> icb \<Rightarrow> nat list \<Rightarrow> bool" where
  "icb_rep m b xs \<longleftrightarrow>
     icb_links m b xs \<and> unat (icb_total_len b) = (\<Sum>i\<leftarrow>xs. unread m i)"

lemma icb_links_wf: "icb_links m b xs \<Longrightarrow> manager_wf m"
  by (simp add: icb_links_def icb_shape_def)

lemma length_chunk_bytes [simp]: "length (chunk_bytes mem m i) = unread m i"
  by (simp add: chunk_bytes_def)

lemma length_icb_bytes: "length (icb_bytes mem m xs) = (\<Sum>i\<leftarrow>xs. unread m i)"
  by (simp add: icb_bytes_def length_concat_map)

lemma icb_bytes_simps [simp]:
  "icb_bytes mem m [] = []"
  "icb_bytes mem m (x # xs) = chunk_bytes mem m x @ icb_bytes mem m xs"
  by (simp_all add: icb_bytes_def)

lemma icb_bytes_cong:
  "(\<And>i. i \<in> set xs \<Longrightarrow> cm_chunks_data m ! i = cm_chunks_data m' ! i) \<Longrightarrow>
   icb_bytes mem m xs = icb_bytes mem m' xs"
  by (auto simp: icb_bytes_def chunk_bytes_def unread_def intro!: arg_cong [of _ _ concat])

lemma unread_sum_cong:
  "(\<And>i. i \<in> set xs \<Longrightarrow> cm_chunks_data m ! i = cm_chunks_data m' ! i) \<Longrightarrow>
   (\<Sum>i\<leftarrow>xs. unread m i) = (\<Sum>i\<leftarrow>xs. unread m' i)"
  by (auto simp: unread_def intro!: arg_cong [of _ _ sum_list])

lemma icb_links_head: "icb_links m b xs \<Longrightarrow> icb_head b = (case xs of [] \<Rightarrow> None | x # _ \<Rightarrow> Some x)"
  by (cases xs) (auto simp: icb_links_def icb_shape_def)

lemma icb_rep_empty: "manager_wf m \<Longrightarrow> icb_rep m InputChainBuffer []"
  by (simp add: icb_rep_def icb_links_def icb_shape_def InputChainBuffer_def)

text \<open>The unread bytes of a pool fit a \<open>size_t\<close>.\<close>

lemma unread_le: "icb_links m b xs \<Longrightarrow> i \<in> set xs \<Longrightarrow> unread m i \<le> unat (cm_chunk_size m)"
  by (auto simp: icb_links_def unread_def word_le_nat_alt intro: le_trans)

lemma unread_pos: "icb_links m b xs \<Longrightarrow> i \<in> set xs \<Longrightarrow> 0 < unread m i"
  by (auto simp: icb_links_def unread_def word_less_nat_alt)

lemma unread_sum_bound:
  assumes "icb_links m b xs"
  shows "(\<Sum>i\<leftarrow>xs. unread m i) \<le> unat (cm_chunk_size m) * length xs"
    and "length xs \<le> length (cm_chunks_data m)"
    and "(\<Sum>i\<leftarrow>xs. unread m i) < 2 ^ 64"
proof -
  show 1: "(\<Sum>i\<leftarrow>xs. unread m i) \<le> unat (cm_chunk_size m) * length xs"
    using sum_list_map_le [of xs "unread m" "\<lambda>_. unat (cm_chunk_size m)"] unread_le [OF assms]
    by (simp add: sum_list_triv mult.commute)
  show 2: "length xs \<le> length (cm_chunks_data m)"
    using assms by (intro distinct_bounded_length) (auto simp: icb_links_def icb_shape_def)
  have "unat (cm_chunk_size m) * length xs \<le> unat (cm_chunk_size m) * length (cm_chunks_data m)"
    using 2 by simp
  then show "(\<Sum>i\<leftarrow>xs. unread m i) < 2 ^ 64"
    using 1 manager_wf_bytes [OF icb_links_wf [OF assms]] by linarith
qed

section \<open>Popping and consuming\<close>

definition refill :: "'b buf_ring_api \<Rightarrow> 'b chunk_manager \<Rightarrow> nat \<Rightarrow> 'b \<Rightarrow> 'b" where
  "refill U m i r =
     br_advance U (br_add U r (fst (chunk_buf m i)) (fst (snd (chunk_buf m i)))
        (snd (snd (chunk_buf m i))) (cm_mask m) 0) 1"

text \<open>
  What a consuming operation does to the manager besides moving the cursor of the first chunk
  it keeps: the chunks \<open>ps\<close> are reset and refilled into the ring in order, nothing else changes.
\<close>

definition consumed ::
    "'b buf_ring_api \<Rightarrow> nat set \<Rightarrow> nat list \<Rightarrow> 'b chunk_manager \<Rightarrow> 'b chunk_manager \<Rightarrow> bool" where
  "consumed U S ps m m' \<longleftrightarrow>
     manager_wf m' \<and> cm_pool m' = cm_pool m \<and> cm_chunk_size m' = cm_chunk_size m \<and>
     length (cm_chunks_data m') = length (cm_chunks_data m) \<and>
     cm_ring m' = fold (refill U m) ps (cm_ring m) \<and>
     (\<forall>i. i \<notin> S \<longrightarrow> cm_chunks_data m' ! i = cm_chunks_data m ! i) \<and>
     (\<forall>i \<in> set ps. ck_head (cm_chunks_data m' ! i) = 0 \<and> ck_tail (cm_chunks_data m' ! i) = 0 \<and>
        ck_next (cm_chunks_data m' ! i) = None)"

lemma manager_wf_idx:
  assumes "manager_wf m" and "manager_wf m'" and "cm_pool m' = cm_pool m"
    and "cm_chunk_size m' = cm_chunk_size m"
    and "length (cm_chunks_data m') = length (cm_chunks_data m)"
    and "i < length (cm_chunks_data m)"
  shows "chunk_buf m' i = chunk_buf m i" and "cm_mask m' = cm_mask m"
  using assms by (simp_all add: manager_wf_def chunk_buf_def)

lemma refill_cong:
  assumes "manager_wf m" and "consumed U S ps m m'" and "i < length (cm_chunks_data m)"
  shows "refill U m' i = refill U m i"
  using assms manager_wf_idx [of m m' i]
  by (auto simp: consumed_def refill_def fun_eq_iff)

lemma fold_refill_cong:
  assumes "manager_wf m" and "consumed U S ps m m'" and "set qs \<subseteq> {..<length (cm_chunks_data m)}"
  shows "fold (refill U m') qs r = fold (refill U m) qs r"
  using assms(3)
proof (induction qs arbitrary: r)
  case (Cons q qs)
  then show ?case using refill_cong [OF assms(1,2), of q] by simp
qed simp

lemma consumed_trans:
  assumes "manager_wf m" and "consumed U S ps m m1" and "consumed U T qs m1 m2"
    and "set qs \<subseteq> {..<length (cm_chunks_data m)}" and "set ps \<inter> T = {}"
  shows "consumed U (S \<union> T) (ps @ qs) m m2"
proof -
  have "cm_ring m2 = fold (refill U m) qs (cm_ring m1)"
    using assms(3) fold_refill_cong [OF assms(1,2,4)] by (simp add: consumed_def)
  moreover have "cm_chunks_data m2 ! i = cm_chunks_data m1 ! i" if "i \<in> set ps" for i
    using assms(3,5) that by (auto simp: consumed_def)
  ultimately show ?thesis
    using assms(2,3) by (auto simp: consumed_def)
qed

lemma consumed_return:
  assumes wf: "manager_wf m" and i: "i < length (cm_chunks_data m)"
  shows "\<exists>m'. returnOneChunk U m i = Inr m' \<and> consumed U {i} [i] m m'"
proof -
  obtain m' where m': "returnOneChunk U m i = Inr m'" "manager_wf m'"
    "cm_chunks_data m' = (cm_chunks_data m)[i := chunk_reset (cm_chunks_data m ! i)]"
    using pool.give_back_ok [OF wf i] by blast
  then show ?thesis
    using i by (auto simp: returnOneChunk_eq [OF wf i] consumed_def refill_def)
qed

lemma icb_pop_front_shape:
  assumes sh: "icb_shape m b (x # xs)"
  shows "\<exists>m' b'. icb_pop_front U m b = Inr (m', b', True) \<and> icb_shape m' b' xs \<and>
    consumed U {x} [x] m m' \<and> icb_total_len b' = icb_total_len b"
proof -
  from sh have wf: "manager_wf m" and x: "x < length (cm_chunks_data m)"
    and hd: "icb_head b = Some x" and tl: "linked (chunk_next m) (chunk_next m x) xs None"
    and dist: "x \<notin> set xs" "distinct xs" "set xs \<subseteq> {..<length (cm_chunks_data m)}"
    and tail: "icb_tail b = Some (last (x # xs))" and num: "unat (icb_chunks b) = Suc (length xs)"
    by (auto simp: icb_shape_def)
  obtain m' where ret: "returnOneChunk U m x = Inr m'" and con: "consumed U {x} [x] m m'"
    using consumed_return [OF wf x] by blast
  have nz: "icb_chunks b \<noteq> 0" using num by auto
  have cnt: "unat (icb_chunks b - 1) = length xs" using num nz by (simp add: unat_minus_one)
  have same: "\<And>i. i \<in> set xs \<Longrightarrow> cm_chunks_data m' ! i = cm_chunks_data m ! i"
    and wf': "manager_wf m'" and len: "length (cm_chunks_data m') = length (cm_chunks_data m)"
    using con dist by (auto simp: consumed_def)
  have lnk: "linked (chunk_next m') p xs None = linked (chunk_next m) p xs None" for p
    using same by (intro linked_cong) simp
  have last: "icb_head b = icb_tail b \<longleftrightarrow> xs = []"
    using hd tail dist(1) by (cases "xs = []") auto
  show ?thesis
  proof (cases "xs = []")
    case True
    then show ?thesis
      using ret con nz hd tail cnt wf' by (auto simp: icb_pop_front_def icb_shape_def)
  next
    case False
    then show ?thesis
      using ret con nz hd tail cnt wf' x last tl dist len
      by (auto simp: icb_pop_front_def icb_shape_def chunk_at_def lnk)
  qed
qed

lemma readable_unat:
  "ck_head c \<le> ck_tail c \<Longrightarrow> unat (readableBytes c) = unat (ck_tail c) - unat (ck_head c)"
  by (simp add: readableBytes_def unat_simps word_le_nat_alt)

lemma chunk_bytes_drop:
  assumes "cm_chunks_data m ! i = c" and "cm_chunks_data m' ! i = c\<lparr>ck_head := ck_head c + n\<rparr>"
    and "unat n \<le> unread m i" and "ck_head c \<le> ck_tail c"
  shows "chunk_bytes mem m' i = drop (unat n) (chunk_bytes mem m i)"
    and "unread m' i = unread m i - unat n"
proof -
  have "unat (ck_head c) + unat n \<le> unat (ck_tail c)"
    using assms(1,3,4) by (simp add: unread_def word_le_nat_alt)
  moreover have "unat (ck_tail c) < 2 ^ 64" by (rule unat_bound64)
  ultimately have "unat (ck_head c + n) = unat (ck_head c) + unat n"
    by (intro unat_plus_small) simp
  then show un: "unread m' i = unread m i - unat n"
    using assms(1,2) by (simp add: unread_def)
  have "beginRead (cm_chunks_data m' ! i) = beginRead (cm_chunks_data m ! i) + n"
    using assms(1,2) by (simp add: beginRead_def add.assoc)
  then show "chunk_bytes mem m' i = drop (unat n) (chunk_bytes mem m i)"
    using read_mem_drop [OF assms(3), of mem] un by (simp add: chunk_bytes_def)
qed

text \<open>The first chunk of a chain with \<open>off\<close> of its bytes read.\<close>

definition advanced :: "nat \<Rightarrow> size_t \<Rightarrow> 'b chunk_manager \<Rightarrow> 'b chunk_manager" where
  "advanced x off m =
     set_chunk x ((cm_chunks_data m ! x)\<lparr>ck_head := ck_head (cm_chunks_data m ! x) + off\<rparr>) m"

lemma advanced_head:
  assumes "unat off \<le> unread m x" and "ck_head (cm_chunks_data m ! x) < ck_tail (cm_chunks_data m ! x)"
  shows "unat (ck_head (cm_chunks_data m ! x) + off) = unat (ck_head (cm_chunks_data m ! x)) + unat off"
    and "ck_head (cm_chunks_data m ! x) + off \<le> ck_tail (cm_chunks_data m ! x)"
proof -
  let ?c = "cm_chunks_data m ! x"
  have le: "unat (ck_head ?c) + unat off \<le> unat (ck_tail ?c)"
    using assms by (auto simp: unread_def word_less_nat_alt)
  then show "unat (ck_head ?c + off) = unat (ck_head ?c) + unat off"
    using unat_bound64 [of "ck_tail ?c"] by (intro unat_plus_small) simp
  with le show "ck_head ?c + off \<le> ck_tail ?c" by (simp add: word_le_nat_alt)
qed

lemma advanced_links:
  assumes lk: "icb_links m b (x # xs)" and le: "unat off \<le> unread m x"
  shows "icb_shape (advanced x off m) b (x # xs)"
    and "consumed U {x} [] m (advanced x off m)"
    and "chunk_bytes mem (advanced x off m) x = drop (unat off) (chunk_bytes mem m x)"
    and "unread (advanced x off m) x = unread m x - unat off"
    and "icb_bytes mem (advanced x off m) xs = icb_bytes mem m xs"
    and "readableBytes (cm_chunks_data (advanced x off m) ! x) = 0 \<longleftrightarrow> unat off = unread m x"
proof -
  let ?c = "cm_chunks_data m ! x" and ?m1 = "advanced x off m"
  from lk have sh: "icb_shape m b (x # xs)" and wf: "manager_wf m"
    and x: "x < length (cm_chunks_data m)" and xn: "x \<notin> set xs" and cur: "ck_head ?c < ck_tail ?c"
    by (auto simp: icb_links_def icb_shape_def)
  have m1x: "cm_chunks_data ?m1 ! x = ?c\<lparr>ck_head := ck_head ?c + off\<rparr>" using x by (simp add: advanced_def)
  have wf1: "manager_wf ?m1" unfolding advanced_def using wf x by (intro manager_wf_set_chunk) simp_all
  show "icb_shape ?m1 b (x # xs)"
    using sh x wf1 linked_cong [of xs "chunk_next ?m1" "chunk_next m"] xn
    by (auto simp: icb_shape_def advanced_def nth_list_update)
  show "consumed U {x} [] m ?m1"
    using wf1 by (auto simp: consumed_def advanced_def nth_list_update)
  show "icb_bytes mem ?m1 xs = icb_bytes mem m xs"
    unfolding advanced_def using xn by (intro icb_bytes_cong) (metis nth_list_update_neq set_chunk_simps(1))
  show "chunk_bytes mem ?m1 x = drop (unat off) (chunk_bytes mem m x)"
    and un: "unread ?m1 x = unread m x - unat off"
    using chunk_bytes_drop [OF refl m1x le less_imp_le [OF cur]] by simp_all
  show "readableBytes (cm_chunks_data ?m1 ! x) = 0 \<longleftrightarrow> unat off = unread m x"
    using readable_unat [of "cm_chunks_data ?m1 ! x"] advanced_head [OF le cur] un le m1x
    by (auto simp: unread_def unat_eq_zero [symmetric])
qed

text \<open>When the chunk is used up it is given back, and the rest of the chain is as before.\<close>

lemma advanced_pop:
  assumes lk: "icb_links m b (x # xs)" and full: "unat off = unread m x"
  shows "\<exists>m' b'. icb_pop_front U (advanced x off m) b = Inr (m', b', True) \<and> icb_links m' b' xs \<and>
    consumed U {x} [x] m m' \<and> icb_total_len b' = icb_total_len b \<and>
    (\<forall>mem. icb_bytes mem m' xs = icb_bytes mem m xs)"
proof -
  have le: "unat off \<le> unread m x" using full by simp
  from lk have wf: "manager_wf m" and x: "x < length (cm_chunks_data m)" and xn: "x \<notin> set xs"
    by (auto simp: icb_links_def icb_shape_def)
  obtain m' b' where pop: "icb_pop_front U (advanced x off m) b = Inr (m', b', True)"
    "icb_shape m' b' xs" "consumed U {x} [x] (advanced x off m) m'" "icb_total_len b' = icb_total_len b"
    using icb_pop_front_shape [OF advanced_links(1) [OF lk le]] by blast
  have con: "consumed U {x} [x] m m'"
    using consumed_trans [OF wf advanced_links(2) [OF lk le] pop(3)] x by simp
  have same: "cm_chunks_data m' ! i = cm_chunks_data m ! i" if "i \<in> set xs" for i
    using con that xn by (auto simp: consumed_def)
  have "icb_links m' b' xs" using pop(2) lk same con by (auto simp: icb_links_def consumed_def)
  moreover have "icb_bytes mem m' xs = icb_bytes mem m xs" for mem
    using same by (intro icb_bytes_cong) simp
  ultimately show ?thesis using pop con by blast
qed

lemma advanced_partial:
  assumes lk: "icb_links m b (x # xs)" and part: "unat off < unread m x"
  shows "icb_links (advanced x off m) b (x # xs)"
proof -
  have le: "unat off \<le> unread m x" using part by simp
  from lk have x: "x < length (cm_chunks_data m)" "x \<notin> set xs" by (auto simp: icb_links_def icb_shape_def)
  have "0 < unread (advanced x off m) x" using advanced_links(4) [OF lk le] part by simp
  then show ?thesis
    using advanced_links(1) [OF lk le] lk x
    by (auto simp: icb_links_def unread_def advanced_def nth_list_update word_less_nat_alt)
qed

lemma retrieve_step_advanced:
  assumes "x < length (cm_chunks_data m)"
    and "off = min (readableBytes (cm_chunks_data m ! x)) (len - rc)"
  shows "retrieve_step U len m b rc x =
    (if readableBytes (cm_chunks_data (advanced x off m) ! x) = 0
     then andThen (icb_pop_front U (advanced x off m) b) (\<lambda>(m', b', _). Inr (m', b', rc + off))
     else Inr (advanced x off m, b, rc + off))"
  using assms by (simp add: retrieve_step_def chunk_at_def advanced_def Let_def)

lemma retrieve_amount:
  assumes "icb_links m b (x # xs)" and rc: "rc < len"
    and off: "off = min (readableBytes (cm_chunks_data m ! x)) (len - rc)"
  shows "unat off = min (unread m x) (unat len - unat rc)" and "unat (rc + off) = unat rc + unat off"
proof -
  have "ck_head (cm_chunks_data m ! x) \<le> ck_tail (cm_chunks_data m ! x)"
    using assms(1) by (auto simp: icb_links_def)
  then have "unat (readableBytes (cm_chunks_data m ! x)) = unread m x" by (simp add: readable_unat unread_def)
  then show u: "unat off = min (unread m x) (unat len - unat rc)"
    using rc off by (simp add: unat_simps word_less_nat_alt)
  then have "unat rc + unat off \<le> unat len" using rc by (simp add: word_less_nat_alt)
  then show "unat (rc + off) = unat rc + unat off"
    using unat_bound64 [of len] by (intro unat_plus_small) simp
qed

text \<open>
  One round of a consuming loop on the first chunk \<open>x\<close>: either the chunk is used up and given
  back (\<open>ps = [x]\<close>), or the request is satisfied.
\<close>

lemma retrieve_step_links:
  assumes lk: "icb_links m b (x # xs)" and rc: "rc < len"
  shows "\<exists>m' b' rc' ps xs'. retrieve_step U len m b rc x = Inr (m', b', rc') \<and>
    icb_links m' b' xs' \<and> x # xs = ps @ xs' \<and> consumed U {x} ps m m' \<and>
    unat rc' = unat rc + min (unread m x) (unat len - unat rc) \<and>
    (\<forall>mem. icb_bytes mem m' xs' = drop (unat rc' - unat rc) (icb_bytes mem m (x # xs))) \<and>
    icb_total_len b' = icb_total_len b \<and>
    (ps = [x] \<and> xs' = xs \<or> ps = [] \<and> xs' = x # xs \<and> rc' = len)"
proof -
  define off where "off = min (readableBytes (cm_chunks_data m ! x)) (len - rc)"
  note am = retrieve_amount [OF lk rc off_def]
  have le: "unat off \<le> unread m x" using am(1) by simp
  have "x < length (cm_chunks_data m)" using lk by (auto simp: icb_links_def icb_shape_def)
  note st = retrieve_step_advanced [OF this off_def, of U b] and adv = advanced_links [OF lk le]
  show ?thesis
  proof (cases "unat off = unread m x")
    case True
    obtain m' b' where pop: "icb_pop_front U (advanced x off m) b = Inr (m', b', True)" "icb_links m' b' xs"
      "consumed U {x} [x] m m'" "icb_total_len b' = icb_total_len b"
      "\<And>mem. icb_bytes mem m' xs = icb_bytes mem m xs"
      using advanced_pop [OF lk True, of U] by blast
    have "retrieve_step U len m b rc x = Inr (m', b', rc + off)"
      using st adv(6) True pop(1) by simp
    then show ?thesis
      using pop True am
      by (intro exI [of _ m'] exI [of _ b'] exI [of _ "rc + off"] exI [of _ "[x]"] exI [of _ xs]) simp
  next
    case False
    then have lt: "unat off < unread m x" using le by simp
    then have all: "unat off = unat len - unat rc" using am(1) by simp
    then have fin: "rc + off = len" using am(2) rc by (simp add: word_unat_eq_iff word_less_nat_alt)
    have "retrieve_step U len m b rc x = Inr (advanced x off m, b, rc + off)"
      using st adv(6) False by simp
    then show ?thesis
      using advanced_partial [OF lk lt] adv(2,3,5) am fin le
      by (intro exI [of _ "advanced x off m"] exI [of _ b] exI [of _ "rc + off"] exI [of _ "[]"]
            exI [of _ "x # xs"]) simp
  qed
qed

text \<open>
  What a consuming loop leaves when it started with \<open>rc\<close> bytes read and stops with \<open>rc'\<close>: the chain
  without its first bytes, and the chunks used up given back.
\<close>

definition retrieved ::
    "'b buf_ring_api \<Rightarrow> size_t \<Rightarrow> nat list \<Rightarrow> 'b chunk_manager \<Rightarrow> icb \<Rightarrow> size_t \<Rightarrow>
     'b chunk_manager \<Rightarrow> icb \<Rightarrow> size_t \<Rightarrow> nat list \<Rightarrow> nat list \<Rightarrow> bool" where
  "retrieved U len xs m b rc m' b' rc' ps xs' \<longleftrightarrow>
     icb_links m' b' xs' \<and> xs = ps @ xs' \<and> consumed U (set xs) ps m m' \<and>
     unat rc' = min (unat len) (unat rc + (\<Sum>i\<leftarrow>xs. unread m i)) \<and>
     (\<forall>mem. icb_bytes mem m' xs' = drop (unat rc' - unat rc) (icb_bytes mem m xs)) \<and>
     icb_total_len b' = icb_total_len b"

lemma retrieved_stop:
  assumes "icb_links m b xs" and "rc \<le> len" and "rc = len \<or> xs = []"
  shows "retrieved U len xs m b rc m b rc [] xs"
  using assms icb_links_wf [OF assms(1)]
  by (auto simp: retrieved_def consumed_def word_le_nat_alt)

text \<open>A chunk used up in one round, and the rest of the loop.\<close>

lemma retrieved_Cons:
  assumes lk: "icb_links m b (x # xs)" and lt: "rc < len" and con: "consumed U {x} [x] m m1"
    and rc1: "unat rc1 = unat rc + min (unread m x) (unat len - unat rc)"
    and bytes: "\<And>mem. icb_bytes mem m1 xs = drop (unat rc1 - unat rc) (icb_bytes mem m (x # xs))"
    and tot: "icb_total_len b1 = icb_total_len b"
    and ih: "retrieved U len xs m1 b1 rc1 m2 b2 rc2 qs xs2"
  shows "retrieved U len (x # xs) m b rc m2 b2 rc2 (x # qs) xs2"
proof -
  have sub: "set xs \<subseteq> {..<length (cm_chunks_data m)}" "x \<notin> set xs"
    using lk by (auto simp: icb_links_def icb_shape_def)
  have "(\<Sum>i\<leftarrow>xs. unread m1 i) = (\<Sum>i\<leftarrow>xs. unread m i)"
    using con sub(2) by (intro unread_sum_cong) (auto simp: consumed_def)
  then have rc2: "unat rc2 = min (unat len) (unat rc1 + (\<Sum>i\<leftarrow>xs. unread m i))"
    using ih by (simp add: retrieved_def)
  have "consumed U ({x} \<union> set xs) ([x] @ qs) m m2"
    using ih sub by (intro consumed_trans [OF icb_links_wf [OF lk] con]) (auto simp: retrieved_def)
  moreover have "unat rc2 = min (unat len) (unat rc + (\<Sum>i\<leftarrow>x # xs. unread m i))"
    using rc1 rc2 lt by (simp add: min_def word_less_nat_alt split: if_splits)
  moreover have "icb_bytes mem m2 xs2 = drop (unat rc2 - unat rc) (icb_bytes mem m (x # xs))" for mem
  proof -
    have "unat rc \<le> unat rc1" "unat rc1 \<le> unat rc2"
      using rc1 rc2 lt by (auto simp: word_less_nat_alt)
    moreover have "icb_bytes mem m2 xs2 = drop (unat rc2 - unat rc1) (icb_bytes mem m1 xs)"
      using ih by (simp add: retrieved_def)
    ultimately show ?thesis unfolding bytes by (simp del: icb_bytes_simps)
  qed
  ultimately show ?thesis using ih tot by (simp add: retrieved_def)
qed

text \<open>The loop of \<open>retrieve\<close> ends, and leaves the chain without the first bytes.\<close>

lemma retrieve_loop_unfold:
  "rc < len \<Longrightarrow> icb_head b = Some x \<Longrightarrow> retrieve_step U len m b rc x = Inr (m1, b1, rc1) \<Longrightarrow>
   retrieve_loop U len m b rc = retrieve_loop U len m1 b1 rc1"
  by (subst retrieve_loop.simps) simp

lemma retrieve_loop_stop:
  "rc = len \<or> icb_head b = None \<Longrightarrow> retrieve_loop U len m b rc = Some (Inr (m, b, rc))"
  by (subst retrieve_loop.simps) auto

lemma retrieve_loop_links:
  "icb_links m b xs \<Longrightarrow> rc \<le> len \<Longrightarrow>
   \<exists>m' b' rc' ps xs'. retrieve_loop U len m b rc = Some (Inr (m', b', rc')) \<and>
     retrieved U len xs m b rc m' b' rc' ps xs'"
proof (induction xs arbitrary: m b rc)
  case Nil
  then show ?case
    using retrieve_loop_stop [of rc len b U m] retrieved_stop [OF Nil(1,2)] by (auto simp: icb_links_head)
next
  case (Cons x xs)
  show ?case
  proof (cases "rc < len")
    case False
    then have "rc = len" using Cons.prems(2) by simp
    then show ?thesis using retrieve_loop_stop [of rc len b U m] retrieved_stop [OF Cons.prems] by blast
  next
    case True
    obtain m1 b1 rc1 ps xs1 where st: "retrieve_step U len m b rc x = Inr (m1, b1, rc1)"
      "icb_links m1 b1 xs1" "consumed U {x} ps m m1"
      "unat rc1 = unat rc + min (unread m x) (unat len - unat rc)"
      "\<And>mem. icb_bytes mem m1 xs1 = drop (unat rc1 - unat rc) (icb_bytes mem m (x # xs))"
      "icb_total_len b1 = icb_total_len b"
      and alt: "ps = [x] \<and> xs1 = xs \<or> ps = [] \<and> xs1 = x # xs \<and> rc1 = len"
      using retrieve_step_links [OF Cons.prems(1) True, of U] by blast
    have "icb_head b = Some x" using Cons.prems(1) by (simp add: icb_links_head)
    note unf = retrieve_loop_unfold [OF True this st(1)]
    have rc1: "rc1 \<le> len" using st(4) True by (auto simp: word_le_nat_alt word_less_nat_alt)
    from alt show ?thesis
    proof
      assume a: "ps = [x] \<and> xs1 = xs"
      with st(2) Cons.IH [OF _ rc1, of m1 b1] obtain m2 b2 rc2 qs xs2 where
        ih: "retrieve_loop U len m1 b1 rc1 = Some (Inr (m2, b2, rc2))"
        "retrieved U len xs m1 b1 rc1 m2 b2 rc2 qs xs2" by blast
      have "retrieved U len (x # xs) m b rc m2 b2 rc2 (x # qs) xs2"
        using retrieved_Cons [OF Cons.prems(1) True _ st(4) _ st(6) ih(2)] st(3,5) a by simp
      with unf ih(1) show ?thesis by auto
    next
      assume a: "ps = [] \<and> xs1 = x # xs \<and> rc1 = len"
      have "retrieved U len (x # xs) m b rc m1 b1 rc1 [] (x # xs)"
        using st a True by (auto simp: retrieved_def consumed_def min_def word_less_nat_alt split: if_splits)
      with unf a retrieve_loop_stop show ?thesis by metis
    qed
  qed
qed

lemma remove_step_retrieve_step:
  assumes "chunk_at m h = Inr c"
    and "copy_to target (unat rc)
      (read_mem mem (beginRead c) (unat (min (readableBytes c) (len - rc)))) = Inr t1"
  shows "remove_step mem U len m b target rc h =
    andThen (retrieve_step U len m b rc h) (\<lambda>(m1, b1, n). Inr (m1, b1, t1, n))"
  using assms
  by (auto simp: remove_step_def retrieve_step_def Let_def andThen_def split: sum.splits prod.splits)

text \<open>The target buffer when the first \<open>rc'\<close> bytes of it are filled, the last of them from \<open>bs\<close>.\<close>

definition filled :: "byte list \<Rightarrow> size_t \<Rightarrow> size_t \<Rightarrow> byte list \<Rightarrow> byte list" where
  "filled bs rc rc' target =
     take (unat rc) target @ take (unat rc' - unat rc) bs @ drop (unat rc') target"

lemma filled_refl [simp]: "filled bs rc rc target = target"
  by (simp add: filled_def)

lemma filled_length:
  "rc \<le> rc' \<Longrightarrow> unat rc' - unat rc \<le> length bs \<Longrightarrow> unat rc' \<le> length target \<Longrightarrow>
   length (filled bs rc rc' target) = length target"
  by (simp add: filled_def word_le_nat_alt)

lemma filled_trans:
  assumes "rc \<le> rc1" and "rc1 \<le> rc2" and "unat rc1 - unat rc \<le> length bs" and "unat rc1 \<le> length target"
    and "cs = drop (unat rc1 - unat rc) bs"
  shows "filled cs rc1 rc2 (filled bs rc rc1 target) = filled bs rc rc2 target"
proof -
  have le: "unat rc \<le> unat rc1" "unat rc1 \<le> unat rc2" using assms(1,2) by (simp_all add: word_le_nat_alt)
  have "take (unat rc1 - unat rc) bs @ take (unat rc2 - unat rc1) (drop (unat rc1 - unat rc) bs) =
      take ((unat rc1 - unat rc) + (unat rc2 - unat rc1)) bs" by (simp only: take_add)
  then show ?thesis using le assms(3-5) by (simp add: filled_def)
qed

text \<open>A round of \<open>remove\<close> does what a round of \<open>retrieve\<close> does and fills the target.\<close>

lemma remove_step_links:
  assumes lk: "icb_links m b (x # xs)" and rc: "rc < len" and tgt: "unat len \<le> length target"
    and st: "retrieve_step U len m b rc x = Inr (m1, b1, rc1)"
      "unat rc1 = unat rc + min (unread m x) (unat len - unat rc)"
  shows "remove_step mem U len m b target rc x =
    Inr (m1, b1, filled (icb_bytes mem m (x # xs)) rc rc1 target, rc1)"
proof -
  let ?c = "cm_chunks_data m ! x"
  define off where "off = min (readableBytes ?c) (len - rc)"
  let ?bs = "read_mem mem (beginRead ?c) (unat off)"
  have n: "unat off = min (unread m x) (unat len - unat rc)" by (rule retrieve_amount [OF lk rc off_def])
  have "?bs = take (unat off) (icb_bytes mem m (x # xs))"
    using n by (simp add: chunk_bytes_def read_mem_take)
  moreover have "copy_to target (unat rc) ?bs = Inr (take (unat rc) target @ ?bs @ drop (unat rc1) target)"
    using n st(2) tgt rc by (simp add: copy_to_def word_less_nat_alt)
  ultimately have "copy_to target (unat rc) ?bs = Inr (filled (icb_bytes mem m (x # xs)) rc rc1 target)"
    using n st(2) by (simp add: filled_def)
  moreover have "chunk_at m x = Inr ?c" using lk by (simp add: chunk_at_def icb_links_def icb_shape_def)
  ultimately show ?thesis using remove_step_retrieve_step st(1) unfolding off_def by fastforce
qed

text \<open>
  The loop of \<open>remove\<close> does what the loop of \<open>retrieve\<close> does and leaves the bytes in the target
  buffer, behind those already read.
\<close>

lemma remove_loop_links:
  "icb_links m b xs \<Longrightarrow> rc \<le> len \<Longrightarrow> unat len \<le> length target \<Longrightarrow>
   \<exists>m' b' rc'. retrieve_loop U len m b rc = Some (Inr (m', b', rc')) \<and> rc \<le> rc' \<and> rc' \<le> len \<and>
     remove_loop mem U len m b target rc = Some (Inr (m', b', filled (icb_bytes mem m xs) rc rc' target, rc'))"
proof (induction xs arbitrary: m b rc target)
  case Nil
  then show ?case by (simp add: icb_links_head retrieve_loop_stop remove_loop.simps)
next
  case (Cons x xs)
  show ?case
  proof (cases "rc < len")
    case False
    then show ?thesis using Cons.prems by (simp add: retrieve_loop_stop remove_loop.simps)
  next
    case True
    obtain m1 b1 rc1 ps xs1 where st: "retrieve_step U len m b rc x = Inr (m1, b1, rc1)"
      "icb_links m1 b1 xs1" "unat rc1 = unat rc + min (unread m x) (unat len - unat rc)"
      "icb_bytes mem m1 xs1 = drop (unat rc1 - unat rc) (icb_bytes mem m (x # xs))"
      and alt: "ps = [x] \<and> xs1 = xs \<or> ps = [] \<and> xs1 = x # xs \<and> rc1 = len"
      using retrieve_step_links [OF Cons.prems(1) True, of U] by blast
    let ?t = "filled (icb_bytes mem m (x # xs)) rc rc1 target"
    have rc1: "rc1 \<le> len" "rc \<le> rc1" "unat rc1 - unat rc \<le> length (icb_bytes mem m (x # xs))"
      "unat rc1 \<le> length target"
      using st(3) True Cons.prems(3) by (auto simp: word_le_nat_alt word_less_nat_alt length_icb_bytes)
    have hd: "icb_head b = Some x" using Cons.prems(1) by (simp add: icb_links_head)
    note unf = retrieve_loop_unfold [OF True hd st(1)]
    have unf': "remove_loop mem U len m b target rc = remove_loop mem U len m1 b1 ?t rc1"
      using True hd remove_step_links [OF Cons.prems(1) True Cons.prems(3) st(1,3), of mem]
      by (subst remove_loop.simps) (simp del: icb_bytes_simps)
    have len1: "unat len \<le> length ?t" using filled_length [OF rc1(2-4)] Cons.prems(3) by simp
    have "\<exists>m' b' rc'. retrieve_loop U len m1 b1 rc1 = Some (Inr (m', b', rc')) \<and> rc1 \<le> rc' \<and> rc' \<le> len \<and>
        remove_loop mem U len m1 b1 ?t rc1 = Some (Inr (m', b', filled (icb_bytes mem m1 xs1) rc1 rc' ?t, rc'))"
      using alt
    proof
      assume "ps = [x] \<and> xs1 = xs"
      then show ?thesis using Cons.IH [OF _ rc1(1) len1] st(2) by (simp del: icb_bytes_simps)
    next
      assume "ps = [] \<and> xs1 = x # xs \<and> rc1 = len"
      then show ?thesis by (simp add: retrieve_loop_stop remove_loop.simps del: icb_bytes_simps)
    qed
    then show ?thesis
      using unf unf' filled_trans [OF rc1(2) _ rc1(3,4) st(4)] rc1(2)
      by (auto simp del: icb_bytes_simps)
  qed
qed

section \<open>Correctness of the operations\<close>

lemma consumed_loop:
  assumes rep: "icb_rep m b xs"
  shows "\<exists>m' b' rc ps xs'. retrieve_loop U len m b 0 = Some (Inr (m', b', rc)) \<and>
    icb_rep m' (b'\<lparr>icb_total_len := icb_total_len b' - rc\<rparr>) xs' \<and> xs = ps @ xs' \<and>
    consumed U (set xs) ps m m' \<and> unat rc = min (unat len) (unat (icb_total_len b)) \<and>
    (\<forall>mem. icb_bytes mem m' xs' = drop (unat rc) (icb_bytes mem m xs)) \<and>
    icb_total_len b' = icb_total_len b"
proof -
  have lk: "icb_links m b xs" and tot: "unat (icb_total_len b) = (\<Sum>i\<leftarrow>xs. unread m i)"
    using rep by (auto simp: icb_rep_def)
  obtain m' b' rc ps xs' where r: "retrieve_loop U len m b 0 = Some (Inr (m', b', rc))"
    "icb_links m' b' xs'" "xs = ps @ xs'" "consumed U (set xs) ps m m'"
    "unat rc = min (unat len) (unat (icb_total_len b))"
    "\<And>mem. icb_bytes mem m' xs' = drop (unat rc) (icb_bytes mem m xs)"
    "icb_total_len b' = icb_total_len b"
    using retrieve_loop_links [OF lk, of 0 len U] by (auto simp: tot retrieved_def)
  have "unat (icb_total_len b' - rc) = (\<Sum>i\<leftarrow>xs'. unread m' i)"
    using r(5,7) tot length_icb_bytes [of undefined m' xs'] length_icb_bytes [of undefined m xs]
      r(6) [of undefined] by (simp add: unat_simps)
  then have "icb_rep m' (b'\<lparr>icb_total_len := icb_total_len b' - rc\<rparr>) xs'"
    using r(2) by (simp add: icb_rep_def icb_links_def icb_shape_def)
  with r show ?thesis by blast
qed

text \<open>
  \<open>InputChainBuffer::retrieve\<close> returns on every well-formed buffer, for every \<open>len\<close>, and drops
  exactly the first \<open>len\<close> unread bytes; the chunks it used up are a prefix of the chain, are reset
  and go back to the ring in order.
\<close>

lemma icb_retrieve_ok:
  assumes "icb_rep m b xs"
  shows "\<exists>m' b' ps xs'. icb_retrieve U m b len = Some (Inr (m', b')) \<and> icb_rep m' b' xs' \<and>
    xs = ps @ xs' \<and> consumed U (set xs) ps m m' \<and>
    icb_bytes mem m' xs' = drop (unat len) (icb_bytes mem m xs)"
proof -
  obtain m' b' rc ps xs' where r: "retrieve_loop U len m b 0 = Some (Inr (m', b', rc))"
    "icb_rep m' (b'\<lparr>icb_total_len := icb_total_len b' - rc\<rparr>) xs'" "xs = ps @ xs'"
    "consumed U (set xs) ps m m'" "unat rc = min (unat len) (unat (icb_total_len b))"
    "icb_bytes mem m' xs' = drop (unat rc) (icb_bytes mem m xs)"
    using consumed_loop [OF assms, of U len] by blast
  have "length (icb_bytes mem m xs) = unat (icb_total_len b)"
    using assms by (simp add: icb_rep_def length_icb_bytes)
  then have "drop (unat rc) (icb_bytes mem m xs) = drop (unat len) (icb_bytes mem m xs)"
    using r(5) by (simp add: min_def)
  with r show ?thesis by (auto simp: icb_retrieve_def)
qed

lemma removeAsString_any:
  assumes rep: "icb_rep m b xs"
  shows "\<exists>m' b' ps xs'. removeAsString mem U m b n =
      Some (Inr (m', b', take (unat n) (icb_bytes mem m xs))) \<and>
    icb_rep m' b' xs' \<and> xs = ps @ xs' \<and> consumed U (set xs) ps m m' \<and>
    (\<forall>mem'. icb_bytes mem' m' xs' = drop (unat n) (icb_bytes mem' m xs))"
proof -
  let ?t = "replicate (unat n) (0 :: byte)"
  obtain m' b' rc ps xs' where r: "retrieve_loop U n m b 0 = Some (Inr (m', b', rc))"
    "icb_rep m' (b'\<lparr>icb_total_len := icb_total_len b' - rc\<rparr>) xs'" "xs = ps @ xs'"
    "consumed U (set xs) ps m m'" "unat rc = min (unat n) (unat (icb_total_len b))"
    "\<And>mem. icb_bytes mem m' xs' = drop (unat rc) (icb_bytes mem m xs)"
    using consumed_loop [OF rep, of U n] by blast
  have len: "length (icb_bytes mem m xs) = unat (icb_total_len b)" for mem
    using rep by (simp add: icb_rep_def length_icb_bytes)
  have "icb_links m b xs" using rep by (simp add: icb_rep_def)
  from remove_loop_links [OF this, of 0 n ?t U mem] r(1) have
    "remove_loop mem U n m b ?t 0 = Some (Inr (m', b',
       take (unat rc) (icb_bytes mem m xs) @ drop (unat rc) ?t, rc))" by (auto simp: filled_def)
  then have "removeAsString mem U m b n = Some (Inr (m',
      b'\<lparr>icb_total_len := icb_total_len b' - rc\<rparr>, take (unat rc) (icb_bytes mem m xs)))"
    using r(5) len [of mem] by (simp add: removeAsString_def icb_remove_def)
  moreover have "take (unat rc) (icb_bytes mem m xs) = take (unat n) (icb_bytes mem m xs)"
    "drop (unat rc) (icb_bytes mem' m xs) = drop (unat n) (icb_bytes mem' m xs)" for mem'
    using r(5) len [of mem] len [of mem'] by (auto simp: min_def)
  ultimately show ?thesis using r by auto
qed

lemma removeAsString_ok:
  assumes rep: "icb_rep m b xs"
  shows "\<exists>m' b' ps xs'. removeAsString mem U m b n =
      Some (Inr (m', b', take (unat n) (icb_bytes mem m xs))) \<and>
    icb_rep m' b' xs' \<and> xs = ps @ xs' \<and> consumed U (set xs) ps m m' \<and>
    icb_bytes mem m' xs' = drop (unat n) (icb_bytes mem m xs)"
  using removeAsString_any [OF rep, of mem U n] by blast

text \<open>
  C20 \<open>InputChainBuffer::removeAsString\<close> returns on every well-formed buffer the first \<open>size\<close> unread
  bytes (all of them when there are fewer), in order, and leaves exactly the rest; no byte is
  written outside the string it allocates.
\<close>

theorem removeAsString_correct:
  assumes rep: "icb_rep m b xs"
  shows "\<exists>m' b' ps xs'. removeAsString mem U m b n =
      Some (Inr (m', b', take (unat n) (icb_bytes mem m xs))) \<and>
    icb_rep m' b' xs' \<and> xs = ps @ xs' \<and> consumed U (set xs) ps m m' \<and>
    icb_bytes mem m' xs' = drop (unat n) (icb_bytes mem m xs)"
  using removeAsString_ok [OF assms] .

text \<open>A chunk that holds nothing and is linked nowhere: what the ring lends.\<close>

definition fresh :: "'b chunk_manager \<Rightarrow> nat \<Rightarrow> bool" where
  "fresh m i \<longleftrightarrow> ck_head (cm_chunks_data m ! i) = 0 \<and> ck_tail (cm_chunks_data m ! i) = 0 \<and>
     ck_next (cm_chunks_data m ! i) = None"

lemma icb_shape_push_back:
  assumes sh: "icb_shape m b xs" and i: "unat index < length (cm_chunks_data m)"
    and new: "unat index \<notin> set xs" "chunk_next m (unat index) = None"
  shows "\<exists>m' b'. icb_push_back m b index len = Inr (m', b') \<and>
    icb_shape m' b' (xs @ [unat index]) \<and> icb_total_len b' = icb_total_len b \<and>
    cm_ring m' = cm_ring m \<and> cm_chunk_size m' = cm_chunk_size m \<and> cm_pool m' = cm_pool m \<and>
    length (cm_chunks_data m') = length (cm_chunks_data m) \<and>
    (\<forall>j. j \<notin> set xs \<longrightarrow> cm_chunks_data m' ! j = cm_chunks_data m ! j) \<and>
    (\<forall>j. ck_head (cm_chunks_data m' ! j) = ck_head (cm_chunks_data m ! j) \<and>
       ck_tail (cm_chunks_data m' ! j) = ck_tail (cm_chunks_data m ! j) \<and>
       ck_data_ptr (cm_chunks_data m' ! j) = ck_data_ptr (cm_chunks_data m ! j))"
proof -
  let ?i = "unat index"
  from sh have wf: "manager_wf m" and dist: "distinct xs"
    and lnk: "linked (chunk_next m) (icb_head b) xs None"
    and sub: "set xs \<subseteq> {..<length (cm_chunks_data m)}" and num: "unat (icb_chunks b) = length xs"
    by (auto simp: icb_shape_def)
  have get: "getChunkById m index = Some ?i" using pool.find_id_ok [OF wf i] .
  have "length xs \<le> 65536"
    using distinct_bounded_length [OF dist sub] wf by (simp add: manager_wf_def)
  then have cnt: "unat (icb_chunks b + 1) = length (xs @ [?i])"
    using num by (subst unat_plus_small) auto
  show ?thesis
  proof (cases "xs = []")
    case True
    then have "icb_tail b = None" using sh by (simp add: icb_shape_def)
    then show ?thesis
      using True sh cnt new i get by (auto simp: icb_push_back_def icb_shape_def Let_def)
  next
    case False
    let ?t = "last xs"
    let ?m' = "set_chunk ?t ((cm_chunks_data m ! ?t)\<lparr>ck_next := Some ?i\<rparr>) m"
    have t: "icb_tail b = Some ?t" "?t < length (cm_chunks_data m)" "?t \<in> set xs"
      using False sh subsetD [OF sub last_in_set [OF False]] by (auto simp: icb_shape_def)
    have "chunk_next ?m' = (chunk_next m)(?t := Some ?i)"
      using t(2) by (auto simp: fun_eq_iff nth_list_update_if)
    then have "linked (chunk_next ?m') (icb_head b) (xs @ [?i]) None"
      using linked_extend [OF lnk False dist new] by simp
    moreover have "manager_wf ?m'" using wf t by (intro manager_wf_set_chunk) simp_all
    ultimately show ?thesis
      using False sh cnt new i get t
      by (auto simp: icb_push_back_def icb_shape_def Let_def chunk_at_def nth_list_update_if)
  qed
qed

text \<open>The last chunk of a chain, lent empty, holds \<open>len\<close> bytes.\<close>

lemma fill_last_chunk:
  assumes sh: "icb_shape m b (xs @ [i])" and tot: "unat (icb_total_len b) = (\<Sum>j\<leftarrow>xs. unread m j)"
    and cur: "\<And>j. j \<in> set xs \<Longrightarrow> ck_head (cm_chunks_data m ! j) < ck_tail (cm_chunks_data m ! j) \<and>
      ck_tail (cm_chunks_data m ! j) \<le> cm_chunk_size m"
    and emp: "ck_head (cm_chunks_data m ! i) = 0" "ck_tail (cm_chunks_data m ! i) = 0"
    and len: "0 < unat n" "n \<le> cm_chunk_size m"
    and m': "m' = set_chunk i ((cm_chunks_data m ! i)\<lparr>ck_tail := ck_tail (cm_chunks_data m ! i) + n\<rparr>) m"
    and b': "b' = b\<lparr>icb_total_len := icb_total_len b + n\<rparr>"
  shows "icb_rep m' b' (xs @ [i])"
    and "icb_bytes mem m' (xs @ [i]) =
      icb_bytes mem m xs @ read_mem mem (ck_data_ptr (cm_chunks_data m ! i)) (unat n)"
proof -
  from sh have i: "i < length (cm_chunks_data m)" "i \<notin> set xs" by (auto simp: icb_shape_def)
  have oth: "cm_chunks_data m' ! j = cm_chunks_data m ! j" if "j \<in> set xs" for j
    using that i(2) m' by (auto simp: nth_list_update_if)
  have ui: "unread m' i = unat n" using i(1) emp m' by (simp add: unread_def)
  have sum: "(\<Sum>j\<leftarrow>xs. unread m' j) = (\<Sum>j\<leftarrow>xs. unread m j)"
    using oth by (intro unread_sum_cong) simp
  have nx: "chunk_next m' = chunk_next m" by (auto simp: m' fun_eq_iff nth_list_update_if)
  have "manager_wf m'" unfolding m' using sh i(1) by (intro manager_wf_set_chunk) (simp_all add: icb_shape_def)
  then have "icb_shape m' b' (xs @ [i])" using sh unfolding icb_shape_def nx by (simp add: m' b')
  then have lk: "icb_links m' b' (xs @ [i])"
    using cur oth len i(1) emp by (auto simp: icb_links_def m' word_less_nat_alt)
  have "(\<Sum>j\<leftarrow>xs. unread m j) + unat n < 2 ^ 64" using unread_sum_bound(3) [OF lk] sum ui by simp
  then have "unat (icb_total_len b') = (\<Sum>j\<leftarrow>xs @ [i]. unread m' j)"
    using b' tot sum ui by (simp add: unat_simps)
  with lk show "icb_rep m' b' (xs @ [i])" by (simp add: icb_rep_def)
  have "icb_bytes mem m' xs = icb_bytes mem m xs" using oth by (intro icb_bytes_cong) simp
  moreover have "chunk_bytes mem m' i = read_mem mem (ck_data_ptr (cm_chunks_data m ! i)) (unat n)"
    using ui i(1) emp m' by (simp add: chunk_bytes_def beginRead_def)
  ultimately show "icb_bytes mem m' (xs @ [i]) =
      icb_bytes mem m xs @ read_mem mem (ck_data_ptr (cm_chunks_data m ! i)) (unat n)"
    by (simp add: icb_bytes_def)
qed

text \<open>
  \<open>InputChainBuffer::append\<close> of a received buffer: for a chunk the ring lent, filled by the kernel
  with \<open>len\<close> bytes, the buffer's content grows by exactly those bytes at its end, and no other
  chunk and no bytes received before are touched.
\<close>

lemma icb_append_ok:
  assumes rep: "icb_rep m b xs" and i: "unat index < length (cm_chunks_data m)"
    and new: "unat index \<notin> set xs" "fresh m (unat index)"
    and len: "0 < len" "nat len \<le> unat (cm_chunk_size m)"
  shows "\<exists>m' b'. icb_append m b index len = Inr (m', b') \<and> icb_rep m' b' (xs @ [unat index]) \<and>
    icb_bytes mem m' (xs @ [unat index]) = icb_bytes mem m xs @
      read_mem mem (ck_data_ptr (cm_chunks_data m ! unat index)) (nat len) \<and>
    cm_ring m' = cm_ring m \<and> cm_chunk_size m' = cm_chunk_size m \<and> cm_pool m' = cm_pool m \<and>
    length (cm_chunks_data m') = length (cm_chunks_data m) \<and>
    (\<forall>j. j \<notin> set xs \<longrightarrow> j \<noteq> unat index \<longrightarrow> cm_chunks_data m' ! j = cm_chunks_data m ! j)"
proof -
  let ?i = "unat index"
  have lk: "icb_links m b xs" and tot: "unat (icb_total_len b) = (\<Sum>i\<leftarrow>xs. unread m i)"
    using rep by (auto simp: icb_rep_def)
  obtain m1 b1 where p: "icb_push_back m b index len = Inr (m1, b1)"
    and sh1: "icb_shape m1 b1 (xs @ [?i])" and b1: "icb_total_len b1 = icb_total_len b"
    and fr: "cm_ring m1 = cm_ring m" "cm_chunk_size m1 = cm_chunk_size m" "cm_pool m1 = cm_pool m"
      "length (cm_chunks_data m1) = length (cm_chunks_data m)"
      "\<And>j. j \<notin> set xs \<Longrightarrow> cm_chunks_data m1 ! j = cm_chunks_data m ! j"
    and cur: "\<And>j. ck_head (cm_chunks_data m1 ! j) = ck_head (cm_chunks_data m ! j)"
      "\<And>j. ck_tail (cm_chunks_data m1 ! j) = ck_tail (cm_chunks_data m ! j)"
      "\<And>j. ck_data_ptr (cm_chunks_data m1 ! j) = ck_data_ptr (cm_chunks_data m ! j)"
    using icb_shape_push_back [OF _ i new(1), of b len] lk new(2)
    by (auto simp: icb_links_def fresh_def)
  define m2 where "m2 = set_chunk ?i ((cm_chunks_data m1 ! ?i)
    \<lparr>ck_tail := ck_tail (cm_chunks_data m1 ! ?i) + of_int len\<rparr>) m1"
  define b2 where "b2 = b1\<lparr>icb_total_len := icb_total_len b1 + of_int len\<rparr>"
  have "icb_tail b1 = Some ?i" using sh1 by (simp add: icb_shape_def)
  then have app: "icb_append m b index len = Inr (m2, b2)"
    using p i fr by (simp add: icb_append_def chunk_at_def m2_def b2_def)
  have n: "unat (of_int len :: size_t) = nat len"
    using len unat_bound64 [of "cm_chunk_size m"] by (intro unat_of_int_small) auto
  have un: "unread m1 = unread m" "chunk_bytes mem m1 = chunk_bytes mem m"
    by (auto simp: fun_eq_iff unread_def chunk_bytes_def beginRead_def cur)
  have "icb_rep m2 b2 (xs @ [?i]) \<and> icb_bytes mem m2 (xs @ [?i]) =
      icb_bytes mem m1 xs @ read_mem mem (ck_data_ptr (cm_chunks_data m1 ! ?i)) (nat len)"
    using fill_last_chunk [OF sh1 _ _ _ _ _ _ m2_def b2_def] lk new(2) len tot
    by (simp add: b1 un cur fr n icb_links_def fresh_def word_le_nat_alt)
  then show ?thesis
    using app fr by (intro exI [of _ m2] exI [of _ b2])
      (simp add: m2_def nth_list_update_if icb_bytes_def un cur)
qed

text \<open>
  A buffer id outside the pool: \<open>push_back\<close> stores the null pointer \<open>getChunkById\<close> returns and
  \<open>append\<close> then dereferences it, whatever the buffer holds.
\<close>

theorem icb_append_bad_index:
  assumes "icb_rep m b xs" and "length (cm_chunks_data m) \<le> unat index"
  shows "icb_append m b index len = Inl NullDeref"
proof -
  have "getChunkById m index = None" using assms(2) by (simp add: getChunkById_def)
  moreover have "icb_tail b = None \<or> (\<exists>t. icb_tail b = Some t \<and> t < length (cm_chunks_data m))"
    using assms(1) last_in_set [of xs]
    by (cases "xs = []") (auto simp: icb_rep_def icb_links_def icb_shape_def simp del: last_in_set)
  ultimately show ?thesis
    by (auto simp: icb_append_def icb_push_back_def Let_def chunk_at_def)
qed

lemma icb_destroy_shape:
  "icb_shape m b xs \<Longrightarrow> \<exists>m' b'. icb_destroy U m b = Inr (m', b') \<and> icb_shape m' b' [] \<and>
     consumed U (set xs) xs m m'"
proof (induction xs arbitrary: m b)
  case Nil
  then have "icb_chunks b = 0" "manager_wf m"
    by (simp_all add: icb_shape_def unat_eq_zero)
  with Nil show ?case by (subst icb_destroy.simps) (simp add: consumed_def)
next
  case (Cons x xs)
  then obtain m1 b1 where pop: "icb_pop_front U m b = Inr (m1, b1, True)" "icb_shape m1 b1 xs"
    "consumed U {x} [x] m m1" using icb_pop_front_shape by blast
  then obtain m2 b2 where fin: "icb_destroy U m1 b1 = Inr (m2, b2)" "icb_shape m2 b2 []"
    "consumed U (set xs) xs m1 m2" using Cons.IH by blast
  have "icb_chunks b \<noteq> 0" "manager_wf m" "x \<notin> set xs" "set xs \<subseteq> {..<length (cm_chunks_data m)}"
    using Cons.prems by (auto simp: icb_shape_def)
  moreover from this have "consumed U ({x} \<union> set xs) ([x] @ xs) m m2"
    by (intro consumed_trans [OF _ pop(3) fin(3)]) auto
  ultimately show ?case
    using pop fin by (subst icb_destroy.simps) simp
qed

text \<open>
  The destructor of \<open>InputChainBuffer\<close> gives every chunk of the chain back to the ring, first to
  last, and touches no chunk of another buffer.
\<close>

theorem icb_destroy_returns_all:
  assumes "icb_rep m b xs"
  shows "\<exists>m' b'. icb_destroy U m b = Inr (m', b') \<and> icb_head b' = None \<and>
    cm_ring m' = fold (refill U m) xs (cm_ring m) \<and>
    (\<forall>i. i \<notin> set xs \<longrightarrow> cm_chunks_data m' ! i = cm_chunks_data m ! i)"
  using icb_destroy_shape [of m b xs U] assms
  by (auto simp: icb_rep_def icb_links_def icb_shape_def consumed_def)

text \<open>
  \<open>InputChainBuffer::peek\<close> shows the unread bytes of the first chunk: a non-empty prefix of the
  content when there is any, a null pointer and length 0 otherwise.
\<close>

theorem icb_peek_correct:
  assumes rep: "icb_rep m b xs"
  shows "case xs of
      [] \<Rightarrow> icb_peek m b = Inr (None, 0)
    | x # ys \<Rightarrow> (\<exists>p n. icb_peek m b = Inr (Some p, n) \<and> 0 < n \<and>
        read_mem mem p (unat n) = take (unat n) (icb_bytes mem m xs))"
proof (cases xs)
  case Nil
  then show ?thesis
    using rep by (simp add: icb_peek_def icb_rep_def icb_links_def icb_shape_def)
next
  case (Cons x ys)
  let ?c = "cm_chunks_data m ! x"
  have lk: "icb_links m b (x # ys)" using rep Cons by (simp add: icb_rep_def)
  then have x: "x < length (cm_chunks_data m)" "icb_head b = Some x" "ck_head ?c < ck_tail ?c"
    by (auto simp: icb_links_def icb_shape_def)
  have n: "unat (readableBytes ?c) = unread m x" using x(3) by (simp add: readable_unat unread_def)
  moreover have "0 < readableBytes ?c"
    using unread_pos [OF lk, of x] n by (simp add: word_less_nat_alt)
  ultimately show ?thesis
    using x Cons by (simp add: icb_peek_def chunk_at_def chunk_bytes_def)
qed

end
