(* ===== verification/Byte_Stream.thy ===== *)
theory Byte_Stream
  imports Proactor_Prelude
begin

text \<open>
  The contract the two buffers of a connection share. A buffer takes blocks of bytes at one end
  and gives bytes up at the other; its content is a byte sequence. The laws say what one
  operation does to the content; the lemmas of the locale say what any sequence of operations
  does: what went in is what came out followed by what is still there.
\<close>

datatype 'd fifo_op = Put 'd | Consume size_t

locale byte_fifo =
  fixes inv :: "'s \<Rightarrow> bool"
    and bytes :: "'s \<Rightarrow> byte list"
    and admits :: "'d \<Rightarrow> 's \<Rightarrow> bool"
    and payload :: "'d \<Rightarrow> byte list"
    and put :: "'d \<Rightarrow> 's \<Rightarrow> 's outcome option"
    and consume :: "size_t \<Rightarrow> 's \<Rightarrow> 's outcome option"
  assumes put_ok: "inv s \<Longrightarrow> admits d s \<Longrightarrow>
      \<exists>s'. put d s = Some (Inr s') \<and> inv s' \<and> bytes s' = bytes s @ payload d"
    and consume_ok: "inv s \<Longrightarrow>
      \<exists>s'. consume n s = Some (Inr s') \<and> inv s' \<and> bytes s' = drop (unat n) (bytes s)"
begin

text \<open>
  \<open>run s ops s' ins outs\<close>: the operations \<open>ops\<close> lead from \<open>s\<close> to \<open>s'\<close>, all blocks were admitted,
  \<open>ins\<close> is what was put in and \<open>outs\<close> what was consumed.
\<close>

inductive run :: "'s \<Rightarrow> 'd fifo_op list \<Rightarrow> 's \<Rightarrow> byte list \<Rightarrow> byte list \<Rightarrow> bool" where
  stop: "run s [] s [] []"
| put: "admits d s \<Longrightarrow> put d s = Some (Inr s1) \<Longrightarrow> run s1 ops s' ins outs \<Longrightarrow>
    run s (Put d # ops) s' (payload d @ ins) outs"
| consume: "consume n s = Some (Inr s1) \<Longrightarrow> run s1 ops s' ins outs \<Longrightarrow>
    run s (Consume n # ops) s' ins (take (unat n) (bytes s) @ outs)"

lemma run_conserves: "run s ops s' ins outs \<Longrightarrow> inv s \<Longrightarrow> inv s' \<and> bytes s @ ins = outs @ bytes s'"
proof (induction rule: run.induct)
  case (stop s)
  then show ?case by simp
next
  case (put d s s1 ops s' ins outs)
  from put_ok [OF put.prems put.hyps(1)] put.hyps(2)
  have "inv s1" "bytes s1 = bytes s @ payload d" by auto
  with put.IH show ?case by simp
next
  case (consume n s s1 ops s' ins outs)
  from consume_ok [OF consume.prems, of n] consume.hyps(1)
  have s1: "inv s1" "bytes s1 = drop (unat n) (bytes s)" by auto
  with consume.IH have "drop (unat n) (bytes s) @ ins = outs @ bytes s'" "inv s'" by auto
  moreover have "bytes s @ ins = take (unat n) (bytes s) @ drop (unat n) (bytes s) @ ins" by simp
  ultimately show ?case by simp
qed

text \<open>Consuming never blocks: from every good state any number of requests runs through.\<close>

lemma run_consume_all: "inv s \<Longrightarrow> \<exists>s' outs. run s (map Consume ns) s' [] outs"
proof (induction ns arbitrary: s)
  case Nil
  then show ?case by (auto intro: stop)
next
  case (Cons n ns)
  then obtain s1 where "consume n s = Some (Inr s1)" "inv s1" using consume_ok by blast
  with Cons.IH show ?case by (fastforce intro: consume)
qed

end

end
