(* ===== verification/Input_Chain_Stream.thy ===== *)
theory Input_Chain_Stream
  imports Input_Chain_Buffer Byte_Stream
begin

text \<open>
  The input buffer of a connection as a byte stream: the kernel fills a chunk of the ring and
  reports it in a completion, \<open>append\<close> links the chunk into the buffer, and the reader takes the
  bytes out again. The memory of the pool is part of the state here, because the kernel writes it.
\<close>

type_synonym 'b icb_state = "memory \<times> 'b chunk_manager \<times> icb"

definition icb_inv :: "'b icb_state \<Rightarrow> bool" where
  "icb_inv s = (case s of (mem, m, b) \<Rightarrow> \<exists>xs. icb_rep m b xs)"

definition icb_chain :: "'b chunk_manager \<Rightarrow> icb \<Rightarrow> nat list" where
  "icb_chain m b = walk (chunk_next m) (length (cm_chunks_data m)) (icb_head b)"

definition icb_content :: "'b icb_state \<Rightarrow> byte list" where
  "icb_content s = (case s of (mem, m, b) \<Rightarrow> icb_bytes mem m (icb_chain m b))"

text \<open>The kernel writes the block \<open>bs\<close> into the chunk \<open>index\<close> and its completion is appended.\<close>

definition icb_receive :: "u16 \<times> byte list \<Rightarrow> 'b icb_state \<Rightarrow> 'b icb_state outcome option" where
  "icb_receive d s =
     (case (d, s) of ((index, bs), (mem, m, b)) \<Rightarrow>
        Some (andThen (chunk_at m (unat index)) (\<lambda>c.
          andThen (icb_append m b index (int (length bs))) (\<lambda>(m', b').
            Inr (write_mem mem (ck_data_ptr c) bs, m', b')))))"

definition icb_admits :: "u16 \<times> byte list \<Rightarrow> 'b icb_state \<Rightarrow> bool" where
  "icb_admits d s =
     (case (d, s) of ((index, bs), (mem, m, b)) \<Rightarrow>
        unat index < length (cm_chunks_data m) \<and> unat index \<notin> set (icb_chain m b) \<and>
        fresh m (unat index) \<and> bs \<noteq> [] \<and> length bs \<le> unat (cm_chunk_size m))"

definition icb_consume :: "'b buf_ring_api \<Rightarrow> size_t \<Rightarrow> 'b icb_state \<Rightarrow> 'b icb_state outcome option" where
  "icb_consume U n s =
     (case s of (mem, m, b) \<Rightarrow>
        map_option (\<lambda>r. andThen r (\<lambda>(m', b'). Inr (mem, m', b'))) (icb_retrieve U m b n))"

lemma icb_chain_rep: "icb_rep m b xs \<Longrightarrow> icb_chain m b = xs"
  unfolding icb_chain_def icb_rep_def
  by (auto intro!: linked_walk simp: icb_links_def icb_shape_def
      intro: distinct_bounded_length)

text \<open>Writing one chunk leaves the unread bytes of every other chunk alone.\<close>

lemma chunk_bytes_write_other:
  assumes lk: "icb_links m b xs" and j: "j \<in> set xs" and i: "i < length (cm_chunks_data m)"
    and "i \<noteq> j" and len: "length bs \<le> unat (cm_chunk_size m)"
  shows "chunk_bytes (write_mem mem (ck_data_ptr (cm_chunks_data m ! i)) bs) m j =
    chunk_bytes mem m j"
  unfolding chunk_bytes_def
proof (rule read_write_mem_other, rule ccontr)
  let ?p = "ck_data_ptr (cm_chunks_data m ! i)" and ?c = "cm_chunks_data m ! j"
  fix k assume k: "k < unread m j"
    and "\<not> length bs \<le> unat (beginRead ?c + of_nat k - ?p)"
  then have d: "unat (beginRead ?c + of_nat k - ?p) < unat (cm_chunk_size m)" using len by simp
  have cur: "j < length (cm_chunks_data m)" "ck_tail ?c \<le> cm_chunk_size m"
    using lk j by (auto simp: icb_links_def icb_shape_def)
  have lt: "unat (ck_head ?c) + k < unat (ck_tail ?c)" using k by (simp add: unread_def)
  then have "unat (of_nat k :: size_t) = k"
    using unat_bound64 [of "ck_tail ?c"] by (intro unat_of_nat_small) simp
  then have "unat (ck_head ?c + of_nat k) = unat (ck_head ?c) + k"
    using lt unat_bound64 [of "ck_tail ?c"] by (simp add: unat_plus_small)
  then have "ck_head ?c + of_nat k < cm_chunk_size m"
    using lt cur(2) by (simp add: word_less_nat_alt word_le_nat_alt)
  then have "ck_data_ptr ?c + (ck_head ?c + of_nat k) \<noteq>
      ?p + (beginRead ?c + of_nat k - ?p)"
    using d cur(1) i \<open>i \<noteq> j\<close>
    by (intro chunk_addresses_distinct [OF icb_links_wf [OF lk]]) (auto simp: word_less_nat_alt)
  then show False by (simp add: beginRead_def add.assoc)
qed

lemma icb_receive_ok:
  assumes "icb_inv s" and "icb_admits d s"
  shows "\<exists>s'. icb_receive d s = Some (Inr s') \<and> icb_inv s' \<and>
    icb_content s' = icb_content s @ snd d"
proof -
  obtain mem m b index bs where s: "s = (mem, m, b)" "d = (index, bs)"
    by (metis prod.exhaust)
  let ?i = "unat index" and ?p = "ck_data_ptr (cm_chunks_data m ! unat index)"
  let ?mem = "write_mem mem ?p bs"
  from assms(1) s obtain xs where rep: "icb_rep m b xs" by (auto simp: icb_inv_def)
  then have ch: "icb_chain m b = xs" by (rule icb_chain_rep)
  have adm: "?i < length (cm_chunks_data m)" "?i \<notin> set xs" "fresh m ?i" "bs \<noteq> []"
    "length bs \<le> unat (cm_chunk_size m)"
    using assms(2) ch by (auto simp: icb_admits_def s)
  obtain m' b' where app: "icb_append m b index (int (length bs)) = Inr (m', b')"
    "icb_rep m' b' (xs @ [?i])"
    "icb_bytes ?mem m' (xs @ [?i]) = icb_bytes ?mem m xs @ read_mem ?mem ?p (length bs)"
    using icb_append_ok [OF rep adm(1-3), of "int (length bs)" ?mem] adm(4,5) by auto
  have "length bs \<le> 2 ^ 64" using adm(5) unat_bound64 [of "cm_chunk_size m"] by simp
  then have "read_mem ?mem ?p (length bs) = bs" by (rule read_write_mem)
  moreover have "icb_bytes ?mem m xs = icb_bytes mem m xs"
    using rep adm by (auto simp: icb_bytes_def icb_rep_def
        intro!: arg_cong [of _ _ concat] chunk_bytes_write_other)
  ultimately have "icb_content (?mem, m', b') = icb_content s @ bs"
    using app(2,3) ch by (simp add: icb_content_def s icb_chain_rep)
  moreover have "icb_receive d s = Some (Inr (?mem, m', b'))"
    using app(1) adm(1) by (simp add: icb_receive_def s chunk_at_def)
  ultimately show ?thesis using app(2) s by (auto simp: icb_inv_def)
qed

lemma icb_consume_ok:
  assumes "icb_inv s"
  shows "\<exists>s'. icb_consume U n s = Some (Inr s') \<and> icb_inv s' \<and>
    icb_content s' = drop (unat n) (icb_content s)"
proof -
  obtain mem m b where s: "s = (mem, m, b)" by (cases s)
  from assms s obtain xs where rep: "icb_rep m b xs" by (auto simp: icb_inv_def)
  from icb_retrieve_ok [OF rep, of U n mem] obtain m' b' xs' where
    "icb_retrieve U m b n = Some (Inr (m', b'))" "icb_rep m' b' xs'"
    "icb_bytes mem m' xs' = drop (unat n) (icb_bytes mem m xs)" by blast
  with rep show ?thesis
    by (auto simp: s icb_consume_def icb_inv_def icb_content_def icb_chain_rep)
qed

interpretation input: byte_fifo icb_inv icb_content icb_admits snd icb_receive "icb_consume U"
  for U :: "'b buf_ring_api"
  by unfold_locales (use icb_receive_ok icb_consume_ok in auto)

text \<open>
  C16 The receive path never loses, repeats or reorders bytes: for every sequence of received
  chunks and \<open>retrieve\<close> calls on a well-formed input buffer, what was there followed by what
  arrived is what was consumed followed by what is left.
\<close>

theorem input_stream_conserved:
  assumes "icb_inv s" and "input.run U s ops s' ins outs"
  shows "icb_inv s' \<and> icb_content s @ ins = outs @ icb_content s'"
  using input.run_conserves [OF assms(2,1)] .

section \<open>Concrete buffers\<close>

text \<open>The four-chunk manager after a completion of five bytes in chunk 0, and its buffer.\<close>

type_synonym list_ring_state = "(int \<Rightarrow> buf option) \<times> buf list"

definition demo_append :: "list_ring_state chunk_manager \<times> icb" where
  "demo_append =
     (case icb_append demo_manager InputChainBuffer 0 5 of Inr r \<Rightarrow> r)"

lemma demo_append_ok:
  "icb_rep (fst demo_append) (snd demo_append) [0]"
  "length (cm_chunks_data (fst demo_append)) = 4"
proof -
  have "icb_rep demo_manager InputChainBuffer []" using demo_manager_wf by (rule icb_rep_empty)
  moreover have "fresh demo_manager 0" by (simp add: fresh_def demo_manager_fields Chunk_def)
  ultimately obtain m b where
    "icb_append demo_manager InputChainBuffer 0 5 = Inr (m, b)" "icb_rep m b [0]"
    "length (cm_chunks_data m) = 4"
    using icb_append_ok [of demo_manager InputChainBuffer "[]" 0 5 "\<lambda>_. 0"]
    by (auto simp: demo_manager_fields)
  then show "icb_rep (fst demo_append) (snd demo_append) [0]"
    "length (cm_chunks_data (fst demo_append)) = 4"
    by (simp_all add: demo_append_def)
qed

theorem removeAsString_correct_witness:
  "\<exists>m' b'. removeAsString (\<lambda>a. ucast a) list_ring (fst demo_append) (snd demo_append) 3 =
     Some (Inr (m', b', take 3 (icb_bytes (\<lambda>a. ucast a) (fst demo_append) [0])))"
  using removeAsString_correct [OF demo_append_ok(1), of "\<lambda>a. ucast a" list_ring 3] by auto

theorem icb_append_bad_index_witness:
  "icb_append (fst demo_append) (snd demo_append) 9 7 = Inl NullDeref"
  by (rule icb_append_bad_index [OF demo_append_ok(1)]) (simp add: demo_append_ok)

theorem icb_destroy_returns_all_witness:
  "\<exists>m' b'. icb_destroy list_ring (fst demo_append) (snd demo_append) = Inr (m', b') \<and>
     cm_ring m' = refill list_ring (fst demo_append) 0 (cm_ring (fst demo_append))"
  using icb_destroy_returns_all [OF demo_append_ok(1), of list_ring] by auto

theorem icb_peek_correct_witness:
  "\<exists>p n. icb_peek (fst demo_append) (snd demo_append) = Inr (Some p, n) \<and> 0 < n"
  using icb_peek_correct [OF demo_append_ok(1), of "\<lambda>_. 0"] by auto

theorem input_stream_conserved_witness:
  "\<exists>s' outs. icb_content ((\<lambda>_. 7), demo_append) @ [] = outs @ icb_content s' \<and>
     input.run list_ring ((\<lambda>_. 7), demo_append) [Consume 2] s' [] outs"
proof -
  let ?s = "((\<lambda>_. 7) :: memory, demo_append)"
  have inv: "icb_inv ?s"
    using demo_append_ok(1) by (auto simp: icb_inv_def case_prod_beta)
  obtain s' outs where "input.run list_ring ?s (map Consume [2]) s' [] outs"
    using input.run_consume_all [OF inv] by blast
  with input_stream_conserved [OF inv this] show ?thesis
    by (intro exI [of _ s'] exI [of _ outs]) simp
qed

end
