(* ===== verification/Chunk_Ownership.thy ===== *)
theory Chunk_Ownership
  imports Input_Chain_Stream "HOL-Library.Multiset"
begin

text \<open>
  Who owns a chunk. One manager serves all connections of a loop; a chunk is published in the
  ring, taken by the kernel for a receive, or linked into the input buffer of one connection.
  The step relation interleaves the kernel, the completions and the readers in any order; the
  invariant says that the chunks are always partitioned among the three.
\<close>

record 'b own_state =
  os_mgr :: "'b chunk_manager"
  os_bufs :: "icb list"
  os_inflight :: "nat list"

inductive own_step ::
    "'b buf_ring_api \<Rightarrow> ('b \<Rightarrow> buf list) \<Rightarrow> 'b own_state \<Rightarrow> 'b own_state \<Rightarrow> bool"
  for U avail where
  kernel_take: "avail (cm_ring (os_mgr s)) = (a, l, i) # rest \<Longrightarrow> avail r = rest \<Longrightarrow>
    own_step U avail s (s\<lparr>os_mgr := (os_mgr s)\<lparr>cm_ring := r\<rparr>,
      os_inflight := os_inflight s @ [unat i]\<rparr>)"
| deliver: "i \<in> set (os_inflight s) \<Longrightarrow> j < length (os_bufs s) \<Longrightarrow>
    0 < len \<Longrightarrow> nat len \<le> unat (cm_chunk_size (os_mgr s)) \<Longrightarrow>
    icb_append (os_mgr s) (os_bufs s ! j) (of_nat i) len = Inr (m, b) \<Longrightarrow>
    own_step U avail s (s\<lparr>os_mgr := m, os_bufs := (os_bufs s)[j := b],
      os_inflight := remove1 i (os_inflight s)\<rparr>)"
| reader: "j < length (os_bufs s) \<Longrightarrow>
    icb_retrieve U (os_mgr s) (os_bufs s ! j) n = Some (Inr (m, b)) \<Longrightarrow>
    own_step U avail s (s\<lparr>os_mgr := m, os_bufs := (os_bufs s)[j := b]\<rparr>)"
| connect: "own_step U avail s (s\<lparr>os_bufs := os_bufs s @ [InputChainBuffer]\<rparr>)"
| disconnect: "os_bufs s = bs @ b # cs \<Longrightarrow> icb_destroy U (os_mgr s) b = Inr (m, b') \<Longrightarrow>
    own_step U avail s (s\<lparr>os_mgr := m, os_bufs := bs @ cs\<rparr>)"

text \<open>
  \<open>owns avail s rs xss\<close>: the ring holds the chunks \<open>rs\<close>, the \<open>j\<close>-th buffer the chain \<open>xss ! j\<close>,
  and together with the chunks in flight these are all chunks, each once.
\<close>

definition owns :: "('b \<Rightarrow> buf list) \<Rightarrow> 'b own_state \<Rightarrow> nat list \<Rightarrow> nat list list \<Rightarrow> bool" where
  "owns avail s rs xss \<longleftrightarrow>
     manager_wf (os_mgr s) \<and>
     avail (cm_ring (os_mgr s)) = map (chunk_buf (os_mgr s)) rs \<and>
     list_all2 (icb_rep (os_mgr s)) (os_bufs s) xss \<and>
     mset rs + mset (os_inflight s) + mset (concat xss) =
       mset [0..<length (cm_chunks_data (os_mgr s))] \<and>
     (\<forall>i\<in>set rs \<union> set (os_inflight s). fresh (os_mgr s) i)"

lemma owns_set:
  assumes "owns avail s rs xss"
  shows "set rs \<union> set (os_inflight s) \<union> set (concat xss) = {..<length (cm_chunks_data (os_mgr s))}"
    and "distinct (rs @ os_inflight s @ concat xss)"
    and "length rs + length (os_inflight s) + length (concat xss) =
      length (cm_chunks_data (os_mgr s))"
proof -
  let ?n = "length (cm_chunks_data (os_mgr s))"
  have eq: "mset (rs @ os_inflight s @ concat xss) = mset [0..<?n]"
    using assms by (simp add: owns_def ac_simps)
  from mset_eq_setD [OF eq] show "set rs \<union> set (os_inflight s) \<union> set (concat xss) = {..<?n}"
    by (auto simp: atLeast0LessThan simp del: set_concat)
  show "distinct (rs @ os_inflight s @ concat xss)"
    using eq by (metis distinct_upt mset_eq_imp_distinct_iff)
  show "length rs + length (os_inflight s) + length (concat xss) = ?n"
    using mset_eq_length [OF eq] by (simp add: add.assoc)
qed

lemma icb_rep_frame:
  assumes "icb_rep m b ys" and "manager_wf m'" and "cm_chunk_size m' = cm_chunk_size m"
    and "length (cm_chunks_data m') = length (cm_chunks_data m)"
    and "\<And>i. i \<in> set ys \<Longrightarrow> cm_chunks_data m' ! i = cm_chunks_data m ! i"
  shows "icb_rep m' b ys"
  using assms linked_cong [of ys "chunk_next m'" "chunk_next m"] unread_sum_cong [of ys m' m]
  by (auto simp: icb_rep_def icb_links_def icb_shape_def)

text \<open>Refilling consumed chunks publishes them behind those already in the ring.\<close>

lemma refill_avail:
  assumes laws: "buf_ring_laws U avail slot (length (cm_chunks_data m))" and wf: "manager_wf m"
  shows "length (avail r) + length ps \<le> length (cm_chunks_data m) \<Longrightarrow>
    avail (fold (refill U m) ps r) = avail r @ map (chunk_buf m) ps"
proof (induction ps arbitrary: r)
  case (Cons p ps)
  let ?n = "length (cm_chunks_data m)"
  have msk: "cm_mask m = int ?n - 1" using wf by (simp add: manager_wf_def)
  have "0 < ?n" "length (avail r) < ?n" using Cons.prems by auto
  then have "avail (refill U m p r) = avail r @ [chunk_buf m p]"
    using ring_refill [OF laws, of r "fst (chunk_buf m p)" "fst (snd (chunk_buf m p))"
        "snd (snd (chunk_buf m p))"]
    by (simp add: refill_def msk)
  with Cons show ?case by simp
qed simp

text \<open>The buffers of other connections, whose chunks an operation on the chunks \<open>S\<close> leaves alone.\<close>

lemma icb_reps_frame:
  assumes reps: "list_all2 (icb_rep m) bs zss" and dj: "\<And>zs k. zs \<in> set zss \<Longrightarrow> k \<in> set zs \<Longrightarrow> k \<notin> S"
    and m': "manager_wf m'" "cm_chunk_size m' = cm_chunk_size m"
      "length (cm_chunks_data m') = length (cm_chunks_data m)"
    and same: "\<And>k. k \<notin> S \<Longrightarrow> cm_chunks_data m' ! k = cm_chunks_data m ! k"
  shows "list_all2 (icb_rep m') bs zss"
proof (intro list_all2_all_nthI)
  fix k assume "k < length bs"
  then have z: "zss ! k \<in> set zss" and rep: "icb_rep m (bs ! k) (zss ! k)"
    using reps by (auto simp: list_all2_conv_all_nth)
  show "icb_rep m' (bs ! k) (zss ! k)"
    by (rule icb_rep_frame [OF rep m' same]) (rule dj [OF z])
qed (use reps in \<open>simp add: list_all2_lengthD\<close>)

text \<open>
  Replacing the chain of one buffer by what is left of it after its first chunks \<open>ps\<close> went back
  to the ring keeps the partition.
\<close>

lemma owns_consumed:
  assumes laws: "buf_ring_laws U avail slot (length (cm_chunks_data (os_mgr s)))"
    and own: "owns avail s rs (xss @ xs # yss)" and xs: "xs = ps @ xs'"
    and bufs: "os_bufs s = bs @ b # cs" "length bs = length xss"
    and con: "consumed U (set xs) ps (os_mgr s) m"
  shows "list_all2 (icb_rep m) bs xss" and "list_all2 (icb_rep m) cs yss"
    and "avail (cm_ring m) = map (chunk_buf m) (rs @ ps)"
    and "mset (rs @ ps) + mset (os_inflight s) + mset (concat (xss @ xs' # yss)) =
      mset [0..<length (cm_chunks_data m)]"
    and "\<forall>i\<in>set (rs @ ps) \<union> set (os_inflight s). fresh m i"
proof -
  let ?m = "os_mgr s"
  have wf: "manager_wf ?m" "manager_wf m" and len: "length (cm_chunks_data m) = length (cm_chunks_data ?m)"
    and cs: "cm_chunk_size m = cm_chunk_size ?m" "cm_pool m = cm_pool ?m"
    and frame: "\<And>i. i \<notin> set xs \<Longrightarrow> cm_chunks_data m ! i = cm_chunks_data ?m ! i"
    using own con by (auto simp: owns_def consumed_def)
  note dist = owns_set(2) [OF own] and cnt = owns_set(3) [OF own] and all = owns_set(1) [OF own]
  have rep: "list_all2 (icb_rep ?m) (bs @ b # cs) (xss @ xs # yss)"
    using own bufs by (simp add: owns_def)
  have "list_all2 (icb_rep ?m) bs xss" "list_all2 (icb_rep ?m) cs yss"
    using rep bufs(2) by (auto simp: list_all2_append)
  then show "list_all2 (icb_rep m) bs xss" "list_all2 (icb_rep m) cs yss"
    using dist by (auto intro!: icb_reps_frame [where S = "set xs", OF _ _ wf(2) cs(1) len] simp: frame)
  have buf: "chunk_buf m i = chunk_buf ?m i" if "i < length (cm_chunks_data ?m)" for i
    using manager_wf_idx(1) [OF wf cs(2,1) len that] .
  have "avail (cm_ring m) = map (chunk_buf ?m) rs @ map (chunk_buf ?m) ps"
    using con own refill_avail [OF laws wf(1), of "cm_ring ?m" ps] cnt xs
    by (simp add: consumed_def owns_def)
  also have "\<dots> = map (chunk_buf m) (rs @ ps)"
  proof -
    have "\<forall>i\<in>set (rs @ ps). i < length (cm_chunks_data ?m)" using all xs by auto
    then show ?thesis using buf by (simp add: ball_Un)
  qed
  finally show "avail (cm_ring m) = map (chunk_buf m) (rs @ ps)" .
  show "mset (rs @ ps) + mset (os_inflight s) + mset (concat (xss @ xs' # yss)) =
      mset [0..<length (cm_chunks_data m)]"
    using own xs len by (simp add: owns_def ac_simps)
  have "fresh m i" if "i \<in> set rs \<union> set (os_inflight s)" for i
  proof -
    have "i \<notin> set xs" using that dist by auto
    then show ?thesis using own that frame [of i] by (auto simp: owns_def fresh_def)
  qed
  moreover have "fresh m i" if "i \<in> set ps" for i
    using con that by (simp add: consumed_def fresh_def)
  ultimately show "\<forall>i\<in>set (rs @ ps) \<union> set (os_inflight s). fresh m i" by auto
qed

definition own_inv :: "('b \<Rightarrow> buf list) \<Rightarrow> nat \<Rightarrow> 'b own_state \<Rightarrow> bool" where
  "own_inv avail n s \<longleftrightarrow>
     length (cm_chunks_data (os_mgr s)) = n \<and> (\<exists>rs xss. owns avail s rs xss)"

lemma own_kernel_take:
  assumes own: "owns avail s rs xss" and hd: "avail (cm_ring (os_mgr s)) = (a, l, i) # rest"
    and r: "avail r = rest"
  shows "\<exists>rs'. owns avail (s\<lparr>os_mgr := (os_mgr s)\<lparr>cm_ring := r\<rparr>,
    os_inflight := os_inflight s @ [unat i]\<rparr>) rs' xss"
proof -
  let ?m = "os_mgr s" and ?m' = "(os_mgr s)\<lparr>cm_ring := r\<rparr>"
  from own hd obtain k rs' where rs: "rs = k # rs'" and k: "chunk_buf ?m k = (a, l, i)"
    and tl: "rest = map (chunk_buf ?m) rs'"
    by (auto simp: owns_def map_eq_Cons_conv)
  have "k < length (cm_chunks_data ?m)" using owns_set(1) [OF own] rs by auto
  then have "i = of_nat k" "k < 65536"
    using own k by (auto simp: owns_def manager_wf_def chunk_buf_def)
  then have ik: "unat i = k" by (simp add: unat_of_nat)
  have wf: "manager_wf ?m'" using own by (auto simp: owns_def manager_wf_def)
  have same: "chunk_buf ?m' = chunk_buf ?m" "fresh ?m' = fresh ?m"
    by (auto simp: fun_eq_iff chunk_buf_def fresh_def)
  have "icb_rep ?m' b ys" if "icb_rep ?m b ys" for b ys
    using icb_rep_frame [OF that wf] by simp
  then have "list_all2 (icb_rep ?m') (os_bufs s) xss"
    using own by (auto simp: owns_def elim: list_all2_mono)
  then show ?thesis
    using own rs r tl ik wf by (intro exI [of _ rs']) (auto simp: owns_def same)
qed

lemma list_all2_split:
  assumes "list_all2 P as zss" and "j < length as"
  obtains bs cs xss xs yss where "as = bs @ as ! j # cs" and "zss = xss @ xs # yss"
    and "length bs = length xss" and "length bs = j" and "P (as ! j) xs"
proof (rule that)
  have l: "length as = length zss" using assms(1) by (rule list_all2_lengthD)
  show "as = take j as @ as ! j # drop (Suc j) as" using assms(2) by (rule id_take_nth_drop)
  show "zss = take j zss @ zss ! j # drop (Suc j) zss"
    using assms(2) l by (intro id_take_nth_drop) simp
  show "P (as ! j) (zss ! j)" using assms by (simp add: list_all2_nthD)
qed (use assms list_all2_lengthD [OF assms(1)] in auto)

lemma own_reader:
  assumes laws: "buf_ring_laws U avail slot (length (cm_chunks_data (os_mgr s)))"
    and own: "owns avail s rs xss" and j: "j < length (os_bufs s)"
    and ret: "icb_retrieve U (os_mgr s) (os_bufs s ! j) n = Some (Inr (m, b))"
  shows "\<exists>rs' xss'. owns avail (s\<lparr>os_mgr := m, os_bufs := (os_bufs s)[j := b]\<rparr>) rs' xss' \<and>
    length (cm_chunks_data m) = length (cm_chunks_data (os_mgr s))"
proof -
  have "list_all2 (icb_rep (os_mgr s)) (os_bufs s) xss" using own by (simp add: owns_def)
  then obtain bs cs ass xs yss where sp: "os_bufs s = bs @ os_bufs s ! j # cs"
    "xss = ass @ xs # yss" "length bs = length ass" "length bs = j"
    "icb_rep (os_mgr s) (os_bufs s ! j) xs" using list_all2_split [OF _ j] by blast
  obtain ps xs' where c: "icb_rep m b xs'" "xs = ps @ xs'" "consumed U (set xs) ps (os_mgr s) m"
  proof -
    obtain m1 b1 ps xs' where "icb_retrieve U (os_mgr s) (os_bufs s ! j) n = Some (Inr (m1, b1))"
      "icb_rep m1 b1 xs'" "xs = ps @ xs'" "consumed U (set xs) ps (os_mgr s) m1"
      using icb_retrieve_ok [OF sp(5), of U n] by blast
    with ret show ?thesis by (intro that [of xs' ps]) auto
  qed
  note own' = owns_consumed [OF laws own [unfolded sp(2)] c(2) sp(1) sp(3) c(3)]
  have "(os_bufs s)[j := b] = bs @ b # cs"
    using sp(1,4) by (metis list_update_length)
  then have "owns avail (s\<lparr>os_mgr := m, os_bufs := (os_bufs s)[j := b]\<rparr>) (rs @ ps)
      (ass @ xs' # yss)"
    using own' c(1,3) by (simp add: owns_def consumed_def list_all2_appendI)
  then show ?thesis using c(3) by (auto simp: consumed_def)
qed

lemma own_disconnect:
  assumes laws: "buf_ring_laws U avail slot (length (cm_chunks_data (os_mgr s)))"
    and own: "owns avail s rs xss" and bufs: "os_bufs s = bs @ b # cs"
    and ret: "icb_destroy U (os_mgr s) b = Inr (m, b')"
  shows "\<exists>rs' xss'. owns avail (s\<lparr>os_mgr := m, os_bufs := bs @ cs\<rparr>) rs' xss' \<and>
    length (cm_chunks_data m) = length (cm_chunks_data (os_mgr s))"
proof -
  have "list_all2 (icb_rep (os_mgr s)) (bs @ b # cs) xss" using own bufs by (simp add: owns_def)
  then obtain ass xs yss where sp: "xss = ass @ xs # yss" "length bs = length ass"
    "icb_rep (os_mgr s) b xs"
    by (auto simp: list_all2_append1 list_all2_Cons1)
  have con: "consumed U (set xs) xs (os_mgr s) m"
    using icb_destroy_shape [of "os_mgr s" b xs U] sp(3) ret
    by (auto simp: icb_rep_def icb_links_def)
  note own' = owns_consumed [OF laws own [unfolded sp(1)] _ bufs sp(2) con, of "[]"]
  have "owns avail (s\<lparr>os_mgr := m, os_bufs := bs @ cs\<rparr>) (rs @ xs) (ass @ yss)"
    using own' con by (simp add: owns_def consumed_def list_all2_appendI)
  then show ?thesis using con by (auto simp: consumed_def)
qed

lemma own_deliver:
  assumes own: "owns avail s rs xss" and i: "i \<in> set (os_inflight s)"
    and j: "j < length (os_bufs s)"
    and len: "0 < len" "nat len \<le> unat (cm_chunk_size (os_mgr s))"
  shows "\<exists>m b xss'. icb_append (os_mgr s) (os_bufs s ! j) (of_nat i) len = Inr (m, b) \<and>
    owns avail (s\<lparr>os_mgr := m, os_bufs := (os_bufs s)[j := b],
      os_inflight := remove1 i (os_inflight s)\<rparr>) rs xss' \<and>
    length (cm_chunks_data m) = length (cm_chunks_data (os_mgr s))"
proof -
  let ?m = "os_mgr s"
  have wf: "manager_wf ?m" and fr: "fresh ?m i" using own i by (auto simp: owns_def)
  have "list_all2 (icb_rep ?m) (os_bufs s) xss" using own by (simp add: owns_def)
  then obtain bs cs ass xs yss where sp: "os_bufs s = bs @ os_bufs s ! j # cs"
    "xss = ass @ xs # yss" "length bs = length ass" "length bs = j"
    "icb_rep ?m (os_bufs s ! j) xs" using list_all2_split [OF _ j] by blast
  note dist = owns_set(2) [OF own] and all = owns_set(1) [OF own]
  have ilt: "i < length (cm_chunks_data ?m)" using all i by auto
  then have ui: "unat (of_nat i :: u16) = i"
    using wf by (simp add: manager_wf_def unat_of_nat)
  have new: "i \<notin> set xs" using dist i sp(2) by auto
  obtain m b where app: "icb_append ?m (os_bufs s ! j) (of_nat i) len = Inr (m, b)"
    "icb_rep m b (xs @ [i])" "cm_ring m = cm_ring ?m" "cm_chunk_size m = cm_chunk_size ?m"
    "cm_pool m = cm_pool ?m" "length (cm_chunks_data m) = length (cm_chunks_data ?m)"
    "\<And>k. k \<notin> set xs \<Longrightarrow> k \<noteq> i \<Longrightarrow> cm_chunks_data m ! k = cm_chunks_data ?m ! k"
    using icb_append_ok [OF sp(5), of "of_nat i" len undefined] ui ilt new fr len by auto
  have wf': "manager_wf m" using app(2) by (auto simp: icb_rep_def dest: icb_links_wf)
  have "list_all2 (icb_rep ?m) (bs @ os_bufs s ! j # cs) (ass @ xs # yss)"
    using own sp(1,2) by (simp add: owns_def)
  then have "list_all2 (icb_rep ?m) bs ass" "list_all2 (icb_rep ?m) cs yss"
    using sp(3) by (auto simp: list_all2_append)
  then have "list_all2 (icb_rep m) bs ass" "list_all2 (icb_rep m) cs yss"
    using dist sp(2) i app(7)
    by (auto intro!: icb_reps_frame [where S = "insert i (set xs)", OF _ _ wf' app(4,6)])
  then have reps: "list_all2 (icb_rep m) ((os_bufs s)[j := b]) (ass @ (xs @ [i]) # yss)"
    using sp(1,4) app(2) by (metis list_all2_Cons list_all2_appendI list_update_length)
  have bufs: "map (chunk_buf m) rs = map (chunk_buf ?m) rs"
    using manager_wf_idx(1) [OF wf wf' app(5,4,6)] all by auto
  have fresh': "fresh m k" if "k \<in> set rs \<union> set (remove1 i (os_inflight s))" for k
  proof -
    have "k \<noteq> i" "k \<notin> set xs" "k \<in> set rs \<union> set (os_inflight s)"
      using that dist i sp(2) by (auto dest: notin_set_remove1)
    then show ?thesis using app(7) [of k] own by (auto simp: owns_def fresh_def)
  qed
  have "mset (os_inflight s) = add_mset i (mset (remove1 i (os_inflight s)))" using i by simp
  then have "mset rs + mset (remove1 i (os_inflight s)) + mset (concat (ass @ (xs @ [i]) # yss)) =
      mset [0..<length (cm_chunks_data m)]"
    using own sp(2) app(6) by (simp add: owns_def ac_simps del: mset_remove1)
  then have "owns avail (s\<lparr>os_mgr := m, os_bufs := (os_bufs s)[j := b],
      os_inflight := remove1 i (os_inflight s)\<rparr>) rs (ass @ (xs @ [i]) # yss)"
    using own wf' app(3,6) bufs reps fresh' sp(2) by (simp add: owns_def)
  with app show ?thesis by blast
qed

lemma own_step_inv:
  assumes step: "own_step U avail s t" and laws: "buf_ring_laws U avail slot n"
    and inv: "own_inv avail n s"
  shows "own_inv avail n t"
proof -
  from inv obtain rs xss where own: "owns avail s rs xss"
    and n: "length (cm_chunks_data (os_mgr s)) = n" by (auto simp: own_inv_def)
  note laws' = laws [folded n]
  from step show ?thesis
  proof cases
    case (kernel_take a l i rest r)
    then show ?thesis using own_kernel_take [OF own kernel_take(2,3)] n by (auto simp: own_inv_def)
  next
    case (deliver i j len m b)
    then show ?thesis using own_deliver [OF own deliver(2-5)] n by (auto simp: own_inv_def)
  next
    case (reader j k m b)
    then show ?thesis using own_reader [OF laws' own reader(2,3)] n by (auto simp: own_inv_def)
  next
    case connect
    have "icb_rep (os_mgr s) InputChainBuffer []" using own icb_rep_empty by (auto simp: owns_def)
    then have "owns avail t rs (xss @ [[]])"
      using own connect by (simp add: owns_def list_all2_appendI)
    then show ?thesis using connect n by (auto simp: own_inv_def)
  next
    case (disconnect bs b cs m b')
    then show ?thesis using own_disconnect [OF laws' own disconnect(2,3)] n
      by (auto simp: own_inv_def)
  qed
qed

inductive own_reachable ::
    "'b buf_ring_api \<Rightarrow> ('b \<Rightarrow> buf list) \<Rightarrow> 'b chunk_manager \<Rightarrow> 'b own_state \<Rightarrow> bool"
  for U avail m0 where
  start: "own_reachable U avail m0 \<lparr>os_mgr = m0, os_bufs = [], os_inflight = []\<rparr>"
| step: "own_reachable U avail m0 s \<Longrightarrow> own_step U avail s t \<Longrightarrow> own_reachable U avail m0 t"

lemma own_start:
  assumes "manager_wf m0" and "avail (cm_ring m0) = map (chunk_buf m0) [0..<length (cm_chunks_data m0)]"
    and "\<forall>i < length (cm_chunks_data m0). fresh m0 i"
  shows "own_inv avail (length (cm_chunks_data m0)) \<lparr>os_mgr = m0, os_bufs = [], os_inflight = []\<rparr>"
  using assms unfolding own_inv_def owns_def
  by (intro conjI exI [of _ "[0..<length (cm_chunks_data m0)]"] exI [of _ "[]"]) auto

lemma own_reachable_inv:
  assumes "own_reachable U avail m0 s" and "buf_ring_laws U avail slot (length (cm_chunks_data m0))"
    and "manager_wf m0" and "avail (cm_ring m0) = map (chunk_buf m0) [0..<length (cm_chunks_data m0)]"
    and "\<forall>i < length (cm_chunks_data m0). fresh m0 i"
  shows "own_inv avail (length (cm_chunks_data m0)) s"
  using assms(1)
proof induction
  case start
  show ?case using own_start assms(3-5) .
next
  case (step s t)
  then show ?case using own_step_inv assms(2) by blast
qed

text \<open>
  No chunk is ever lost, lent twice or read by two connections: in every state the kernel, the
  completions and the readers of all connections of a loop can reach from a fresh manager, the
  chunks in the ring, in flight and in the input buffers are pairwise different and together
  are all chunks of the pool.
\<close>

theorem chunks_partitioned:
  assumes reach: "own_reachable U avail m0 s"
    and ring: "buf_ring_laws U avail slot (length (cm_chunks_data m0))"
    and m0: "manager_wf m0" "avail (cm_ring m0) = map (chunk_buf m0) [0..<length (cm_chunks_data m0)]"
      "\<forall>i < length (cm_chunks_data m0). fresh m0 i"
  shows "\<exists>rs xss. avail (cm_ring (os_mgr s)) = map (chunk_buf (os_mgr s)) rs \<and>
    list_all2 (icb_rep (os_mgr s)) (os_bufs s) xss \<and>
    distinct (rs @ os_inflight s @ concat xss) \<and>
    set (rs @ os_inflight s @ concat xss) = {..<length (cm_chunks_data m0)}"
proof -
  from own_reachable_inv [OF assms] obtain rs xss where "owns avail s rs xss"
    and n: "length (cm_chunks_data (os_mgr s)) = length (cm_chunks_data m0)"
    by (auto simp: own_inv_def)
  then show ?thesis
    using owns_set [of avail s rs xss]
    by (intro exI [of _ rs] exI [of _ xss]) (auto simp: owns_def)
qed

text \<open>
  A completion can always be stored: in every reachable state, appending a chunk the kernel has
  filled with between 1 and \<open>CHUNK_SIZE\<close> bytes to any connection's input buffer succeeds.
\<close>

theorem delivery_never_faults:
  assumes reach: "own_reachable U avail m0 s"
    and ring: "buf_ring_laws U avail slot (length (cm_chunks_data m0))"
    and m0: "manager_wf m0" "avail (cm_ring m0) = map (chunk_buf m0) [0..<length (cm_chunks_data m0)]"
      "\<forall>i < length (cm_chunks_data m0). fresh m0 i"
    and ev: "i \<in> set (os_inflight s)" "j < length (os_bufs s)"
      "0 < len" "nat len \<le> unat (cm_chunk_size (os_mgr s))"
  shows "\<exists>m b. icb_append (os_mgr s) (os_bufs s ! j) (of_nat i) len = Inr (m, b)"
proof -
  from own_reachable_inv [OF reach ring m0] obtain rs xss where "owns avail s rs xss"
    by (auto simp: own_inv_def)
  from own_deliver [OF this ev] show ?thesis by blast
qed

section \<open>A reachable state\<close>

text \<open>One connection, one chunk taken by the kernel, on the four-chunk manager.\<close>

definition demo_own :: "((int \<Rightarrow> buf option) \<times> buf list) own_state" where
  "demo_own =
     \<lparr>os_mgr = demo_manager\<lparr>cm_ring := (\<lambda>_. None, map (chunk_buf demo_manager) [1..<4])\<rparr>,
      os_bufs = [InputChainBuffer], os_inflight = [0]\<rparr>"

lemma demo_manager_start:
  "manager_wf demo_manager"
  "snd (cm_ring demo_manager) =
     map (chunk_buf demo_manager) [0..<length (cm_chunks_data demo_manager)]"
  "\<forall>i < length (cm_chunks_data demo_manager). fresh demo_manager i"
  "buf_ring_laws list_ring snd fst (length (cm_chunks_data demo_manager))"
proof -
  show "manager_wf demo_manager" by (rule demo_manager_wf)
  show "buf_ring_laws list_ring snd fst (length (cm_chunks_data demo_manager))"
    by (simp add: list_ring_laws demo_manager_length)
  show "\<forall>i < length (cm_chunks_data demo_manager). fresh demo_manager i"
    by (simp add: fresh_def Chunk_def demo_manager_fields)
  show "snd (cm_ring demo_manager) =
     map (chunk_buf demo_manager) [0..<length (cm_chunks_data demo_manager)]"
    by (simp add: demo_manager_def ChunkPoolManagerInput_def ChunkPool_def demo_mmap_def
        Let_def generateBid_def list_ring_def fill_ring_def chunk_buf_def Chunk_def upt_rec)
qed

lemma demo_own_reachable: "own_reachable list_ring snd demo_manager demo_own"
proof -
  let ?s0 = "\<lparr>os_mgr = demo_manager, os_bufs = [], os_inflight = []\<rparr>"
  let ?s1 = "?s0\<lparr>os_bufs := os_bufs ?s0 @ [InputChainBuffer]\<rparr>"
  have "own_reachable list_ring snd demo_manager ?s1"
    by (rule own_reachable.step [OF own_reachable.start own_step.connect])
  moreover obtain a l where c: "chunk_buf demo_manager 0 = (a, l, 0)"
    using demo_manager_wf demo_manager_length by (auto simp: chunk_buf_def manager_wf_def)
  have "snd (cm_ring (os_mgr ?s1)) = (a, l, 0) # map (chunk_buf demo_manager) [1..<4]"
    using demo_manager_start(2) c by (simp add: demo_manager_length upt_conv_Cons)
  from own_step.kernel_take [of snd ?s1, OF this,
      of "(\<lambda>_. None, map (chunk_buf demo_manager) [1..<4])" list_ring]
  have "own_step list_ring snd ?s1 demo_own" by (simp add: demo_own_def)
  ultimately show ?thesis by (rule own_reachable.step)
qed

theorem chunks_partitioned_witness:
  "\<exists>rs xss. snd (cm_ring (os_mgr demo_own)) = map (chunk_buf (os_mgr demo_own)) rs \<and>
    list_all2 (icb_rep (os_mgr demo_own)) (os_bufs demo_own) xss \<and>
    distinct (rs @ os_inflight demo_own @ concat xss) \<and>
    set (rs @ os_inflight demo_own @ concat xss) = {..<length (cm_chunks_data demo_manager)}"
  by (rule chunks_partitioned [OF demo_own_reachable demo_manager_start(4,1,2,3)])

theorem delivery_never_faults_witness:
  "\<exists>m b. icb_append (os_mgr demo_own) InputChainBuffer (of_nat 0) 5 = Inr (m, b)"
proof -
  have "0 \<in> set (os_inflight demo_own)" "0 < length (os_bufs demo_own)"
    "nat 5 \<le> unat (cm_chunk_size (os_mgr demo_own))"
    by (simp_all add: demo_own_def demo_manager_fields)
  from delivery_never_faults [OF demo_own_reachable demo_manager_start(4,1,2,3) this(1,2) _ this(3)]
  show ?thesis by (simp add: demo_own_def)
qed

end
