(* ===== verification/Send_Queue.thy ===== *)
theory Send_Queue
  imports Byte_Stream
begin

text \<open>
  \<open>SendQueue\<close> and \<open>TxFragment\<close> (include/SendQueue.hpp): the bytes a connection still has to send, as
  a linked list of heap-allocated fragments that own their data. The fragments live in a heap
  of their own: \<open>new\<close> takes the next unused address, \<open>delete\<close> removes the entry, and an access
  through a null or dangling pointer is a fault. The bytes \<open>ptr_\<close> points to are the ones
  \<open>guard_\<close> keeps alive, so the pair is one block of bytes.
\<close>

record tx_fragment =
  tx_guard :: "byte list option"
  tx_len :: size_t
  tx_written :: size_t
  tx_next :: "nat option"

definition TxFragment :: tx_fragment where
  "TxFragment = \<lparr>tx_guard = None, tx_len = 0, tx_written = 0, tx_next = None\<rparr>"

definition remainData :: "tx_fragment \<Rightarrow> size_t" where
  "remainData f = tx_len f - tx_written f"

text \<open>An \<open>iovec\<close>: its base is an offset into a block of bytes.\<close>

record iovec =
  iov_block :: "byte list option"
  iov_off :: size_t
  iov_len :: size_t

definition null_iovec :: iovec where
  "null_iovec = \<lparr>iov_block = None, iov_off = 0, iov_len = 0\<rparr>"

record send_queue =
  sq_heap :: "nat \<rightharpoonup> tx_fragment"
  sq_unused :: nat
  sq_head :: "nat option"
  sq_tail :: "nat option"
  sq_curr :: "nat option"
  sq_slice_size :: size_t
  sq_total_len :: size_t

definition SendQueue :: send_queue where
  "SendQueue =
     \<lparr>sq_heap = Map.empty, sq_unused = 0, sq_head = None, sq_tail = None, sq_curr = None,
      sq_slice_size = 0, sq_total_len = 0\<rparr>"

definition frag_at :: "send_queue \<Rightarrow> nat \<Rightarrow> tx_fragment outcome" where
  "frag_at q a = (case sq_heap q a of None \<Rightarrow> Inl NullDeref | Some f \<Rightarrow> Inr f)"

definition set_frag :: "nat \<Rightarrow> tx_fragment \<Rightarrow> send_queue \<Rightarrow> send_queue" where
  "set_frag a f q = q\<lparr>sq_heap := (sq_heap q)(a \<mapsto> f)\<rparr>"

definition sq_push_back :: "send_queue \<Rightarrow> send_queue outcome" where
  "sq_push_back q =
     (let fragment = sq_unused q;
          q0 = (set_frag fragment TxFragment q)\<lparr>sq_unused := sq_unused q + 1\<rparr>
      in andThen
           (case sq_tail q0 of
              None \<Rightarrow> Inr (q0\<lparr>sq_head := Some fragment, sq_curr := Some fragment,
                               sq_tail := Some fragment\<rparr>)
            | Some t \<Rightarrow> andThen (frag_at q0 t) (\<lambda>f.
                Inr ((set_frag t (f\<lparr>tx_next := Some fragment\<rparr>) q0)\<lparr>sq_tail := Some fragment\<rparr>)))
           (\<lambda>q1.
              let q2 = (if sq_curr q1 = None then q1\<lparr>sq_curr := sq_tail q1\<rparr> else q1)
              in Inr (q2\<lparr>sq_slice_size := sq_slice_size q2 + 1\<rparr>)))"

definition sq_pop_front :: "send_queue \<Rightarrow> send_queue outcome" where
  "sq_pop_front q =
     (case sq_head q of
        None \<Rightarrow> Inr q
      | Some del \<Rightarrow> andThen (frag_at q del) (\<lambda>f.
          let q1 = q\<lparr>sq_head := tx_next f\<rparr>;
              q2 = (if sq_head q1 = None then q1\<lparr>sq_curr := None, sq_tail := None\<rparr> else q1)
          in Inr (q2\<lparr>sq_heap := (sq_heap q2)(del := None),
                     sq_slice_size := sq_slice_size q2 - 1\<rparr>)))"

text \<open>\<open>append\<close> of an owned buffer, and of a raw block that is copied first.\<close>

definition sq_append :: "byte list \<Rightarrow> send_queue \<Rightarrow> send_queue outcome" where
  "sq_append data q =
     andThen (sq_push_back q) (\<lambda>q1.
       case sq_tail q1 of
         None \<Rightarrow> Inl NullDeref
       | Some t \<Rightarrow> andThen (frag_at q1 t) (\<lambda>f.
           Inr ((set_frag t (f\<lparr>tx_guard := Some data, tx_len := of_nat (length data)\<rparr>) q1)
                 \<lparr>sq_total_len := sq_total_len q1 + of_nat (length data)\<rparr>)))"

definition sq_append_raw :: "memory \<Rightarrow> addr \<Rightarrow> size_t \<Rightarrow> send_queue \<Rightarrow> send_queue outcome" where
  "sq_append_raw mem data len q =
     andThen (sq_push_back q) (\<lambda>q1.
       case sq_tail q1 of
         None \<Rightarrow> Inl NullDeref
       | Some t \<Rightarrow> andThen (frag_at q1 t) (\<lambda>f.
           let holder = read_mem mem data (unat len) in
           Inr ((set_frag t (f\<lparr>tx_guard := Some holder, tx_len := of_nat (length holder)\<rparr>) q1)
                 \<lparr>sq_total_len := sq_total_len q1 + len\<rparr>)))"

definition getOneIovec :: "send_queue \<Rightarrow> (iovec \<times> send_queue) outcome" where
  "getOneIovec q =
     (case sq_curr q of
        None \<Rightarrow> Inr (null_iovec, q)
      | Some c \<Rightarrow> andThen (frag_at q c) (\<lambda>f.
          Inr (\<lparr>iov_block = tx_guard f, iov_off = tx_written f, iov_len = remainData f\<rparr>,
               q\<lparr>sq_curr := tx_next f\<rparr>)))"

text \<open>
  The loop of \<open>getBatchFragment\<close>: \<open>left\<close> counts the rounds still allowed, \<open>max_count - i\<close>.
\<close>

fun batch_loop :: "nat \<Rightarrow> iovec list \<Rightarrow> nat \<Rightarrow> send_queue \<Rightarrow> (iovec list \<times> nat \<times> send_queue) outcome"
where
  "batch_loop 0 iovecs i q = Inr (iovecs, i, q)"
| "batch_loop (Suc left) iovecs i q =
     (if sq_curr q = None then Inr (iovecs, i, q)
      else andThen (getOneIovec q) (\<lambda>(v, q1). batch_loop left (iovecs @ [v]) (i + 1) q1))"

definition getBatchFragment ::
    "iovec list \<Rightarrow> size_t \<Rightarrow> send_queue \<Rightarrow> (iovec list \<times> send_queue) outcome" where
  "getBatchFragment iovecs max_count q =
     andThen (batch_loop (unat max_count) iovecs 0 q) (\<lambda>(vs, i, q1). Inr (take i vs, q1))"

definition sq_retrieve_step ::
    "size_t \<Rightarrow> send_queue \<Rightarrow> size_t \<Rightarrow> nat \<Rightarrow> (send_queue \<times> size_t) outcome" where
  "sq_retrieve_step len q written h =
     andThen (frag_at q h) (\<lambda>f.
       let offset = min (remainData f) (len - written);
           f1 = f\<lparr>tx_written := tx_written f + offset\<rparr>;
           q1 = set_frag h f1 q
       in if tx_written f1 = tx_len f1
          then andThen (sq_pop_front q1) (\<lambda>q2. Inr (q2, written + offset))
          else Inr (q1, written + offset))"

partial_function (option) sq_retrieve_loop ::
    "size_t \<Rightarrow> send_queue \<Rightarrow> size_t \<Rightarrow> (send_queue \<times> size_t) outcome option" where
  "sq_retrieve_loop len q written =
     (if written < len then
        (case sq_head q of
           None \<Rightarrow> Some (Inr (q, written))
         | Some h \<Rightarrow>
             (case sq_retrieve_step len q written h of
                Inl e \<Rightarrow> Some (Inl e)
              | Inr (q1, n) \<Rightarrow> sq_retrieve_loop len q1 n))
      else Some (Inr (q, written)))"

definition sq_retrieve :: "size_t \<Rightarrow> send_queue \<Rightarrow> send_queue outcome option" where
  "sq_retrieve len q =
     map_option (\<lambda>r. andThen r (\<lambda>(q1, written).
         Inr (q1\<lparr>sq_curr := sq_head q1, sq_total_len := sq_total_len q1 - written\<rparr>)))
       (sq_retrieve_loop len q 0)"

definition sq_isEmpty :: "send_queue \<Rightarrow> bool" where
  "sq_isEmpty q \<longleftrightarrow> sq_total_len q = 0"

text \<open>The destructor: \<open>pop_front\<close> while there is a head.\<close>

partial_function (option) sq_destroy :: "send_queue \<Rightarrow> send_queue outcome option" where
  "sq_destroy q =
     (if sq_head q \<noteq> None then
        (case sq_pop_front q of Inl e \<Rightarrow> Some (Inl e) | Inr q1 \<Rightarrow> sq_destroy q1)
      else Some (Inr q))"

section \<open>Representation\<close>

abbreviation frag :: "send_queue \<Rightarrow> nat \<Rightarrow> tx_fragment" where
  "frag q a \<equiv> the (sq_heap q a)"

definition frag_wf :: "tx_fragment \<Rightarrow> bool" where
  "frag_wf f \<longleftrightarrow>
     (\<exists>data. tx_guard f = Some data \<and> unat (tx_len f) = length data) \<and> tx_written f \<le> tx_len f"

definition frag_bytes :: "tx_fragment \<Rightarrow> byte list" where
  "frag_bytes f = drop (unat (tx_written f)) (the (tx_guard f))"

definition sq_bytes_of :: "send_queue \<Rightarrow> nat list \<Rightarrow> byte list" where
  "sq_bytes_of q xs = concat (map (\<lambda>a. frag_bytes (frag q a)) xs)"

text \<open>
  \<open>sq_links q xs\<close>: the queue is the list of the fragments \<open>xs\<close>, which are all the fragments its
  heap holds. \<open>sq_rep q xs k\<close>: moreover \<open>curr_\<close> is the \<open>k\<close>-th fragment (null behind the last),
  and \<open>total_len_\<close> counts the bytes not yet acknowledged.
\<close>

definition sq_links :: "send_queue \<Rightarrow> nat list \<Rightarrow> bool" where
  "sq_links q xs \<longleftrightarrow>
     linked (\<lambda>a. tx_next (frag q a)) (sq_head q) xs None \<and> distinct xs \<and>
     dom (sq_heap q) = set xs \<and> (\<forall>a\<in>set xs. a < sq_unused q \<and> frag_wf (frag q a)) \<and>
     sq_tail q = (if xs = [] then None else Some (last xs)) \<and>
     sq_slice_size q = of_nat (length xs)"

definition cursor :: "nat list \<Rightarrow> nat \<Rightarrow> nat option" where
  "cursor xs k = (if k < length xs then Some (xs ! k) else None)"

definition sq_rep :: "send_queue \<Rightarrow> nat list \<Rightarrow> nat \<Rightarrow> bool" where
  "sq_rep q xs k \<longleftrightarrow>
     sq_links q xs \<and> k \<le> length xs \<and> sq_curr q = cursor xs k \<and>
     unat (sq_total_len q) = length (sq_bytes_of q xs)"

lemma set_frag_simps [simp]:
  "sq_heap (set_frag a f q) = (sq_heap q)(a \<mapsto> f)"
  "sq_unused (set_frag a f q) = sq_unused q" "sq_head (set_frag a f q) = sq_head q"
  "sq_tail (set_frag a f q) = sq_tail q" "sq_curr (set_frag a f q) = sq_curr q"
  "sq_slice_size (set_frag a f q) = sq_slice_size q"
  "sq_total_len (set_frag a f q) = sq_total_len q"
  by (simp_all add: set_frag_def)

lemma sq_bytes_of_simps [simp]:
  "sq_bytes_of q [] = []"
  "sq_bytes_of q (x # xs) = frag_bytes (frag q x) @ sq_bytes_of q xs"
  "sq_bytes_of q (xs @ ys) = sq_bytes_of q xs @ sq_bytes_of q ys"
  by (simp_all add: sq_bytes_of_def)

lemma sq_bytes_of_cong:
  "(\<And>a. a \<in> set xs \<Longrightarrow> sq_heap q a = sq_heap q' a) \<Longrightarrow> sq_bytes_of q xs = sq_bytes_of q' xs"
  by (auto simp: sq_bytes_of_def intro!: arg_cong [of _ _ concat])

lemma sq_rep_new: "sq_rep SendQueue [] 0"
  by (simp add: sq_rep_def sq_links_def SendQueue_def cursor_def)

lemma sq_links_heap: "sq_links q xs \<Longrightarrow> a \<in> set xs \<Longrightarrow> sq_heap q a = Some (frag q a)"
  unfolding sq_links_def by (metis domD option.sel)

lemma sq_links_frag_at: "sq_links q xs \<Longrightarrow> a \<in> set xs \<Longrightarrow> frag_at q a = Inr (frag q a)"
  by (auto simp: frag_at_def dest: sq_links_heap split: option.split)

lemma sq_links_head: "sq_links q xs \<Longrightarrow> sq_head q = (case xs of [] \<Rightarrow> None | x # _ \<Rightarrow> Some x)"
  by (cases xs) (auto simp: sq_links_def)

lemma remain_frag: "frag_wf f \<Longrightarrow> unat (remainData f) = length (frag_bytes f)"
  by (auto simp: frag_wf_def remainData_def frag_bytes_def unat_simps word_le_nat_alt)

lemma sq_links_fresh: "sq_links q xs \<Longrightarrow> sq_unused q \<notin> set xs"
  by (auto simp: sq_links_def)

lemma cursor_snoc:
  "k \<le> length xs \<Longrightarrow>
   cursor (xs @ [a]) k = (if cursor xs k = None then Some a else cursor xs k)"
  by (auto simp: cursor_def nth_append)

section \<open>Appending\<close>

lemma sq_push_back_links:
  assumes lk: "sq_links q xs" and k: "k \<le> length xs" "sq_curr q = cursor xs k"
  shows "\<exists>q'. sq_push_back q = Inr q' \<and> sq_tail q' = Some (sq_unused q) \<and>
    sq_heap q' (sq_unused q) = Some TxFragment \<and>
    linked (\<lambda>a. tx_next (frag q' a)) (sq_head q') (xs @ [sq_unused q]) None \<and>
    dom (sq_heap q') = insert (sq_unused q) (set xs) \<and>
    (\<forall>a\<in>set xs. \<exists>n. frag q' a = (frag q a)\<lparr>tx_next := n\<rparr>) \<and>
    sq_unused q' = sq_unused q + 1 \<and> sq_slice_size q' = of_nat (length xs + 1) \<and>
    sq_curr q' = cursor (xs @ [sq_unused q]) k \<and> sq_total_len q' = sq_total_len q"
proof (cases "xs = []")
  case True
  then have "sq_tail q = None" "dom (sq_heap q) = {}" using lk by (auto simp: sq_links_def)
  then show ?thesis
    using True lk k
    by (auto simp: sq_push_back_def Let_def TxFragment_def sq_links_def cursor_def)
next
  case False
  let ?new = "sq_unused q" and ?t = "last xs"
  let ?nx = "(\<lambda>a. tx_next (frag q a))(?new := None)"
  have t: "sq_tail q = Some ?t" "?t \<in> set xs" using lk False by (auto simp: sq_links_def)
  have nw: "?new \<notin> set xs" using lk by (rule sq_links_fresh)
  then have tn: "?t \<noteq> ?new" using t(2) by auto
  have ft: "sq_heap q ?t = Some (frag q ?t)" using sq_links_heap [OF lk t(2)] .
  have "linked ?nx (sq_head q) xs None"
    using lk nw by (subst linked_cong [where nx' = "\<lambda>a. tx_next (frag q a)"])
      (auto simp: sq_links_def)
  then have ln: "linked (?nx(?t := Some ?new)) (sq_head q) (xs @ [?new]) None"
    using False nw lk by (intro linked_extend) (auto simp: sq_links_def)
  let ?q1 = "(set_frag ?t ((frag q ?t)\<lparr>tx_next := Some ?new\<rparr>)
      ((set_frag ?new TxFragment q)\<lparr>sq_unused := ?new + 1\<rparr>))\<lparr>sq_tail := Some ?new\<rparr>"
  have "(\<lambda>a. tx_next (frag ?q1 a)) = ?nx(?t := Some ?new)"
    using tn by (auto simp: fun_eq_iff TxFragment_def)
  with ln have ln': "linked (\<lambda>a. tx_next (frag ?q1 a)) (sq_head q) (xs @ [?new]) None" by simp
  have "frag_at ((set_frag ?new TxFragment q)\<lparr>sq_unused := ?new + 1\<rparr>) ?t = Inr (frag q ?t)"
    using ft tn by (auto simp: frag_at_def split: option.split)
  then have res: "sq_push_back q =
      Inr (?q1\<lparr>sq_curr := cursor (xs @ [?new]) k, sq_slice_size := of_nat (length xs + 1)\<rparr>)"
    using t lk k cursor_snoc [OF k(1), of ?new]
    by (auto simp: sq_push_back_def Let_def sq_links_def)
  have "\<exists>n. frag ?q1 a = (frag q a)\<lparr>tx_next := n\<rparr>" if "a \<in> set xs" for a
    using that nw tn by (cases "a = ?t") (auto intro: exI [of _ "tx_next (frag q a)"])
  moreover have "dom (sq_heap ?q1) = insert ?new (set xs)"
    using lk t(2) by (auto simp: sq_links_def)
  ultimately show ?thesis
    unfolding res using ln' tn by (intro exI conjI) (rule refl | simp | blast)+
qed

lemma sq_append_ok:
  assumes rep: "sq_rep q xs k" and len: "length (sq_bytes_of q xs) + length data < 2 ^ 64"
  shows "\<exists>q'. sq_append data q = Inr q' \<and> sq_rep q' (xs @ [sq_unused q]) k \<and>
    sq_bytes_of q' (xs @ [sq_unused q]) = sq_bytes_of q xs @ data \<and>
    (\<forall>x\<in>set xs. frag_bytes (frag q' x) = frag_bytes (frag q x))"
proof -
  let ?new = "sq_unused q"
  have lk: "sq_links q xs" and k: "k \<le> length xs" "sq_curr q = cursor xs k"
    and tot: "unat (sq_total_len q) = length (sq_bytes_of q xs)"
    using rep by (auto simp: sq_rep_def)
  have nw: "?new \<notin> set xs" using lk by (rule sq_links_fresh)
  obtain q1 where p: "sq_push_back q = Inr q1" "sq_tail q1 = Some ?new"
    "sq_heap q1 ?new = Some TxFragment"
    "linked (\<lambda>a. tx_next (frag q1 a)) (sq_head q1) (xs @ [?new]) None"
    "dom (sq_heap q1) = insert ?new (set xs)"
    "\<And>a. a \<in> set xs \<Longrightarrow> \<exists>n. frag q1 a = (frag q a)\<lparr>tx_next := n\<rparr>"
    "sq_unused q1 = ?new + 1" "sq_slice_size q1 = of_nat (length xs + 1)"
    "sq_curr q1 = cursor (xs @ [?new]) k" "sq_total_len q1 = sq_total_len q"
    using sq_push_back_links [OF lk k] by blast
  let ?f = "TxFragment\<lparr>tx_guard := Some data, tx_len := of_nat (length data)\<rparr>"
  let ?q2 = "(set_frag ?new ?f q1)\<lparr>sq_total_len := sq_total_len q1 + of_nat (length data)\<rparr>"
  have app: "sq_append data q = Inr ?q2"
    using p(1-3) by (simp add: sq_append_def frag_at_def)
  have n: "unat (of_nat (length data) :: size_t) = length data"
    using len by (intro unat_of_nat_small) simp
  have wf: "frag_wf ?f" "frag_bytes ?f = data"
    using n by (auto simp: frag_wf_def frag_bytes_def TxFragment_def)
  have old: "frag_bytes (frag ?q2 a) = frag_bytes (frag q a) \<and> frag_wf (frag ?q2 a)"
    if "a \<in> set xs" for a
    using p(6) [OF that] that nw lk by (auto simp: frag_bytes_def frag_wf_def sq_links_def)
  have by_xs: "sq_bytes_of ?q2 xs = sq_bytes_of q xs"
    using old by (auto simp: sq_bytes_of_def intro!: arg_cong [of _ _ concat])
  have nx: "(\<lambda>a. tx_next (frag ?q2 a)) = (\<lambda>a. tx_next (frag q1 a))"
    using p(3) by (auto simp: fun_eq_iff TxFragment_def)
  have "sq_links ?q2 (xs @ [?new])"
    unfolding sq_links_def nx using p lk nw old wf
    by (auto simp: sq_links_def less_Suc_eq)
  moreover have "unat (sq_total_len ?q2) = length (sq_bytes_of ?q2 (xs @ [?new]))"
    using by_xs wf(2) tot n len p(10) by (simp add: unat_simps)
  ultimately have "sq_rep ?q2 (xs @ [?new]) k"
    using k(1) p(9) by (simp add: sq_rep_def)
  moreover have "\<forall>x\<in>set xs. frag_bytes (frag ?q2 x) = frag_bytes (frag q x)" using old by blast
  ultimately show ?thesis using app by_xs wf(2) by (intro exI [of _ ?q2]) simp
qed

section \<open>Acknowledging sent bytes\<close>

lemma sq_pop_front_links:
  assumes lk: "sq_links q (x # xs)"
  shows "\<exists>q'. sq_pop_front q = Inr q' \<and> sq_links q' xs \<and>
    (\<forall>a\<in>set xs. sq_heap q' a = sq_heap q a) \<and> sq_total_len q' = sq_total_len q"
proof -
  have x: "sq_head q = Some x" "frag_at q x = Inr (frag q x)"
    using lk sq_links_frag_at [OF lk, of x] by (auto simp: sq_links_head)
  from lk have tl: "linked (\<lambda>a. tx_next (frag q a)) (tx_next (frag q x)) xs None"
    and d: "x \<notin> set xs" "distinct xs" "dom (sq_heap q) = insert x (set xs)"
    and wf: "\<forall>a\<in>set xs. a < sq_unused q \<and> frag_wf (frag q a)"
    and sl: "sq_slice_size q = of_nat (length xs) + 1"
    and t: "sq_tail q = Some (last (x # xs))"
    by (auto simp: sq_links_def)
  let ?h = "(sq_heap q)(x := None)"
  have ln: "linked (\<lambda>a. tx_next (the (?h a))) p xs None =
      linked (\<lambda>a. tx_next (frag q a)) p xs None" for p
    using d(1) by (intro linked_cong) auto
  note ln' = ln [unfolded fun_upd_def]
  have nil: "tx_next (frag q x) = None \<longleftrightarrow> xs = []" using linked_head [OF tl] .
  show ?thesis
  proof (cases "xs = []")
    case True
    have "?h = Map.empty" using True d(3) by (auto simp: fun_eq_iff dom_def)
    with True show ?thesis
      using x nil sl by (auto simp: sq_pop_front_def sq_links_def Let_def)
  next
    case False
    let ?q = "q\<lparr>sq_head := tx_next (frag q x), sq_heap := ?h,
      sq_slice_size := sq_slice_size q - 1\<rparr>"
    have "sq_pop_front q = Inr ?q" using x nil False by (auto simp: sq_pop_front_def Let_def)
    moreover have "sq_links ?q xs"
      using tl d wf sl t False by (auto simp: sq_links_def ln')
    ultimately show ?thesis using d(1) by auto
  qed
qed

lemma frag_advance:
  assumes wf: "frag_wf f" and n: "unat n \<le> length (frag_bytes f)"
  shows "frag_wf (f\<lparr>tx_written := tx_written f + n\<rparr>)"
    and "frag_bytes (f\<lparr>tx_written := tx_written f + n\<rparr>) = drop (unat n) (frag_bytes f)"
    and "tx_written f + n = tx_len f \<longleftrightarrow> unat n = length (frag_bytes f)"
proof -
  have w: "unat (tx_written f) + unat n \<le> unat (tx_len f)"
    using assms by (auto simp: frag_wf_def frag_bytes_def word_le_nat_alt)
  then have u: "unat (tx_written f + n) = unat (tx_written f) + unat n"
    using unat_bound64 [of "tx_len f"] by (intro unat_plus_small) simp
  show "frag_wf (f\<lparr>tx_written := tx_written f + n\<rparr>)"
    using wf w u by (auto simp: frag_wf_def word_le_nat_alt)
  show "frag_bytes (f\<lparr>tx_written := tx_written f + n\<rparr>) = drop (unat n) (frag_bytes f)"
    using u by (simp add: frag_bytes_def add.commute)
  show "tx_written f + n = tx_len f \<longleftrightarrow> unat n = length (frag_bytes f)"
    using wf u w by (auto simp: word_unat_eq_iff frag_wf_def frag_bytes_def word_le_nat_alt)
qed

lemma sq_links_set_frag:
  assumes "sq_links q xs" and "x \<in> set xs" and "frag_wf f" and "tx_next f = tx_next (frag q x)"
  shows "sq_links (set_frag x f q) xs"
proof -
  have "(\<lambda>a. tx_next (frag (set_frag x f q) a)) = (\<lambda>a. tx_next (frag q a))"
    using assms(4) by (auto simp: fun_eq_iff)
  with assms(1-3) show ?thesis unfolding sq_links_def by auto
qed

lemma sq_retrieve_step_links:
  assumes lk: "sq_links q (x # xs)" and wr: "w < len"
  shows "\<exists>q' w' xs'. sq_retrieve_step len q w x = Inr (q', w') \<and> sq_links q' xs' \<and>
    unat w' = unat w + min (length (frag_bytes (frag q x))) (unat len - unat w) \<and>
    sq_bytes_of q' xs' = drop (unat w' - unat w) (sq_bytes_of q (x # xs)) \<and>
    sq_total_len q' = sq_total_len q \<and> (\<exists>ps. x # xs = ps @ xs') \<and>
    (xs' = xs \<or> xs' = x # xs \<and> w' = len)"
proof -
  let ?f = "frag q x"
  let ?off = "min (remainData ?f) (len - w)"
  let ?f1 = "?f\<lparr>tx_written := tx_written ?f + ?off\<rparr>"
  let ?q1 = "set_frag x ?f1 q"
  have wf: "frag_wf ?f" and xn: "x \<notin> set xs" using lk by (auto simp: sq_links_def)
  have off: "unat ?off = min (length (frag_bytes ?f)) (unat len - unat w)"
    using wr remain_frag [OF wf] by (simp add: unat_simps word_less_nat_alt)
  then have le: "unat ?off \<le> length (frag_bytes ?f)" by simp
  have w': "unat (w + ?off) = unat w + unat ?off"
    using off wr unat_bound64 [of len] by (intro unat_plus_small) (simp add: word_less_nat_alt)
  note adv = frag_advance [OF wf le]
  have lk1: "sq_links ?q1 (x # xs)"
    using lk adv(1) by (intro sq_links_set_frag) auto
  have rest: "sq_bytes_of q' xs = sq_bytes_of q xs"
    if "\<forall>a\<in>set xs. sq_heap q' a = sq_heap ?q1 a" for q'
    using that xn by (intro sq_bytes_of_cong) auto
  have at: "frag_at q x = Inr ?f" using sq_links_frag_at [OF lk, of x] by simp
  show ?thesis
  proof (cases "unat ?off = length (frag_bytes ?f)")
    case True
    obtain q2 where "sq_pop_front ?q1 = Inr q2" "sq_links q2 xs"
      "\<forall>a\<in>set xs. sq_heap q2 a = sq_heap ?q1 a" "sq_total_len q2 = sq_total_len ?q1"
      using sq_pop_front_links [OF lk1] by blast
    moreover have "\<exists>ps. x # xs = ps @ xs" by (intro exI [of _ "[x]"]) simp
    ultimately show ?thesis
      using at adv(3) True rest [of q2] w' off
      by (intro exI [of _ q2] exI [of _ "w + ?off"] exI [of _ xs])
        (simp add: sq_retrieve_step_def Let_def)
  next
    case False
    then have "unat ?off = unat len - unat w" using off by simp
    then have fin: "w + ?off = len"
      using w' wr by (simp add: word_unat_eq_iff word_less_nat_alt)
    show ?thesis
      using at adv(2,3) False rest [of ?q1] w' off lk1 fin le
      by (intro exI [of _ ?q1] exI [of _ "w + ?off"] exI [of _ "x # xs"])
        (simp add: sq_retrieve_step_def Let_def)
  qed
qed

lemma sq_retrieve_loop_links:
  assumes "sq_links q xs" and "w \<le> len"
  shows "\<exists>q' w' xs'. sq_retrieve_loop len q w = Some (Inr (q', w')) \<and> sq_links q' xs' \<and>
    unat w' = unat w + min (length (sq_bytes_of q xs)) (unat len - unat w) \<and>
    sq_bytes_of q' xs' = drop (unat len - unat w) (sq_bytes_of q xs) \<and>
    sq_total_len q' = sq_total_len q \<and> (\<exists>ps. xs = ps @ xs')"
  using assms
proof (induction xs arbitrary: q w)
  case Nil
  then have "sq_head q = None" by (simp add: sq_links_head)
  with Nil show ?case
    by (subst sq_retrieve_loop.simps) auto
next
  case (Cons x xs)
  show ?case
  proof (cases "w < len")
    case False
    with Cons.prems show ?thesis by (subst sq_retrieve_loop.simps) (auto intro: exI [of _ "x # xs"])
  next
    case True
    have h: "sq_head q = Some x" using Cons.prems(1) by (simp add: sq_links_head)
    obtain q1 w1 ys where st: "sq_retrieve_step len q w x = Inr (q1, w1)" "sq_links q1 ys"
      "unat w1 = unat w + min (length (frag_bytes (frag q x))) (unat len - unat w)"
      "sq_bytes_of q1 ys = drop (unat w1 - unat w) (sq_bytes_of q (x # xs))"
      "sq_total_len q1 = sq_total_len q" "\<exists>ps. x # xs = ps @ ys"
      "ys = xs \<or> ys = x # xs \<and> w1 = len"
      using sq_retrieve_step_links [OF Cons.prems(1) True] by blast
    have unf: "sq_retrieve_loop len q w = sq_retrieve_loop len q1 w1"
      using True h st(1) by (subst sq_retrieve_loop.simps) simp
    have le: "w1 \<le> len" using st(3) True by (simp add: word_le_nat_alt word_less_nat_alt)
    from st(7) show ?thesis
    proof
      assume ys: "ys = xs"
      obtain q2 w2 zs where r: "sq_retrieve_loop len q1 w1 = Some (Inr (q2, w2))" "sq_links q2 zs"
        "unat w2 = unat w1 + min (length (sq_bytes_of q1 xs)) (unat len - unat w1)"
        "sq_bytes_of q2 zs = drop (unat len - unat w1) (sq_bytes_of q1 xs)"
        "sq_total_len q2 = sq_total_len q1" "\<exists>ps. xs = ps @ zs"
        using Cons.IH [of q1 w1] st(2) le ys by blast
      have "unat w2 = unat w + min (length (sq_bytes_of q (x # xs))) (unat len - unat w)"
        using r(3) st(3,4) ys by (auto simp: min_def split: if_splits)
      moreover have "sq_bytes_of q2 zs = drop (unat len - unat w) (sq_bytes_of q (x # xs))"
        using r(4) st(3,4) ys True by (simp add: word_less_nat_alt add.commute)
      moreover have "\<exists>ps. x # xs = ps @ zs" using r(6) by (metis append_Cons)
      ultimately show ?thesis using r(1,2,5) unf st(5) by auto
    next
      assume fin: "ys = x # xs \<and> w1 = len"
      have "sq_retrieve_loop len q1 w1 = Some (Inr (q1, w1))"
        using fin by (subst sq_retrieve_loop.simps) simp
      moreover have "unat w1 = unat w + min (length (sq_bytes_of q (x # xs))) (unat len - unat w)"
        using fin st(3) True by (auto simp: word_less_nat_alt min_def split: if_splits)
      ultimately show ?thesis
        using unf st fin by (intro exI [of _ q1] exI [of _ w1] exI [of _ ys]) auto
    qed
  qed
qed

lemma sq_links_update [simp]:
  "sq_links (q\<lparr>sq_curr := c\<rparr>) xs = sq_links q xs"
  "sq_links (q\<lparr>sq_total_len := n\<rparr>) xs = sq_links q xs"
  "sq_bytes_of (q\<lparr>sq_curr := c\<rparr>) xs = sq_bytes_of q xs"
  "sq_bytes_of (q\<lparr>sq_total_len := n\<rparr>) xs = sq_bytes_of q xs"
  by (simp_all add: sq_links_def sq_bytes_of_def)

lemma sq_retrieve_ok:
  assumes "sq_rep q xs k"
  shows "\<exists>q' xs'. sq_retrieve len q = Some (Inr q') \<and> sq_rep q' xs' 0 \<and>
    sq_bytes_of q' xs' = drop (unat len) (sq_bytes_of q xs) \<and> (\<exists>ps. xs = ps @ xs')"
proof -
  from assms have lk: "sq_links q xs" and tot: "unat (sq_total_len q) = length (sq_bytes_of q xs)"
    by (auto simp: sq_rep_def)
  obtain q1 w xs' where r: "sq_retrieve_loop len q 0 = Some (Inr (q1, w))" "sq_links q1 xs'"
    "unat w = min (length (sq_bytes_of q xs)) (unat len)"
    "sq_bytes_of q1 xs' = drop (unat len) (sq_bytes_of q xs)"
    "sq_total_len q1 = sq_total_len q" "\<exists>ps. xs = ps @ xs'"
    using sq_retrieve_loop_links [OF lk, of 0 len] by auto
  let ?q = "q1\<lparr>sq_curr := sq_head q1, sq_total_len := sq_total_len q1 - w\<rparr>"
  have "sq_retrieve len q = Some (Inr ?q)" using r(1) by (simp add: sq_retrieve_def)
  moreover have "sq_curr ?q = cursor xs' 0"
    using r(2) by (cases xs') (auto simp: cursor_def sq_links_head)
  moreover have "unat (sq_total_len ?q) = length (sq_bytes_of ?q xs')"
    using r(3-5) tot by (simp add: unat_simps)
  ultimately show ?thesis using r by (intro exI [of _ ?q] exI [of _ xs']) (simp add: sq_rep_def)
qed

section \<open>Batching\<close>

definition iov_bytes :: "iovec \<Rightarrow> byte list" where
  "iov_bytes v = take (unat (iov_len v)) (drop (unat (iov_off v)) (the (iov_block v)))"

definition frag_iovec :: "send_queue \<Rightarrow> nat \<Rightarrow> iovec" where
  "frag_iovec q a = \<lparr>iov_block = tx_guard (frag q a), iov_off = tx_written (frag q a),
     iov_len = remainData (frag q a)\<rparr>"

lemma frag_iovec_bytes: "frag_wf (frag q a) \<Longrightarrow> iov_bytes (frag_iovec q a) = frag_bytes (frag q a)"
  using remain_frag [of "frag q a"] by (simp add: iov_bytes_def frag_iovec_def frag_bytes_def)

lemma sq_links_next:
  assumes "sq_links q xs" and "k < length xs"
  shows "tx_next (frag q (xs ! k)) = cursor xs (Suc k)"
proof -
  have "xs = take k xs @ xs ! k # drop (Suc k) xs" using assms(2) by (rule id_take_nth_drop)
  then obtain ps ys where xs: "xs = ps @ xs ! k # ys" "ys = drop (Suc k) xs" by blast
  have "linked (\<lambda>a. tx_next (frag q a)) (sq_head q) (ps @ xs ! k # ys) None"
    using assms(1) xs(1) unfolding sq_links_def by metis
  then have "linked (\<lambda>a. tx_next (frag q a)) (tx_next (frag q (xs ! k))) (drop (Suc k) xs) None"
    unfolding xs(2) [symmetric] by (auto simp: linked_append)
  then show ?thesis
    by (cases "Suc k < length xs") (auto simp: cursor_def Cons_nth_drop_Suc [symmetric])
qed

lemma getOneIovec_rep:
  assumes "sq_links q xs" and "k < length xs" and "sq_curr q = cursor xs k"
  shows "getOneIovec q = Inr (frag_iovec q (xs ! k), q\<lparr>sq_curr := cursor xs (Suc k)\<rparr>)"
  using assms sq_links_frag_at [OF assms(1), of "xs ! k"] sq_links_next [OF assms(1,2)]
  by (simp add: getOneIovec_def cursor_def frag_iovec_def)

lemma batch_loop_rep:
  assumes "sq_links q xs" and "k \<le> length xs" and "sq_curr q = cursor xs k"
  shows "batch_loop n vs i q =
    Inr (vs @ map (frag_iovec q) (take n (drop k xs)), i + min n (length xs - k),
         q\<lparr>sq_curr := cursor xs (min (k + n) (length xs))\<rparr>)"
  using assms
proof (induction n arbitrary: k vs i q)
  case 0
  then show ?case by (simp add: min_def)
next
  case (Suc n)
  show ?case
  proof (cases "k < length xs")
    case False
    with Suc.prems show ?thesis by (auto simp: cursor_def min_def)
  next
    case True
    let ?q = "q\<lparr>sq_curr := cursor xs (Suc k)\<rparr>"
    have "sq_curr q \<noteq> None" using True Suc.prems(3) by (simp add: cursor_def)
    moreover have "frag_iovec ?q = frag_iovec q" by (simp add: frag_iovec_def fun_eq_iff)
    moreover have "drop k xs = xs ! k # drop (Suc k) xs" using True by (simp add: Cons_nth_drop_Suc)
    moreover have "min n (length xs - Suc k) + 1 = min (Suc n) (length xs - k)" using True by auto
    ultimately show ?thesis
      using getOneIovec_rep [OF Suc.prems(1) True Suc.prems(3)] Suc.IH [of ?q "Suc k"]
        Suc.prems(1) True
      by simp
  qed
qed

lemma getBatchFragment_rep:
  assumes "sq_rep q xs k"
  shows "getBatchFragment [] n q =
      Inr (map (frag_iovec q) (take (unat n) (drop k xs)),
           q\<lparr>sq_curr := cursor xs (min (k + unat n) (length xs))\<rparr>)"
    and "sq_rep (q\<lparr>sq_curr := cursor xs (min (k + unat n) (length xs))\<rparr>) xs
      (min (k + unat n) (length xs))"
  using assms batch_loop_rep [of q xs k "unat n" "[]" 0]
    take_min_length [of "unat n" "drop k xs"]
  by (auto simp: getBatchFragment_def sq_rep_def take_map)

lemma frag_iovecs_bytes:
  "sq_links q xs \<Longrightarrow> set ys \<subseteq> set xs \<Longrightarrow>
   concat (map iov_bytes (map (frag_iovec q) ys)) = sq_bytes_of q ys"
  by (auto simp: sq_bytes_of_def sq_links_def subset_iff intro!: arg_cong [of _ _ concat] frag_iovec_bytes)

section \<open>Destruction\<close>

lemma sq_destroy_ok:
  "sq_links q xs \<Longrightarrow> \<exists>q'. sq_destroy q = Some (Inr q') \<and> sq_heap q' = Map.empty"
proof (induction xs arbitrary: q)
  case Nil
  then have "sq_head q = None" "sq_heap q = Map.empty" by (auto simp: sq_links_def)
  then show ?case by (subst sq_destroy.simps) simp
next
  case (Cons x xs)
  obtain q1 where "sq_pop_front q = Inr q1" "sq_links q1 xs"
    using sq_pop_front_links [OF Cons.prems] by blast
  with Cons.IH [of q1] Cons.prems show ?case
    by (subst sq_destroy.simps) (simp add: sq_links_head)
qed

section \<open>The send queue as a byte stream\<close>

definition sq_chain :: "send_queue \<Rightarrow> nat list" where
  "sq_chain q = walk (\<lambda>a. tx_next (frag q a)) (card (dom (sq_heap q))) (sq_head q)"

definition sq_content :: "send_queue \<Rightarrow> byte list" where
  "sq_content q = sq_bytes_of q (sq_chain q)"

definition sq_inv :: "send_queue \<Rightarrow> bool" where
  "sq_inv q \<longleftrightarrow> (\<exists>xs k. sq_rep q xs k)"

definition sq_admits :: "byte list \<Rightarrow> send_queue \<Rightarrow> bool" where
  "sq_admits data q \<longleftrightarrow> length (sq_content q) + length data < 2 ^ 64"

lemma sq_chain_links: "sq_links q xs \<Longrightarrow> sq_chain q = xs"
  unfolding sq_chain_def by (auto simp: sq_links_def distinct_card intro!: linked_walk)

lemma sq_chain_rep: "sq_rep q xs k \<Longrightarrow> sq_chain q = xs"
  by (auto simp: sq_rep_def intro: sq_chain_links)

lemma sq_content_rep: "sq_rep q xs k \<Longrightarrow> sq_content q = sq_bytes_of q xs"
  by (simp add: sq_content_def sq_chain_rep)

lemma sq_put_ok:
  "sq_inv q \<Longrightarrow> sq_admits data q \<Longrightarrow>
   \<exists>q'. sq_append data q = Inr q' \<and> sq_inv q' \<and> sq_content q' = sq_content q @ data"
  unfolding sq_inv_def sq_admits_def using sq_append_ok by (metis sq_content_rep)

lemma sq_consume_ok:
  "sq_inv q \<Longrightarrow> \<exists>q'. sq_retrieve n q = Some (Inr q') \<and> sq_inv q' \<and>
     sq_content q' = drop (unat n) (sq_content q)"
  unfolding sq_inv_def using sq_retrieve_ok by (metis sq_content_rep)

interpretation sendq: byte_fifo sq_inv sq_content sq_admits "\<lambda>data. data"
  "\<lambda>data q. Some (sq_append data q)" sq_retrieve
  by unfold_locales (use sq_put_ok sq_consume_ok in auto)

lemma sq_inv_new [simp]: "sq_inv SendQueue" "sq_content SendQueue = []"
  using sq_rep_new by (auto simp: sq_inv_def sq_content_rep)

text \<open>
  C18 The send queue never loses, repeats or reorders bytes: for every sequence of appended
  buffers and acknowledgements on a well-formed queue, the queued bytes followed by the appended
  ones are the acknowledged bytes followed by those still queued, and \<open>total_len_\<close> counts them.
\<close>

theorem output_stream_conserved:
  assumes "sq_inv q" and "sendq.run q ops q' ins outs"
  shows "sq_content q @ ins = outs @ sq_content q' \<and>
    unat (sq_total_len q') = length (sq_content q') \<and> (sq_isEmpty q' \<longleftrightarrow> sq_content q' = [])"
proof -
  from sendq.run_conserves [OF assms(2,1)]
  have c: "sq_inv q'" "sq_content q @ ins = outs @ sq_content q'" by auto
  then obtain xs k where "sq_rep q' xs k" by (auto simp: sq_inv_def)
  then have t: "unat (sq_total_len q') = length (sq_content q')"
    by (simp add: sq_content_rep) (simp add: sq_rep_def)
  moreover have "sq_isEmpty q' \<longleftrightarrow> sq_content q' = []"
    using t unfolding sq_isEmpty_def by (metis length_0_conv unat_eq_zero)
  ultimately show ?thesis using c(2) by simp
qed

text \<open>
  A batch taken right after an acknowledgement is the front of the queue: the iovecs are
  those of the first \<open>max_count\<close> fragments, their bytes are a prefix of the queued bytes, and
  acknowledging exactly the batch's bytes drops exactly them.
\<close>

theorem batch_is_prefix:
  assumes "sq_inv q" and "sq_retrieve n q = Some (Inr q1)"
  shows "\<exists>vs q2 q3 rest. getBatchFragment [] max_count q1 = Inr (vs, q2) \<and>
    length vs \<le> unat max_count \<and> sq_content q1 = concat (map iov_bytes vs) @ rest \<and>
    sq_retrieve (of_nat (length (concat (map iov_bytes vs)))) q2 = Some (Inr q3) \<and>
    sq_content q3 = rest"
proof -
  from assms obtain xs where rep: "sq_rep q1 xs 0"
    unfolding sq_inv_def using sq_retrieve_ok by (metis Inr_inject option.inject)
  let ?m = "unat max_count"
  let ?vs = "map (frag_iovec q1) (take ?m xs)"
    and ?q2 = "q1\<lparr>sq_curr := cursor xs (min ?m (length xs))\<rparr>"
  have b: "getBatchFragment [] max_count q1 = Inr (?vs, ?q2)" "sq_rep ?q2 xs (min ?m (length xs))"
    using getBatchFragment_rep [OF rep, of max_count] by simp_all
  have by_vs: "concat (map iov_bytes ?vs) = sq_bytes_of q1 (take ?m xs)"
    using rep by (intro frag_iovecs_bytes) (auto simp: sq_rep_def dest: in_set_takeD)
  have split: "sq_bytes_of q1 xs = sq_bytes_of q1 (take ?m xs) @ sq_bytes_of q1 (drop ?m xs)"
    by (metis append_take_drop_id sq_bytes_of_simps(3))
  have "length (sq_bytes_of q1 xs) < 2 ^ 64"
    using rep unat_bound64 [of "sq_total_len q1"] by (simp add: sq_rep_def)
  then have u: "unat (of_nat (length (sq_bytes_of q1 (take ?m xs))) :: size_t) =
      length (sq_bytes_of q1 (take ?m xs))"
    using split by (intro unat_of_nat_small) simp
  obtain q3 ys where "sq_retrieve (of_nat (length (concat (map iov_bytes ?vs)))) ?q2 = Some (Inr q3)"
    "sq_rep q3 ys 0" "sq_bytes_of q3 ys = sq_bytes_of q1 (drop ?m xs)"
    using sq_retrieve_ok [OF b(2), of "of_nat (length (concat (map iov_bytes ?vs)))"]
    unfolding by_vs u by (auto simp: split)
  then show ?thesis
    using b(1) by_vs split rep
    by (intro exI [of _ ?vs] exI [of _ ?q2] exI [of _ q3] exI [of _ "sq_bytes_of q1 (drop ?m xs)"])
      (simp add: sq_content_rep)
qed

text \<open>
  C37 The destructor of the send queue terminates and frees every fragment the queue allocated.
\<close>

theorem sq_destroy_frees_all:
  assumes "sq_inv q"
  shows "\<exists>q'. sq_destroy q = Some (Inr q') \<and> sq_heap q' = Map.empty"
  using assms sq_destroy_ok by (auto simp: sq_inv_def sq_rep_def)

text \<open>
  The two \<open>append\<close> overloads agree: appending a raw block queues the bytes it holds at the
  time of the call.
\<close>

theorem append_raw_copies: "sq_append_raw mem data len q = sq_append (read_mem mem data (unat len)) q"
  by (simp add: sq_append_raw_def sq_append_def Let_def cong: option.case_cong)

section \<open>A concrete queue\<close>

definition demo_sendq :: send_queue where
  "demo_sendq = (case sq_append [1, 2, 3] SendQueue of Inr q \<Rightarrow> q)"

lemma demo_sendq_ok: "sq_inv demo_sendq" "sq_content demo_sendq = [1, 2, 3]"
  using sq_put_ok [of SendQueue "[1, 2, 3]"]
  by (auto simp: demo_sendq_def sq_admits_def)

theorem output_stream_conserved_witness:
  "\<exists>q' outs. sendq.run demo_sendq [Consume 2] q' [] outs \<and> [1, 2, 3] = outs @ sq_content q'"
proof -
  obtain q' outs where r: "sendq.run demo_sendq (map Consume [2]) q' [] outs"
    using sendq.run_consume_all [OF demo_sendq_ok(1)] by blast
  from output_stream_conserved [OF demo_sendq_ok(1) r] r show ?thesis
    by (intro exI [of _ q'] exI [of _ outs]) (simp add: demo_sendq_ok)
qed

theorem batch_is_prefix_witness:
  "\<exists>q1 vs q2 rest. sq_retrieve 1 demo_sendq = Some (Inr q1) \<and>
     getBatchFragment [] 4 q1 = Inr (vs, q2) \<and> [2, 3] = concat (map iov_bytes vs) @ rest"
proof -
  obtain q1 where q1: "sq_retrieve 1 demo_sendq = Some (Inr q1)" "sq_content q1 = [2, 3]"
    using sq_consume_ok [OF demo_sendq_ok(1), of 1] by (auto simp: demo_sendq_ok)
  with batch_is_prefix [OF demo_sendq_ok(1) q1(1), of 4] show ?thesis by metis
qed

theorem sq_destroy_frees_all_witness:
  "\<exists>q'. sq_destroy demo_sendq = Some (Inr q') \<and> sq_heap q' = Map.empty"
  by (rule sq_destroy_frees_all [OF demo_sendq_ok(1)])

end
