(* ===== verification/Timestamps.thy ===== *)
theory Timestamps
  imports Proactor_Prelude "HOL-Library.Signed_Division"
begin

text \<open>
  \<open>Timestamp\<close> and \<open>MonotonicTimestamp\<close> (src/Timestamp.cc, src/MonotonicTimestamp.cc and their
  headers): microseconds since an epoch in an \<open>int64_t\<close>, and \<open>addTime\<close>, which adds a number of
  seconds given as a \<open>double\<close>. A signed 64-bit overflow is undefined in C++; the model computes with
  unbounded integers and the bounds are stated where they matter.
\<close>

section \<open>Doubles\<close>

text \<open>
  A finite \<open>double\<close> is \<open>m * 2 ^ e\<close>. \<open>duration_cast\<close> from seconds in \<open>double\<close> to microseconds
  multiplies by \<open>10 ^ 6\<close> in \<open>double\<close>, which rounds the product to 53 significant bits, to nearest
  and ties to even, and then truncates towards zero.
\<close>

datatype double = Double (dbl_m: int) (dbl_e: int)

fun bitlen :: "nat \<Rightarrow> nat" where
  "bitlen n = (if n = 0 then 0 else Suc (bitlen (n div 2)))"

declare bitlen.simps [simp del]

definition round_even :: "nat \<Rightarrow> nat \<Rightarrow> nat" where
  "round_even p k =
     (let q = p div 2 ^ k; r = p mod 2 ^ k
      in if 2 ^ k < 2 * r \<or> 2 ^ k = 2 * r \<and> odd q then q + 1 else q)"

definition trunc_scaled :: "nat \<Rightarrow> int \<Rightarrow> nat" where
  "trunc_scaled r e = (if 0 \<le> e then r * 2 ^ nat e else r div 2 ^ nat (- e))"

definition seconds_to_us :: "double \<Rightarrow> int" where
  "seconds_to_us d =
     (let p = nat \<bar>dbl_m d\<bar> * 10 ^ 6; k = bitlen p - 53
      in sgn (dbl_m d) * int (trunc_scaled (round_even p k) (dbl_e d + int k)))"

definition dbl_positive :: "double \<Rightarrow> bool" where
  "dbl_positive d \<longleftrightarrow> 0 < dbl_m d"

section \<open>Time stamps\<close>

record timestamp =
  ts_us :: int

definition Timestamp :: "int \<Rightarrow> timestamp" where
  "Timestamp us = \<lparr>ts_us = us\<rparr>"

definition invaild :: timestamp where
  "invaild = Timestamp 0"

definition vaild :: "timestamp \<Rightarrow> bool" where
  "vaild t \<longleftrightarrow> 0 < ts_us t"

definition ts_less :: "timestamp \<Rightarrow> timestamp \<Rightarrow> bool" where
  "ts_less a b \<longleftrightarrow> ts_us a < ts_us b"

definition ts_greater :: "timestamp \<Rightarrow> timestamp \<Rightarrow> bool" where
  "ts_greater a b \<longleftrightarrow> ts_us b < ts_us a"

definition ts_equal :: "timestamp \<Rightarrow> timestamp \<Rightarrow> bool" where
  "ts_equal a b \<longleftrightarrow> ts_us a = ts_us b"

definition ts_not_equal :: "timestamp \<Rightarrow> timestamp \<Rightarrow> bool" where
  "ts_not_equal a b \<longleftrightarrow> ts_us a \<noteq> ts_us b"

text \<open>\<open>now\<close>, for a clock that counts nanoseconds; \<open>duration_cast\<close> truncates, and the steady clock is not negative.\<close>

definition monotonic_now :: "int \<Rightarrow> timestamp" where
  "monotonic_now clock_ns = Timestamp (clock_ns sdiv 1000)"

definition addTime :: "timestamp \<Rightarrow> double \<Rightarrow> timestamp" where
  "addTime t seconds = Timestamp (ts_us t + seconds_to_us seconds)"

lemma ts_us_Timestamp [simp]: "ts_us (Timestamp us) = us"
  by (simp add: Timestamp_def)

lemma ts_eqI: "ts_us a = ts_us b \<Longrightarrow> a = (b :: timestamp)"
  by (rule timestamp.equality) auto

text \<open>The comparison operators are those of a linear order on time stamps.\<close>

instantiation timestamp_ext :: (linorder) linorder
begin

definition less_eq_timestamp_ext :: "'a timestamp_ext \<Rightarrow> 'a timestamp_ext \<Rightarrow> bool" where
  "less_eq_timestamp_ext a b \<longleftrightarrow>
     ts_us a < ts_us b \<or> ts_us a = ts_us b \<and> timestamp.more a \<le> timestamp.more b"

definition less_timestamp_ext :: "'a timestamp_ext \<Rightarrow> 'a timestamp_ext \<Rightarrow> bool" where
  "less_timestamp_ext a b \<longleftrightarrow>
     ts_us a < ts_us b \<or> ts_us a = ts_us b \<and> timestamp.more a < timestamp.more b"

instance
  by standard (auto simp: less_eq_timestamp_ext_def less_timestamp_ext_def intro: timestamp.equality)

end

lemma ts_order:
  "ts_less a b \<longleftrightarrow> a < b" "ts_greater a b \<longleftrightarrow> b < a" "ts_equal a b \<longleftrightarrow> a = b" "ts_not_equal a b \<longleftrightarrow> a \<noteq> b"
  by (auto simp: ts_less_def ts_greater_def ts_equal_def ts_not_equal_def less_timestamp_ext_def intro: ts_eqI)

lemma monotonic_now_mono: "0 \<le> m \<Longrightarrow> m \<le> n \<Longrightarrow> monotonic_now m \<le> monotonic_now n"
  by (auto simp: monotonic_now_def less_eq_timestamp_ext_def signed_divide_int_def sgn_if zdiv_mono1 order_le_less)

lemma bitlen_le: "n < 2 ^ k \<Longrightarrow> bitlen n \<le> k"
proof (induction k arbitrary: n)
  case 0
  then show ?case by (simp add: bitlen.simps)
next
  case (Suc k)
  then have "n div 2 < 2 ^ k" by auto
  with Suc.IH show ?case by (subst bitlen.simps) simp
qed

lemma round_even_0 [simp]: "round_even p 0 = p"
  by (simp add: round_even_def)

lemma seconds_to_us_nonneg: "dbl_positive d \<Longrightarrow> 0 \<le> seconds_to_us d"
  by (simp add: seconds_to_us_def dbl_positive_def Let_def)

lemma bitlen_bound: "n < 2 ^ bitlen n"
proof (induction n rule: bitlen.induct)
  case (1 n)
  show ?case
  proof (cases "n = 0")
    case True
    then show ?thesis by (simp add: bitlen.simps)
  next
    case False
    then have "n div 2 < 2 ^ bitlen (n div 2)" using 1 by simp
    then show ?thesis using False by (subst bitlen.simps) auto
  qed
qed

text \<open>
  A whole number of seconds is converted exactly: for \<open>0 \<le> n\<close> with \<open>n * 10 ^ 6 < 2 ^ 53\<close>,
  \<open>addTime\<close> moves the time stamp by exactly \<open>n * 10 ^ 6\<close> microseconds.
\<close>

theorem addTime_whole_seconds:
  assumes "0 \<le> n" and "n * 10 ^ 6 < 2 ^ 53"
  shows "ts_us (addTime t (Double n 0)) = ts_us t + n * 10 ^ 6"
proof -
  have "nat n * 10 ^ 6 < 2 ^ 53" using assms by (simp add: nat_less_iff zless_nat_eq_int_zless)
  then have "bitlen (nat n * 10 ^ 6) \<le> 53" by (rule bitlen_le)
  then have "bitlen (nat n * 10 ^ 6) - 53 = 0" by simp
  then show ?thesis
    using assms(1)
    by (cases "n = 0") (auto simp: addTime_def seconds_to_us_def Let_def trunc_scaled_def sgn_if)
qed

theorem addTime_whole_seconds_witness:
  "ts_us (addTime (Timestamp 5) (Double 3 0)) = 3000005"
  using addTime_whole_seconds [of 3 "Timestamp 5"] by simp

end
