(* ===== verification/Timer_Queue.thy ===== *)
theory Timer_Queue
  imports Timestamps "HOL-Library.Product_Lexorder"
begin

text \<open>
  \<open>Timer\<close>, \<open>TimerId\<close> and \<open>TimerQueue\<close> (src/Timer.cc, src/TimerQueue.cc and their headers). Timers are
  heap objects: \<open>new\<close> takes an address the allocator chooses among the unused ones, so addresses
  of deleted timers can come back, and the sequence number in a \<open>TimerId\<close> is what tells an old
  timer from a new one. \<open>std::map\<close> is an association list sorted by its keys, \<open>std::set\<close> a finite
  set. User callbacks are scripts of calls to the queue: the parameter \<open>script\<close> says which calls
  a callback makes in a given state.
\<close>

section \<open>Timers\<close>

record 'cb timer =
  tm_callback :: "'cb option"
  tm_expiration :: timestamp
  tm_interval :: double
  tm_repeat :: bool
  tm_sequence :: int

definition Timer :: "'cb option \<Rightarrow> timestamp \<Rightarrow> double \<Rightarrow> int \<Rightarrow> 'cb timer" where
  "Timer cb when interval seq =
     \<lparr>tm_callback = cb, tm_expiration = when, tm_interval = interval,
      tm_repeat = dbl_positive interval, tm_sequence = seq\<rparr>"

definition timer_restart :: "timestamp \<Rightarrow> 'cb timer \<Rightarrow> 'cb timer" where
  "timer_restart now t =
     (if tm_repeat t then t\<lparr>tm_expiration := addTime now (tm_interval t)\<rparr>
      else t\<lparr>tm_expiration := invaild\<rparr>)"

definition LLONG_MAX :: int where
  "LLONG_MAX = 2 ^ 63 - 1"

text \<open>\<open>fetch_add (1)\<close> on the 64-bit sequence counter.\<close>

definition next_sequence :: "int \<Rightarrow> int" where
  "next_sequence n = (if n = LLONG_MAX then - LLONG_MAX - 1 else n + 1)"

section \<open>Ordered maps\<close>

fun map_put :: "'k::linorder \<Rightarrow> 'v \<Rightarrow> ('k \<times> 'v) list \<Rightarrow> ('k \<times> 'v) list" where
  "map_put k v [] = [(k, v)]"
| "map_put k v ((k', v') # xs) =
     (if k < k' then (k, v) # (k', v') # xs
      else if k = k' then (k, v) # xs
      else (k', v') # map_put k v xs)"

definition map_erase :: "'k \<Rightarrow> ('k \<times> 'v) list \<Rightarrow> ('k \<times> 'v) list" where
  "map_erase k xs = filter (\<lambda>e. fst e \<noteq> k) xs"

section \<open>The queue\<close>

text \<open>\<open>createTimerFd\<close>, for the result of \<open>timerfd_create\<close>. No code calls it: the loop waits with a timeout instead.\<close>

definition createTimerFd :: "int \<Rightarrow> int outcome" where
  "createTimerFd timer_fd = (if timer_fd = - 1 then Inl (Exit (- 1)) else Inr timer_fd)"

type_synonym timer_entry = "int \<times> int"

record 'cb timer_queue =
  tq_heap :: "nat \<rightharpoonup> 'cb timer"
  tq_sequence :: int
  tq_list :: "(timer_entry \<times> nat) list"
  tq_active :: "(nat \<times> int) set"
  tq_canceling :: "(nat \<times> int) set"
  tq_running :: bool

definition TimerQueue :: "'cb timer_queue" where
  "TimerQueue =
     \<lparr>tq_heap = Map.empty, tq_sequence = 0, tq_list = [], tq_active = {}, tq_canceling = {},
      tq_running = False\<rparr>"

definition timer_at :: "'cb timer_queue \<Rightarrow> nat \<Rightarrow> 'cb timer outcome" where
  "timer_at q p = (case tq_heap q p of None \<Rightarrow> Inl NullDeref | Some t \<Rightarrow> Inr t)"

definition timer_entry_of :: "'cb timer \<Rightarrow> timer_entry" where
  "timer_entry_of t = (ts_us (tm_expiration t), tm_sequence t)"

definition sizes_agree :: "'cb timer_queue \<Rightarrow> unit outcome" where
  "sizes_agree q = check (length (tq_list q) = card (tq_active q)) AssertFailed"

text \<open>
  \<open>insert\<close>: assigning to a key that is present deletes the timer that was there. The result tells
  whether the new timer is the earliest.
\<close>

definition tq_insert :: "bool \<Rightarrow> nat \<Rightarrow> 'cb timer_queue \<Rightarrow> (bool \<times> 'cb timer_queue) outcome" where
  "tq_insert in_loop p q =
     andThen (check in_loop AssertFailed) (\<lambda>_.
     andThen (sizes_agree q) (\<lambda>_.
     andThen (timer_at q p) (\<lambda>t.
       let new_entry = timer_entry_of t;
           new_timer = (p, snd new_entry);
           early = (tq_list q = [] \<or> fst new_entry < fst (fst (hd (tq_list q))));
           heap = (case map_of (tq_list q) new_entry of
                     None \<Rightarrow> tq_heap q | Some old \<Rightarrow> (tq_heap q)(old := None));
           q1 = q\<lparr>tq_heap := heap, tq_list := map_put new_entry p (tq_list q),
                  tq_active := insert new_timer (tq_active q)\<rparr>
       in andThen (check (new_timer \<notin> tq_active q) AssertFailed) (\<lambda>_.
          andThen (sizes_agree q1) (\<lambda>_. Inr (early, q1))))))"

definition tq_erase :: "nat \<times> int \<Rightarrow> 'cb timer_queue \<Rightarrow> (bool \<times> 'cb timer_queue) outcome" where
  "tq_erase del_timer q =
     (if del_timer \<in> tq_active q then
        andThen (timer_at q (fst del_timer)) (\<lambda>t.
          let del_entry = timer_entry_of t;
              heap = (case map_of (tq_list q) del_entry of
                        None \<Rightarrow> tq_heap q | Some old \<Rightarrow> (tq_heap q)(old := None))
          in Inr (True, q\<lparr>tq_heap := heap, tq_active := tq_active q - {del_timer},
                          tq_list := map_erase del_entry (tq_list q)\<rparr>))
      else Inr (False, q))"

definition addTimerInLoop :: "bool \<Rightarrow> nat \<Rightarrow> 'cb timer_queue \<Rightarrow> 'cb timer_queue outcome" where
  "addTimerInLoop in_loop p q =
     andThen (check in_loop AssertFailed) (\<lambda>_.
     andThen (tq_insert in_loop p q) (\<lambda>(_, q1). Inr q1))"

definition cancelTimerInLoop ::
    "bool \<Rightarrow> nat \<times> int \<Rightarrow> 'cb timer_queue \<Rightarrow> 'cb timer_queue outcome" where
  "cancelTimerInLoop in_loop timer_id q =
     andThen (check in_loop AssertFailed) (\<lambda>_.
     andThen (sizes_agree q) (\<lambda>_.
     andThen (tq_erase timer_id q) (\<lambda>(erased, q1).
       let q2 = (if \<not> erased \<and> tq_running q1
                 then q1\<lparr>tq_canceling := insert timer_id (tq_canceling q1)\<rparr> else q1)
       in andThen (sizes_agree q2) (\<lambda>_. Inr q2))))"

text \<open>
  \<open>addTimer\<close> and \<open>cancelTimer\<close> hand a functor to the loop, which runs it at once when called on
  the loop's thread and queues it otherwise.
\<close>

datatype timer_task = AddTimerInLoop nat | CancelTimerInLoop "nat \<times> int"

fun run_timer_task :: "bool \<Rightarrow> timer_task \<Rightarrow> 'cb timer_queue \<Rightarrow> 'cb timer_queue outcome" where
  "run_timer_task in_loop (AddTimerInLoop p) q = addTimerInLoop in_loop p q"
| "run_timer_task in_loop (CancelTimerInLoop timer_id) q = cancelTimerInLoop in_loop timer_id q"

definition addTimer ::
    "((nat \<rightharpoonup> 'cb timer) \<Rightarrow> nat) \<Rightarrow> 'cb option \<Rightarrow> timestamp \<Rightarrow> double \<Rightarrow> 'cb timer_queue \<Rightarrow>
     timer_task \<times> (nat \<times> int) \<times> 'cb timer_queue" where
  "addTimer alloc cb when interval q =
     (let p = alloc (tq_heap q);
          t = Timer cb when interval (tq_sequence q)
      in (AddTimerInLoop p, (p, tm_sequence t),
          q\<lparr>tq_heap := (tq_heap q)(p \<mapsto> t), tq_sequence := next_sequence (tq_sequence q)\<rparr>))"

definition cancelTimer :: "nat \<times> int \<Rightarrow> timer_task" where
  "cancelTimer timer_id = CancelTimerInLoop timer_id"

text \<open>The calls a callback makes; it runs on the loop's thread.\<close>

datatype 'cb timer_call = AddTimer "'cb option" timestamp double | CancelTimer "nat \<times> int"

fun exec_timer_call ::
    "((nat \<rightharpoonup> 'cb timer) \<Rightarrow> nat) \<Rightarrow> 'cb timer_call \<Rightarrow> 'cb timer_queue \<Rightarrow> 'cb timer_queue outcome" where
  "exec_timer_call alloc (AddTimer cb when interval) q =
     (case addTimer alloc cb when interval q of (task, _, q1) \<Rightarrow> run_timer_task True task q1)"
| "exec_timer_call alloc (CancelTimer timer_id) q = run_timer_task True (cancelTimer timer_id) q"

fun exec_timer_calls ::
    "((nat \<rightharpoonup> 'cb timer) \<Rightarrow> nat) \<Rightarrow> 'cb timer_call list \<Rightarrow> 'cb timer_queue \<Rightarrow> 'cb timer_queue outcome"
where
  "exec_timer_calls alloc [] q = Inr q"
| "exec_timer_calls alloc (c # cs) q = andThen (exec_timer_call alloc c q) (exec_timer_calls alloc cs)"

definition timer_run ::
    "((nat \<rightharpoonup> 'cb timer) \<Rightarrow> nat) \<Rightarrow> ('cb \<Rightarrow> 'cb timer_queue \<Rightarrow> 'cb timer_call list) \<Rightarrow> 'cb timer \<Rightarrow>
     'cb timer_queue \<Rightarrow> 'cb timer_queue outcome" where
  "timer_run alloc script t q =
     (case tm_callback t of None \<Rightarrow> Inr q | Some cb \<Rightarrow> exec_timer_calls alloc (script cb q) q)"

section \<open>Expiry\<close>

fun expire_loop ::
    "(timer_entry \<times> nat) list \<Rightarrow> nat list \<Rightarrow> 'cb timer_queue \<Rightarrow> (nat list \<times> 'cb timer_queue) outcome"
where
  "expire_loop [] ret q = Inr (ret, q)"
| "expire_loop (e # es) ret q =
     andThen (timer_at q (snd e)) (\<lambda>t.
       expire_loop es (ret @ [snd e])
         (q\<lparr>tq_active := tq_active q - {(snd e, tm_sequence t)}\<rparr>))"

definition getExpiredTimers ::
    "timestamp \<Rightarrow> 'cb timer_queue \<Rightarrow> (nat list \<times> 'cb timer_queue) outcome" where
  "getExpiredTimers now q =
     andThen (sizes_agree q) (\<lambda>_.
       let edge_entry = (ts_us now, LLONG_MAX);
           due = takeWhile (\<lambda>e. fst e \<le> edge_entry) (tq_list q);
           rest = dropWhile (\<lambda>e. fst e \<le> edge_entry) (tq_list q)
       in andThen
            (if rest = [] then Inr ()
             else andThen (timer_at q (snd (hd rest))) (\<lambda>t.
                    check (ts_greater (tm_expiration t) now) AssertFailed))
            (\<lambda>_. andThen (expire_loop due [] q) (\<lambda>(ret, q1). Inr (ret, q1\<lparr>tq_list := rest\<rparr>))))"

fun run_expired ::
    "((nat \<rightharpoonup> 'cb timer) \<Rightarrow> nat) \<Rightarrow> ('cb \<Rightarrow> 'cb timer_queue \<Rightarrow> 'cb timer_call list) \<Rightarrow> nat list \<Rightarrow>
     'cb timer_queue \<Rightarrow> 'cb timer_queue outcome" where
  "run_expired alloc script [] q = Inr q"
| "run_expired alloc script (p # ps) q =
     andThen (timer_at q p) (\<lambda>t.
       andThen (timer_run alloc script t q) (run_expired alloc script ps))"

text \<open>
  \<open>reset\<close> gives the repeating timers that were not cancelled back to the queue. The result lists
  the timers \<open>expired_timers\<close> still owns; they are deleted with the vector.
\<close>

fun tq_reset ::
    "bool \<Rightarrow> nat list \<Rightarrow> timestamp \<Rightarrow> 'cb timer_queue \<Rightarrow> (nat list \<times> 'cb timer_queue) outcome" where
  "tq_reset in_loop [] now q = Inr ([], q)"
| "tq_reset in_loop (p # ps) now q =
     andThen (timer_at q p) (\<lambda>t.
       if tm_repeat t \<and> (p, tm_sequence t) \<notin> tq_canceling q
       then andThen (tq_insert in_loop p (q\<lparr>tq_heap := (tq_heap q)(p \<mapsto> timer_restart now t)\<rparr>))
              (\<lambda>(_, q1). tq_reset in_loop ps now q1)
       else andThen (tq_reset in_loop ps now q) (\<lambda>(kept, q1). Inr (p # kept, q1)))"

definition delete_timers :: "nat list \<Rightarrow> 'cb timer_queue \<Rightarrow> 'cb timer_queue" where
  "delete_timers ps q = q\<lparr>tq_heap := (\<lambda>p. if p \<in> set ps then None else tq_heap q p)\<rparr>"

definition handleRead ::
    "((nat \<rightharpoonup> 'cb timer) \<Rightarrow> nat) \<Rightarrow> ('cb \<Rightarrow> 'cb timer_queue \<Rightarrow> 'cb timer_call list) \<Rightarrow> bool \<Rightarrow>
     timestamp \<Rightarrow> 'cb timer_queue \<Rightarrow> 'cb timer_queue outcome" where
  "handleRead alloc script in_loop now q =
     (if tq_list q = [] \<or> ts_us now < fst (fst (hd (tq_list q))) then Inr q
      else andThen (sizes_agree q) (\<lambda>_.
        andThen (getExpiredTimers now q) (\<lambda>(expired, q1).
        andThen (run_expired alloc script expired (q1\<lparr>tq_canceling := {}, tq_running := True\<rparr>)) (\<lambda>q2.
        andThen (tq_reset in_loop expired now (q2\<lparr>tq_running := False\<rparr>)) (\<lambda>(kept, q3).
        andThen (sizes_agree q3) (\<lambda>_. Inr (delete_timers kept q3)))))))"

section \<open>The next expiry\<close>

record timespec =
  tv_sec :: int
  tv_nsec :: int

definition howMuchTimeFromNow :: "timestamp \<Rightarrow> timestamp \<Rightarrow> timespec" where
  "howMuchTimeFromNow when now =
     (let us = ts_us when - ts_us now;
          us = (if us < 100 then 100 else us)
      in \<lparr>tv_sec = us div 1000000, tv_nsec = (us mod 1000000) * 1000\<rparr>)"

definition getRecentExpireTime :: "timestamp \<Rightarrow> 'cb timer_queue \<Rightarrow> timespec" where
  "getRecentExpireTime now q =
     (if tq_list q = [] then \<lparr>tv_sec = LLONG_MAX, tv_nsec = 0\<rparr>
      else howMuchTimeFromNow (Timestamp (fst (fst (hd (tq_list q))))) now)"

end
