(* ===== verification/Io_Uring_Loop.thy ===== *)
theory Io_Uring_Loop
  imports Send_Queue Timer_Queue
begin

text \<open>
  \<open>IoUringLoop\<close> (src/IoUringLoop.cc, include/IoUringLoop.h, include/IoContext.h): the event loop,
  its submission of requests with back-pressure, its functor queue and its wake-up. liburing is a
  parameter, the record \<open>uring_api\<close> of the calls the loop makes. An \<open>IoContext*\<close> is the kind of
  the context and the number of the connection or acceptor it belongs to.
\<close>

section \<open>Requests and the ring\<close>

datatype io_context = ReadCtx nat | WriteCtx nat | AcceptCtx nat | WakeupCtx

datatype sqe =
    RecvMultishot int u16 io_context
  | Writev int "iovec list" io_context
  | MultishotAccept int io_context
  | CancelRequest io_context
  | ReadEventfd int

record cqe =
  cqe_user_data :: "io_context option"
  cqe_res :: int
  cqe_flags :: u32

record 'r uring_api =
  ur_sq_space_left :: "'r \<Rightarrow> u32"
  ur_get_sqe :: "'r \<Rightarrow> nat option \<times> 'r"
  ur_prep :: "nat \<Rightarrow> sqe \<Rightarrow> 'r \<Rightarrow> 'r"
  ur_submit :: "'r \<Rightarrow> 'r"

text \<open>
  What the code relies on, from the liburing documentation, for a submission queue of \<open>n\<close> entries:
  \<open>io_uring_get_sqe\<close> returns null exactly when the queue is full, a slot keeps what is prepared in
  it, and \<open>io_uring_submit\<close> hands all acquired slots over in order. \<open>queued\<close> and \<open>handed\<close> observe the
  slots acquired since the last submit and the slots handed over so far.
\<close>

definition uring_laws ::
    "'r uring_api \<Rightarrow> ('r \<Rightarrow> sqe option list) \<Rightarrow> ('r \<Rightarrow> sqe option list) \<Rightarrow> nat \<Rightarrow> bool" where
  "uring_laws U queued handed n \<longleftrightarrow>
     (\<forall>r. length (queued r) \<le> n \<and> unat (ur_sq_space_left U r) = n - length (queued r) \<and>
        (if length (queued r) < n
         then fst (ur_get_sqe U r) = Some (length (queued r)) \<and>
              queued (snd (ur_get_sqe U r)) = queued r @ [None]
         else ur_get_sqe U r = (None, r)) \<and>
        handed (snd (ur_get_sqe U r)) = handed r \<and>
        queued (ur_submit U r) = [] \<and> handed (ur_submit U r) = handed r @ queued r \<and>
        (\<forall>i s. i < length (queued r) \<longrightarrow>
           queued (ur_prep U i s r) = (queued r)[i := Some s] \<and> handed (ur_prep U i s r) = handed r))"

section \<open>The loop\<close>

record ('r, 'f, 'cb) io_loop =
  lp_ring :: 'r
  lp_looping :: bool
  lp_quit :: bool
  lp_time_out :: timespec
  lp_low_water :: size_t
  lp_bgid :: u16
  lp_pending :: "'f list"
  lp_calling :: bool
  lp_wakeup_fd :: int
  lp_eventfd :: nat
  lp_waiting :: "io_context list"
  lp_timers :: "'cb timer_queue"

definition kPollTimeS :: timespec where
  "kPollTimeS = \<lparr>tv_sec = 10, tv_nsec = 0\<rparr>"

text \<open>
  The constructor: \<open>other_loop\<close> is \<open>t_loopInThisThread\<close> of the calling thread, \<open>ring\<close> the result of
  \<open>io_uring_queue_init\<close>, \<open>fd\<close> the eventfd and \<open>bgid\<close> the group of the buffer manager it creates.
\<close>

definition IoUringLoop ::
    "bool \<Rightarrow> 'r \<Rightarrow> int \<Rightarrow> u16 \<Rightarrow> size_t \<Rightarrow> size_t \<Rightarrow> ('r, 'f, 'cb) io_loop outcome" where
  "IoUringLoop other_loop ring fd bgid low_water_mark chunk_num =
     andThen (check (\<not> other_loop) (Exit (- 1))) (\<lambda>_.
     andThen (check (chunk_num AND (chunk_num - 1) = 0) (Exit (- 1))) (\<lambda>_.
       Inr \<lparr>lp_ring = ring, lp_looping = False, lp_quit = False, lp_time_out = kPollTimeS,
            lp_low_water = low_water_mark, lp_bgid = bgid, lp_pending = [], lp_calling = False,
            lp_wakeup_fd = fd, lp_eventfd = 0, lp_waiting = [], lp_timers = TimerQueue\<rparr>))"

definition remainedSqe :: "'r uring_api \<Rightarrow> ('r, 'f, 'cb) io_loop \<Rightarrow> u32" where
  "remainedSqe U l = ur_sq_space_left U (lp_ring l)"

definition getIoUringSqe ::
    "'r uring_api \<Rightarrow> bool \<Rightarrow> ('r, 'f, 'cb) io_loop \<Rightarrow> (nat option \<times> ('r, 'f, 'cb) io_loop) outcome" where
  "getIoUringSqe U force_submit l =
     (case ur_get_sqe U (lp_ring l) of (s, r) \<Rightarrow>
        if s = None \<and> force_submit then
          (case ur_get_sqe U (ur_submit U r) of (s1, r1) \<Rightarrow>
             andThen (check (s1 \<noteq> None) (Exit (- 1))) (\<lambda>_. Inr (s1, l\<lparr>lp_ring := r1\<rparr>)))
        else Inr (s, l\<lparr>lp_ring := r\<rparr>))"

text \<open>Acquiring an entry, asserting that there is one, and preparing a request in it.\<close>

definition submit_sqe ::
    "'r uring_api \<Rightarrow> bool \<Rightarrow> sqe \<Rightarrow> ('r, 'f, 'cb) io_loop \<Rightarrow> ('r, 'f, 'cb) io_loop outcome" where
  "submit_sqe U force_submit request l =
     andThen (getIoUringSqe U force_submit l) (\<lambda>(s, l1).
       case s of
         None \<Rightarrow> Inl AssertFailed
       | Some i \<Rightarrow> Inr (l1\<lparr>lp_ring := ur_prep U i request (lp_ring l1)\<rparr>))"

definition submitReadMultishut_now ::
    "'r uring_api \<Rightarrow> int \<Rightarrow> io_context \<Rightarrow> ('r, 'f, 'cb) io_loop \<Rightarrow> ('r, 'f, 'cb) io_loop outcome" where
  "submitReadMultishut_now U fd ctx l = submit_sqe U False (RecvMultishot fd (lp_bgid l) ctx) l"

definition submitWriteMsg_now ::
    "'r uring_api \<Rightarrow> int \<Rightarrow> iovec list \<Rightarrow> io_context \<Rightarrow> ('r, 'f, 'cb) io_loop \<Rightarrow>
     ('r, 'f, 'cb) io_loop outcome" where
  "submitWriteMsg_now U fd temp_data ctx l = submit_sqe U False (Writev fd temp_data ctx) l"

definition submitAcceptMultishut_now ::
    "'r uring_api \<Rightarrow> int \<Rightarrow> io_context \<Rightarrow> ('r, 'f, 'cb) io_loop \<Rightarrow> ('r, 'f, 'cb) io_loop outcome" where
  "submitAcceptMultishut_now U fd ctx l = submit_sqe U False (MultishotAccept fd ctx) l"

definition below_low_water :: "'r uring_api \<Rightarrow> ('r, 'f, 'cb) io_loop \<Rightarrow> bool" where
  "below_low_water U l \<longleftrightarrow> ucast (remainedSqe U l) < lp_low_water l"

definition submitReadMultishut ::
    "'r uring_api \<Rightarrow> int \<Rightarrow> io_context \<Rightarrow> ('r, 'f, 'cb) io_loop \<Rightarrow> ('r, 'f, 'cb) io_loop outcome" where
  "submitReadMultishut U fd ctx l =
     (if below_low_water U l then Inr (l\<lparr>lp_waiting := lp_waiting l @ [ctx]\<rparr>)
      else submitReadMultishut_now U fd ctx l)"

definition submitWriteMsg ::
    "'r uring_api \<Rightarrow> int \<Rightarrow> iovec list \<Rightarrow> io_context \<Rightarrow> ('r, 'f, 'cb) io_loop \<Rightarrow>
     ('r, 'f, 'cb) io_loop outcome" where
  "submitWriteMsg U fd temp_data ctx l =
     (if below_low_water U l then Inr (l\<lparr>lp_waiting := lp_waiting l @ [ctx]\<rparr>)
      else submitWriteMsg_now U fd temp_data ctx l)"

definition submitAcceptMultishut ::
    "'r uring_api \<Rightarrow> int \<Rightarrow> io_context \<Rightarrow> ('r, 'f, 'cb) io_loop \<Rightarrow> ('r, 'f, 'cb) io_loop outcome" where
  "submitAcceptMultishut U fd ctx l =
     (if below_low_water U l then Inr (l\<lparr>lp_waiting := lp_waiting l @ [ctx]\<rparr>)
      else submitAcceptMultishut_now U fd ctx l)"

definition submitCancel ::
    "'r uring_api \<Rightarrow> io_context \<Rightarrow> ('r, 'f, 'cb) io_loop \<Rightarrow> ('r, 'f, 'cb) io_loop outcome" where
  "submitCancel U ctx l =
     andThen (submit_sqe U True (CancelRequest ctx) l) (\<lambda>l1.
       Inr (l1\<lparr>lp_ring := ur_submit U (lp_ring l1)\<rparr>))"

text \<open>\<open>on_completion\<close> of the loop itself: read the eventfd again.\<close>

definition loop_on_completion ::
    "'r uring_api \<Rightarrow> ('r, 'f, 'cb) io_loop \<Rightarrow> ('r, 'f, 'cb) io_loop outcome" where
  "loop_on_completion U l = submit_sqe U True (ReadEventfd (lp_wakeup_fd l)) l"

text \<open>
  The requests kept back are submitted later; \<open>fds\<close> and \<open>datas\<close> read the descriptor and the iovecs
  of a context at that time. A context of another kind is skipped, as by the \<open>switch\<close>.
\<close>

fun submit_waiting ::
    "'r uring_api \<Rightarrow> (io_context \<Rightarrow> int) \<Rightarrow> (io_context \<Rightarrow> iovec list) \<Rightarrow> io_context \<Rightarrow>
     ('r, 'f, 'cb) io_loop \<Rightarrow> ('r, 'f, 'cb) io_loop outcome" where
  "submit_waiting U fds datas (ReadCtx c) l =
     submitReadMultishut_now U (fds (ReadCtx c)) (ReadCtx c) l"
| "submit_waiting U fds datas (WriteCtx c) l =
     submitWriteMsg_now U (fds (WriteCtx c)) (datas (WriteCtx c)) (WriteCtx c) l"
| "submit_waiting U fds datas (AcceptCtx c) l =
     submitAcceptMultishut_now U (fds (AcceptCtx c)) (AcceptCtx c) l"
| "submit_waiting U fds datas WakeupCtx l = Inr l"

function waiting_loop ::
    "'r uring_api \<Rightarrow> (io_context \<Rightarrow> int) \<Rightarrow> (io_context \<Rightarrow> iovec list) \<Rightarrow> nat \<Rightarrow>
     ('r, 'f, 'cb) io_loop \<Rightarrow> ('r, 'f, 'cb) io_loop outcome" where
  "waiting_loop U fds datas processed l =
     (if lp_waiting l \<noteq> [] \<and> lp_low_water l < ucast (remainedSqe U l) \<and> processed < 100 then
        andThen (submit_waiting U fds datas (hd (lp_waiting l)) l) (\<lambda>l1.
          waiting_loop U fds datas (processed + 1) (l1\<lparr>lp_waiting := tl (lp_waiting l1)\<rparr>))
      else Inr l)"
  by pat_completeness auto
termination by (relation "measure (\<lambda>(U, fds, datas, processed, l). 100 - processed)") auto

declare waiting_loop.simps [simp del]

definition doingSubmitWaitingTask ::
    "'r uring_api \<Rightarrow> (io_context \<Rightarrow> int) \<Rightarrow> (io_context \<Rightarrow> iovec list) \<Rightarrow>
     ('r, 'f, 'cb) io_loop \<Rightarrow> ('r, 'f, 'cb) io_loop outcome" where
  "doingSubmitWaitingTask U fds datas l = waiting_loop U fds datas 0 l"

definition getTimeOutPeriod :: "timestamp \<Rightarrow> ('r, 'f, 'cb) io_loop \<Rightarrow> timespec" where
  "getTimeOutPeriod now l =
     (let expired_time = getRecentExpireTime now (lp_timers l);
          ts = lp_time_out l
      in if tv_sec expired_time < tv_sec (lp_time_out l)
         then ts\<lparr>tv_sec := tv_sec expired_time, tv_nsec := tv_nsec expired_time\<rparr> else ts)"

section \<open>Functors and wake-up\<close>

text \<open>
  The eventfd is a 64-bit counter; the descriptor is non-blocking, so a write that would bring the
  counter to its maximum fails and is only logged.
\<close>

definition wakeUp :: "('r, 'f, 'cb) io_loop \<Rightarrow> ('r, 'f, 'cb) io_loop" where
  "wakeUp l = (if lp_eventfd l + 1 < 2 ^ 64 - 1 then l\<lparr>lp_eventfd := lp_eventfd l + 1\<rparr> else l)"

text \<open>\<open>queueInLoop\<close> in its two parts: the append under the lock, then the wake-up if it is needed.\<close>

definition queue_push :: "'f \<Rightarrow> ('r, 'f, 'cb) io_loop \<Rightarrow> ('r, 'f, 'cb) io_loop" where
  "queue_push cb l = l\<lparr>lp_pending := lp_pending l @ [cb]\<rparr>"

definition queue_wake :: "bool \<Rightarrow> ('r, 'f, 'cb) io_loop \<Rightarrow> ('r, 'f, 'cb) io_loop" where
  "queue_wake in_loop l = (if \<not> in_loop \<or> lp_calling l then wakeUp l else l)"

definition queueInLoop :: "bool \<Rightarrow> 'f \<Rightarrow> ('r, 'f, 'cb) io_loop \<Rightarrow> ('r, 'f, 'cb) io_loop" where
  "queueInLoop in_loop cb l = queue_wake in_loop (queue_push cb l)"

text \<open>\<open>exec\<close> runs a functor; it may change the loop and the rest of the program, \<open>'w\<close>.\<close>

definition runInLoop ::
    "('f \<Rightarrow> ('r, 'f, 'cb) io_loop \<times> 'w \<Rightarrow> (('r, 'f, 'cb) io_loop \<times> 'w) outcome) \<Rightarrow> bool \<Rightarrow> 'f \<Rightarrow>
     ('r, 'f, 'cb) io_loop \<times> 'w \<Rightarrow> (('r, 'f, 'cb) io_loop \<times> 'w) outcome" where
  "runInLoop exec in_loop cb s =
     (if in_loop then exec cb s else Inr (queueInLoop in_loop cb (fst s), snd s))"

definition quit_set :: "('r, 'f, 'cb) io_loop \<Rightarrow> ('r, 'f, 'cb) io_loop" where
  "quit_set l = l\<lparr>lp_quit := True\<rparr>"

definition quit :: "bool \<Rightarrow> ('r, 'f, 'cb) io_loop \<Rightarrow> ('r, 'f, 'cb) io_loop" where
  "quit in_loop l =
     (let l1 = quit_set l in if \<not> in_loop then wakeUp l1 else l1)"

definition take_pending :: "('r, 'f, 'cb) io_loop \<Rightarrow> 'f list \<times> ('r, 'f, 'cb) io_loop" where
  "take_pending l = (lp_pending l, l\<lparr>lp_calling := True, lp_pending := []\<rparr>)"

fun run_functors ::
    "('f \<Rightarrow> ('r, 'f, 'cb) io_loop \<times> 'w \<Rightarrow> (('r, 'f, 'cb) io_loop \<times> 'w) outcome) \<Rightarrow> 'f list \<Rightarrow>
     ('r, 'f, 'cb) io_loop \<times> 'w \<Rightarrow> (('r, 'f, 'cb) io_loop \<times> 'w) outcome" where
  "run_functors exec [] s = Inr s"
| "run_functors exec (f # fs) s = andThen (exec f s) (run_functors exec fs)"

definition doingPendingFunctors ::
    "('f \<Rightarrow> ('r, 'f, 'cb) io_loop \<times> 'w \<Rightarrow> (('r, 'f, 'cb) io_loop \<times> 'w) outcome) \<Rightarrow>
     ('r, 'f, 'cb) io_loop \<times> 'w \<Rightarrow> (('r, 'f, 'cb) io_loop \<times> 'w) outcome" where
  "doingPendingFunctors exec s =
     (case take_pending (fst s) of (tasks, l) \<Rightarrow>
        andThen (run_functors exec tasks (l, snd s)) (\<lambda>(l1, w1).
          Inr (l1\<lparr>lp_calling := False\<rparr>, w1)))"

section \<open>Timers of the loop\<close>

definition runAt ::
    "((nat \<rightharpoonup> 'cb timer) \<Rightarrow> nat) \<Rightarrow> timestamp \<Rightarrow> 'cb option \<Rightarrow> 'cb timer_queue \<Rightarrow>
     timer_task \<times> (nat \<times> int) \<times> 'cb timer_queue" where
  "runAt alloc when cb q = addTimer alloc cb when (Double 0 0) q"

definition runAfter ::
    "((nat \<rightharpoonup> 'cb timer) \<Rightarrow> nat) \<Rightarrow> timestamp \<Rightarrow> double \<Rightarrow> 'cb option \<Rightarrow> 'cb timer_queue \<Rightarrow>
     timer_task \<times> (nat \<times> int) \<times> 'cb timer_queue" where
  "runAfter alloc now delay cb q = addTimer alloc cb (addTime now delay) (Double 0 0) q"

definition runEveny ::
    "((nat \<rightharpoonup> 'cb timer) \<Rightarrow> nat) \<Rightarrow> timestamp \<Rightarrow> double \<Rightarrow> 'cb option \<Rightarrow> 'cb timer_queue \<Rightarrow>
     timer_task \<times> (nat \<times> int) \<times> 'cb timer_queue" where
  "runEveny alloc now interval cb q = addTimer alloc cb (addTime now interval) interval q"

definition loop_cancel :: "nat \<times> int \<Rightarrow> timer_task" where
  "loop_cancel timer_id = cancelTimer timer_id"

section \<open>One round of the loop\<close>

text \<open>
  The dispatch of the completions: \<open>complete\<close> stores the result in the context and calls its
  \<open>on_completion\<close>. A completion without user data belongs to a cancel request and is skipped.
\<close>

fun dispatch ::
    "(io_context \<Rightarrow> int \<Rightarrow> u32 \<Rightarrow> 's \<Rightarrow> 's outcome) \<Rightarrow> cqe list \<Rightarrow> 's \<Rightarrow> 's outcome" where
  "dispatch complete [] s = Inr s"
| "dispatch complete (c # cs) s =
     (case cqe_user_data c of
        None \<Rightarrow> dispatch complete cs s
      | Some ctx \<Rightarrow> andThen (complete ctx (cqe_res c) (cqe_flags c) s) (dispatch complete cs))"

text \<open>
  The body of \<open>while (!quit_)\<close> after \<open>io_uring_submit\<close>: the completions are those the kernel has put in
  the completion queue when the loop peeks, at once or after waiting for \<open>getTimeOutPeriod\<close>; \<open>now\<close>
  is the time \<open>handleRead\<close> reads.
\<close>

definition loop_round ::
    "'r uring_api \<Rightarrow> ((nat \<rightharpoonup> 'cb timer) \<Rightarrow> nat) \<Rightarrow> ('cb \<Rightarrow> 'cb timer_queue \<Rightarrow> 'cb timer_call list) \<Rightarrow>
     (io_context \<Rightarrow> int \<Rightarrow> u32 \<Rightarrow> ('r, 'f, 'cb) io_loop \<times> 'w \<Rightarrow> (('r, 'f, 'cb) io_loop \<times> 'w) outcome) \<Rightarrow>
     ('w \<Rightarrow> io_context \<Rightarrow> int) \<Rightarrow> ('w \<Rightarrow> io_context \<Rightarrow> iovec list) \<Rightarrow>
     ('f \<Rightarrow> ('r, 'f, 'cb) io_loop \<times> 'w \<Rightarrow> (('r, 'f, 'cb) io_loop \<times> 'w) outcome) \<Rightarrow>
     timestamp \<Rightarrow> cqe list \<Rightarrow> ('r, 'f, 'cb) io_loop \<times> 'w \<Rightarrow> (('r, 'f, 'cb) io_loop \<times> 'w) outcome" where
  "loop_round U alloc script complete fds datas exec now cqes s =
     andThen (handleRead alloc script True now (lp_timers (fst s))) (\<lambda>q.
     andThen (dispatch complete cqes ((fst s)\<lparr>lp_timers := q\<rparr>, snd s)) (\<lambda>(l, w).
     andThen (doingSubmitWaitingTask U (fds w) (datas w) l) (\<lambda>l1.
       doingPendingFunctors exec (l1, w))))"

text \<open>The start of \<open>loop\<close>: it returns at once when \<open>quit_\<close> is set.\<close>

definition loop_started :: "('r, 'f, 'cb) io_loop \<Rightarrow> ('r, 'f, 'cb) io_loop" where
  "loop_started l = l\<lparr>lp_looping := True, lp_quit := False\<rparr>"

definition loop_enter ::
    "'r uring_api \<Rightarrow> ('r, 'f, 'cb) io_loop \<Rightarrow> (bool \<times> ('r, 'f, 'cb) io_loop) outcome" where
  "loop_enter U l =
     (if lp_quit l then Inr (False, l)
      else andThen (loop_on_completion U l) (\<lambda>l1.
        Inr (True, loop_started l1)))"

text \<open>
  \<open>loop\<close> over the completions and times its rounds see; it ends at the first round that finds
  \<open>quit_\<close> set. Running out of rounds leaves the loop running, with \<open>lp_looping\<close> set.
\<close>

fun loop_rounds ::
    "'r uring_api \<Rightarrow> (timestamp \<Rightarrow> cqe list \<Rightarrow> ('r, 'f, 'cb) io_loop \<times> 'w \<Rightarrow>
       (('r, 'f, 'cb) io_loop \<times> 'w) outcome) \<Rightarrow>
     (timestamp \<times> cqe list) list \<Rightarrow> ('r, 'f, 'cb) io_loop \<times> 'w \<Rightarrow>
     (('r, 'f, 'cb) io_loop \<times> 'w) outcome" where
  "loop_rounds U round rounds (l, w) =
     (if lp_quit l then Inr (l\<lparr>lp_looping := False\<rparr>, w)
      else case rounds of
             [] \<Rightarrow> Inr (l, w)
           | (now, cqes) # rs \<Rightarrow>
               andThen (round now cqes (l\<lparr>lp_ring := ur_submit U (lp_ring l)\<rparr>, w))
                 (loop_rounds U round rs))"

definition loop ::
    "'r uring_api \<Rightarrow> (timestamp \<Rightarrow> cqe list \<Rightarrow> ('r, 'f, 'cb) io_loop \<times> 'w \<Rightarrow>
       (('r, 'f, 'cb) io_loop \<times> 'w) outcome) \<Rightarrow>
     (timestamp \<times> cqe list) list \<Rightarrow> ('r, 'f, 'cb) io_loop \<times> 'w \<Rightarrow>
     (('r, 'f, 'cb) io_loop \<times> 'w) outcome" where
  "loop U round rounds s =
     andThen (loop_enter U (fst s)) (\<lambda>(entered, l).
       if entered then loop_rounds U round rounds (l, snd s) else Inr (l, snd s))"

end
