(* ===== verification/Timer_Correctness.thy ===== *)
theory Timer_Correctness
  imports Timer_Queue
begin

text \<open>
  Correctness of the timer queue: the list, the active set and the timers on the heap agree, no
  assertion fails and no dangling timer is touched, whatever the callbacks do; exactly the due
  timers fire, in order; a cancelled timer is not rearmed.
\<close>

section \<open>Ordered maps\<close>

abbreviation keys_sorted :: "('k::linorder \<times> 'v) list \<Rightarrow> bool" where
  "keys_sorted xs \<equiv> sorted_wrt (<) (map fst xs)"

lemma map_put_set:
  "keys_sorted xs \<Longrightarrow> k \<notin> fst ` set xs \<Longrightarrow> set (map_put k v xs) = insert (k, v) (set xs)"
  by (induction k v xs rule: map_put.induct) auto

lemma map_put_keys: "fst ` set (map_put k v xs) = insert k (fst ` set xs)"
  by (induction k v xs rule: map_put.induct) auto

lemma map_put_sorted: "keys_sorted xs \<Longrightarrow> keys_sorted (map_put k v xs)"
proof (induction k v xs rule: map_put.induct)
  case (2 k v k' v' xs)
  then show ?case
    using map_put_keys [of k v xs] by (fastforce simp: image_iff)
qed simp

lemma map_put_length:
  "keys_sorted xs \<Longrightarrow> k \<notin> fst ` set xs \<Longrightarrow> length (map_put k v xs) = Suc (length xs)"
  by (induction k v xs rule: map_put.induct) auto

lemma keys_sorted_distinct: "keys_sorted xs \<Longrightarrow> distinct (map fst xs)"
  by (simp add: strict_sorted_iff)

lemma keys_sorted_head:
  "keys_sorted xs \<Longrightarrow> e \<in> set xs \<Longrightarrow> fst (hd xs) \<le> fst e"
  by (cases xs) auto

lemma map_of_sorted: "keys_sorted xs \<Longrightarrow> (k, v) \<in> set xs \<Longrightarrow> map_of xs k = Some v"
  by (intro map_of_is_SomeI keys_sorted_distinct)

lemma map_erase_set: "set (map_erase k xs) = {e \<in> set xs. fst e \<noteq> k}"
  by (auto simp: map_erase_def)

lemma map_erase_sorted: "keys_sorted xs \<Longrightarrow> keys_sorted (map_erase k xs)"
  by (induction xs) (auto simp: map_erase_def)

text \<open>\<open>upper_bound\<close> splits a sorted list at a key.\<close>

lemma takeWhile_sorted:
  "keys_sorted xs \<Longrightarrow> takeWhile (\<lambda>e. fst e \<le> k) xs = filter (\<lambda>e. fst e \<le> k) xs"
proof (induction xs)
  case (Cons x xs)
  have "filter (\<lambda>e. fst e \<le> k) xs = []" if "\<not> fst x \<le> k"
    using Cons.prems that by (auto simp: filter_empty_conv)
  with Cons show ?case by auto
qed simp

lemma dropWhile_sorted:
  "keys_sorted xs \<Longrightarrow> dropWhile (\<lambda>e. fst e \<le> k) xs = filter (\<lambda>e. \<not> fst e \<le> k) xs"
proof (induction xs)
  case (Cons x xs)
  have "filter (\<lambda>e. \<not> fst e \<le> k) xs = xs" if "\<not> fst x \<le> k"
    using Cons.prems that by (auto simp: filter_id_conv)
  with Cons show ?case by auto
qed simp

section \<open>The invariant\<close>

text \<open>
  \<open>tq_inv q P\<close>: the list is sorted and every entry points to a live timer with that expiration and
  sequence number; the active set holds exactly the listed timers; \<open>P\<close> are the other live timers,
  created or expired and in no list; sequence numbers are unique and below the counter.
\<close>

definition timer_ids :: "(nat \<rightharpoonup> 'cb timer) \<Rightarrow> int \<Rightarrow> bool" where
  "timer_ids h n \<longleftrightarrow>
     (\<forall>p t. h p = Some t \<longrightarrow> tm_sequence t < n) \<and>
     (\<forall>p p' t t'. h p = Some t \<longrightarrow> h p' = Some t' \<longrightarrow> tm_sequence t = tm_sequence t' \<longrightarrow> p = p')"

definition tq_inv :: "'cb timer_queue \<Rightarrow> nat set \<Rightarrow> bool" where
  "tq_inv q P \<longleftrightarrow>
     keys_sorted (tq_list q) \<and>
     (\<forall>e\<in>set (tq_list q). \<exists>t. tq_heap q (snd e) = Some t \<and> fst e = timer_entry_of t) \<and>
     tq_active q = (\<lambda>e. (snd e, snd (fst e))) ` set (tq_list q) \<and>
     dom (tq_heap q) = snd ` set (tq_list q) \<union> P \<and> P \<inter> snd ` set (tq_list q) = {} \<and>
     timer_ids (tq_heap q) (tq_sequence q) \<and> finite P \<and> tq_sequence q \<le> LLONG_MAX"

lemma tq_inv_new: "tq_inv TimerQueue {}"
  by (simp add: tq_inv_def timer_ids_def TimerQueue_def LLONG_MAX_def)

lemma timer_ids_remove: "timer_ids h n \<Longrightarrow> timer_ids (h(p := None)) n"
  by (auto simp: timer_ids_def)

lemma timer_ids_new:
  "timer_ids h n \<Longrightarrow> n < n' \<Longrightarrow> tm_sequence t = n \<Longrightarrow> timer_ids (h(p \<mapsto> t)) n'"
  unfolding timer_ids_def by (auto split: if_splits) (fastforce | meson less_trans)+

lemma timer_ids_update:
  "timer_ids h n \<Longrightarrow> h p = Some t \<Longrightarrow> tm_sequence t' = tm_sequence t \<Longrightarrow> timer_ids (h(p \<mapsto> t')) n"
  by (simp add: timer_ids_def) metis

lemma tq_inv_bound: "tq_inv q P \<Longrightarrow> tq_heap q p = Some t \<Longrightarrow> tm_sequence t < tq_sequence q"
  unfolding tq_inv_def timer_ids_def by blast

lemma tq_inv_unique:
  "tq_inv q P \<Longrightarrow> tq_heap q p = Some t \<Longrightarrow> tq_heap q p' = Some t' \<Longrightarrow>
   tm_sequence t = tm_sequence t' \<Longrightarrow> p = p'"
  unfolding tq_inv_def timer_ids_def by blast

lemma tq_inv_entry:
  assumes "tq_inv q P" and "e \<in> set (tq_list q)"
  obtains t where "tq_heap q (snd e) = Some t" and "fst e = timer_entry_of t"
    and "(snd e, tm_sequence t) \<in> tq_active q" and "tm_sequence t < tq_sequence q"
proof -
  from assms obtain t where t: "tq_heap q (snd e) = Some t" "fst e = timer_entry_of t"
    unfolding tq_inv_def by blast
  moreover have "(snd e, snd (fst e)) \<in> tq_active q" using assms by (auto simp: tq_inv_def)
  moreover have "tm_sequence t < tq_sequence q" using tq_inv_bound [OF assms(1) t(1)] .
  ultimately show thesis using that t(2) by (simp add: timer_entry_of_def)
qed

text \<open>Listed timers have distinct addresses, hence the two sizes agree.\<close>

lemma tq_inv_inj: "tq_inv q P \<Longrightarrow> inj_on snd (set (tq_list q))"
  by (rule inj_onI) (metis option.inject prod.expand tq_inv_def)

lemma tq_inv_card: "tq_inv q P \<Longrightarrow> card (tq_active q) = length (tq_list q)"
proof -
  assume inv: "tq_inv q P"
  have "inj_on (\<lambda>e. (snd e, snd (fst e))) (set (tq_list q))"
    using tq_inv_inj [OF inv] by (auto simp: inj_on_def)
  then have "card (tq_active q) = card (set (tq_list q))"
    using inv by (simp add: tq_inv_def card_image)
  also have "\<dots> = length (tq_list q)"
    using inv keys_sorted_distinct [of "tq_list q"]
    by (simp add: tq_inv_def distinct_card distinct_map)
  finally show ?thesis .
qed

lemma tq_inv_sizes: "tq_inv q P \<Longrightarrow> sizes_agree q = Inr ()"
  by (simp add: sizes_agree_def tq_inv_card)

lemma tq_inv_pending: "tq_inv q P \<Longrightarrow> p \<in> P \<Longrightarrow> \<exists>t. tq_heap q p = Some t"
  unfolding tq_inv_def by (metis UnI2 domD)

lemma tq_inv_inactive: "tq_inv q P \<Longrightarrow> fst d \<in> P \<Longrightarrow> d \<notin> tq_active q"
  by (auto simp: tq_inv_def image_iff) (metis IntI emptyE image_eqI snd_conv)

lemma timer_at_Some [simp]: "tq_heap q p = Some t \<Longrightarrow> timer_at q p = Inr t"
  by (simp add: timer_at_def)

text \<open>Only these four fields matter.\<close>

lemma tq_inv_flags [simp]:
  "tq_inv (q\<lparr>tq_canceling := c\<rparr>) P = tq_inv q P"
  "tq_inv (q\<lparr>tq_running := r\<rparr>) P = tq_inv q P"
  by (simp_all add: tq_inv_def)

section \<open>Single operations\<close>

lemma tq_insert_ok:
  assumes inv: "tq_inv q P" and p: "p \<in> P" "tq_heap q p = Some t"
  shows "\<exists>b q'. tq_insert True p q = Inr (b, q') \<and> tq_inv q' (P - {p}) \<and>
    q' = q\<lparr>tq_list := map_put (timer_entry_of t) p (tq_list q),
           tq_active := insert (p, tm_sequence t) (tq_active q)\<rparr> \<and>
    set (tq_list q') = insert (timer_entry_of t, p) (set (tq_list q))"
proof -
  let ?k = "timer_entry_of t"
  have nin: "p \<notin> snd ` set (tq_list q)" and srt: "keys_sorted (tq_list q)"
    using inv p(1) by (auto simp: tq_inv_def)
  have key: "?k \<notin> fst ` set (tq_list q)"
  proof
    assume "?k \<in> fst ` set (tq_list q)"
    then obtain e where e: "e \<in> set (tq_list q)" "fst e = ?k" by auto
    from tq_inv_entry [OF inv e(1)] obtain t' where t': "tq_heap q (snd e) = Some t'"
      "fst e = timer_entry_of t'" by blast
    then have "tm_sequence t' = tm_sequence t" using e(2) by (simp add: timer_entry_of_def)
    then have "snd e = p" using tq_inv_unique [OF inv t'(1) p(2)] by simp
    then show False using e(1) nin by auto
  qed
  then have mo: "map_of (tq_list q) ?k = None" by (simp add: map_of_eq_None_iff)
  let ?q = "q\<lparr>tq_list := map_put ?k p (tq_list q),
    tq_active := insert (p, tm_sequence t) (tq_active q)\<rparr>"
  have new: "(p, tm_sequence t) \<notin> tq_active q" using inv nin by (auto simp: tq_inv_def)
  have st: "set (tq_list ?q) = insert (?k, p) (set (tq_list q))"
    using map_put_set [OF srt key] by simp
  have inv': "tq_inv ?q (P - {p})"
    using inv p nin map_put_sorted [OF srt] st
    unfolding tq_inv_def by (auto simp: timer_entry_of_def)
  have "tq_heap q = (case map_of (tq_list q) ?k of None \<Rightarrow> tq_heap q | Some old \<Rightarrow> (tq_heap q)(old := None))"
    using mo by simp
  then have "\<exists>b. tq_insert True p q = Inr (b, ?q)"
    using p(2) new mo tq_inv_sizes [OF inv] tq_inv_sizes [OF inv']
    by (simp add: tq_insert_def Let_def timer_entry_of_def)
  then show ?thesis using inv' st by auto
qed

text \<open>Changing the expiration of a timer that is in no list keeps the invariant.\<close>

lemma tq_inv_retime:
  assumes inv: "tq_inv q P" and p: "p \<in> P" and t: "tq_heap q p = Some t"
  shows "tq_inv (q\<lparr>tq_heap := (tq_heap q)(p \<mapsto> timer_restart now t)\<rparr>) P" (is "tq_inv ?q P")
proof -
  have "\<forall>e\<in>set (tq_list q). snd e \<noteq> p" using inv p by (auto simp: tq_inv_def)
  then have "\<forall>e\<in>set (tq_list ?q). \<exists>t. tq_heap ?q (snd e) = Some t \<and> fst e = timer_entry_of t"
    using inv by (simp add: tq_inv_def)
  moreover have "timer_ids (tq_heap ?q) (tq_sequence ?q)"
    using inv t by (auto simp: tq_inv_def timer_restart_def intro!: timer_ids_update)
  moreover have "dom (tq_heap ?q) = dom (tq_heap q)" using t by auto
  ultimately show ?thesis using inv unfolding tq_inv_def by simp
qed

lemma tq_erase_ok:
  assumes inv: "tq_inv q P"
  shows "\<exists>b q'. tq_erase d q = Inr (b, q') \<and> tq_inv q' P \<and> (b \<longleftrightarrow> d \<in> tq_active q) \<and>
    (\<not> b \<longrightarrow> q' = q) \<and>
    (b \<longrightarrow> tq_heap q' = (tq_heap q)(fst d := None) \<and> fst d \<notin> P \<and>
       set (tq_list q') = {e \<in> set (tq_list q). snd e \<noteq> fst d}) \<and>
    tq_running q' = tq_running q \<and> tq_canceling q' = tq_canceling q \<and>
    tq_sequence q' = tq_sequence q"
proof (cases "d \<in> tq_active q")
  case False
  with inv show ?thesis by (intro exI [of _ False] exI [of _ q]) (simp add: tq_erase_def)
next
  case True
  then obtain e where e: "e \<in> set (tq_list q)" "d = (snd e, snd (fst e))"
    using inv by (auto simp: tq_inv_def)
  obtain t where t: "tq_heap q (snd e) = Some t" "fst e = timer_entry_of t"
    using tq_inv_entry [OF inv e(1)] by blast
  have srt: "keys_sorted (tq_list q)" using inv by (simp add: tq_inv_def)
  have same: "e' = e" if "e' \<in> set (tq_list q)" "fst e' = fst e \<or> snd e' = snd e" for e'
    using that e(1) tq_inv_inj [OF inv] keys_sorted_distinct [OF srt]
    by (metis eq_key_imp_eq_value inj_onD prod.collapse)
  let ?q = "q\<lparr>tq_heap := (tq_heap q)(snd e := None), tq_active := tq_active q - {d},
    tq_list := map_erase (fst e) (tq_list q)\<rparr>"
  have st: "set (tq_list ?q) = set (tq_list q) - {e}"
    using same by (auto simp: map_erase_set)
  have st': "set (tq_list ?q) = {e' \<in> set (tq_list q). snd e' \<noteq> snd e}"
    using same by (auto simp: map_erase_set)
  have act: "tq_active ?q = (\<lambda>e. (snd e, snd (fst e))) ` set (tq_list ?q)"
    using inv same e unfolding st by (auto simp: tq_inv_def)
  have ents: "\<forall>e'\<in>set (tq_list ?q). \<exists>t. tq_heap ?q (snd e') = Some t \<and> fst e' = timer_entry_of t"
    unfolding st' using inv by (auto simp: tq_inv_def)
  have doms: "dom (tq_heap ?q) = snd ` set (tq_list ?q) \<union> P" "P \<inter> snd ` set (tq_list ?q) = {}"
    unfolding st' using inv e(1) by (auto simp: tq_inv_def)
  have "tq_inv ?q P"
    unfolding tq_inv_def
    using inv act ents doms map_erase_sorted [OF srt, of "fst e"]
    by (simp add: tq_inv_def timer_ids_remove)
  moreover have "map_of (tq_list q) (timer_entry_of t) = Some (snd e)"
    using e(1) t(2) map_of_sorted [OF srt] by (metis prod.collapse)
  then have "tq_erase d q = Inr (True, ?q)"
    using True t e(2) by (simp add: tq_erase_def Let_def)
  moreover have "snd e \<notin> P" using inv e(1) by (auto simp: tq_inv_def)
  ultimately show ?thesis using True st' e(2) by (auto simp del: map_erase_set)
qed

lemma tq_inv_finite: "tq_inv q P \<Longrightarrow> finite (dom (tq_heap q))"
  by (simp add: tq_inv_def)

text \<open>\<open>operator new\<close> returns an address that is not in use.\<close>

definition alloc_ok :: "((nat \<rightharpoonup> 'cb timer) \<Rightarrow> nat) \<Rightarrow> bool" where
  "alloc_ok alloc \<longleftrightarrow> (\<forall>h. finite (dom h) \<longrightarrow> alloc h \<notin> dom h)"

lemma addTimer_ok:
  assumes inv: "tq_inv q P" and al: "alloc_ok alloc" and room: "tq_sequence q < LLONG_MAX"
  shows "\<exists>p q'. addTimer alloc cb when interval q = (AddTimerInLoop p, (p, tq_sequence q), q') \<and>
    p \<notin> dom (tq_heap q) \<and> tq_inv q' (insert p P) \<and>
    q' = q\<lparr>tq_heap := (tq_heap q)(p \<mapsto> Timer cb when interval (tq_sequence q)),
           tq_sequence := tq_sequence q + 1\<rparr>"
proof -
  let ?p = "alloc (tq_heap q)" and ?t = "Timer cb when interval (tq_sequence q)"
  let ?q = "q\<lparr>tq_heap := (tq_heap q)(?p \<mapsto> ?t), tq_sequence := tq_sequence q + 1\<rparr>"
  have np: "?p \<notin> dom (tq_heap q)" using al tq_inv_finite [OF inv] by (simp add: alloc_ok_def)
  then have nl: "?p \<notin> snd ` set (tq_list q)" using inv by (auto simp: tq_inv_def)
  have "timer_ids (tq_heap ?q) (tq_sequence ?q)"
    using inv by (auto simp: tq_inv_def Timer_def intro!: timer_ids_new)
  moreover have "\<forall>e\<in>set (tq_list ?q). \<exists>t. tq_heap ?q (snd e) = Some t \<and> fst e = timer_entry_of t"
    using inv nl by (auto simp: tq_inv_def image_iff)
  ultimately have "tq_inv ?q (insert ?p P)"
    using inv nl room by (simp add: tq_inv_def)
  then show ?thesis
    using np room by (simp add: addTimer_def Let_def next_sequence_def Timer_def)
qed

text \<open>What callbacks leave alone: the timers outside the list, and cancellations already noted.\<close>

definition timer_frame :: "nat set \<Rightarrow> 'cb timer_queue \<Rightarrow> 'cb timer_queue \<Rightarrow> bool" where
  "timer_frame P q q' \<longleftrightarrow>
     (\<forall>p\<in>P. tq_heap q' p = tq_heap q p) \<and> tq_running q' = tq_running q \<and>
     tq_canceling q \<subseteq> tq_canceling q' \<and> tq_sequence q \<le> tq_sequence q'"

lemma timer_frame_refl [simp]: "timer_frame P q q"
  by (simp add: timer_frame_def)

lemma timer_frame_trans: "timer_frame P q q1 \<Longrightarrow> timer_frame P q1 q2 \<Longrightarrow> timer_frame P q q2"
  unfolding timer_frame_def by auto

lemma cancelTimerInLoop_ok:
  assumes inv: "tq_inv q P"
  shows "\<exists>q'. cancelTimerInLoop True d q = Inr q' \<and> tq_inv q' P \<and> timer_frame P q q' \<and>
    tq_sequence q' = tq_sequence q \<and> d \<notin> tq_active q' \<and>
    (\<forall>p. p \<noteq> fst d \<longrightarrow> tq_heap q' p = tq_heap q p) \<and>
    (d \<in> tq_active q \<longrightarrow> tq_heap q' (fst d) = None) \<and>
    (d \<notin> tq_active q \<longrightarrow> tq_heap q' = tq_heap q \<and> tq_list q' = tq_list q) \<and>
    (tq_running q \<and> d \<notin> tq_active q \<longrightarrow> d \<in> tq_canceling q')"
proof -
  obtain b q1 where e: "tq_erase d q = Inr (b, q1)" "tq_inv q1 P" "b \<longleftrightarrow> d \<in> tq_active q"
    "\<not> b \<Longrightarrow> q1 = q"
    "b \<Longrightarrow> tq_heap q1 = (tq_heap q)(fst d := None) \<and> fst d \<notin> P"
    "tq_running q1 = tq_running q" "tq_canceling q1 = tq_canceling q"
    "tq_sequence q1 = tq_sequence q"
    using tq_erase_ok [OF inv, of d] by blast
  let ?q = "if \<not> b \<and> tq_running q1
    then q1\<lparr>tq_canceling := insert d (tq_canceling q1)\<rparr> else q1"
  have inv': "tq_inv ?q P" using e(2) by simp
  have "cancelTimerInLoop True d q = Inr ?q"
    using e(1) tq_inv_sizes [OF inv] tq_inv_sizes [OF inv']
    by (auto simp: cancelTimerInLoop_def Let_def)
  moreover have "d \<notin> tq_active ?q"
  proof (cases b)
    case True
    then have "tq_heap q1 (fst d) = None" using e(5) by simp
    then have "fst d \<notin> snd ` set (tq_list q1)" using e(2) unfolding tq_inv_def by auto
    then show ?thesis using e(2) True by (auto simp: tq_inv_def image_iff)
  next
    case False
    then show ?thesis using e(3,4) by simp
  qed
  moreover have "timer_frame P q ?q" using e(4-8) by (cases b) (auto simp: timer_frame_def)
  ultimately show ?thesis
    using inv' e by (intro exI [of _ ?q] conjI) (cases b; simp)+
qed

lemma addTimerInLoop_ok:
  assumes "tq_inv q P" and "p \<in> P"
  shows "\<exists>q'. addTimerInLoop True p q = Inr q' \<and> tq_inv q' (P - {p}) \<and> tq_heap q' = tq_heap q \<and>
    tq_running q' = tq_running q \<and> tq_canceling q' = tq_canceling q \<and>
    tq_sequence q' = tq_sequence q"
proof -
  obtain t where "tq_heap q p = Some t" using tq_inv_pending [OF assms] by blast
  from tq_insert_ok [OF assms this] show ?thesis by (auto simp: addTimerInLoop_def)
qed

lemma exec_timer_call_ok:
  assumes inv: "tq_inv q P" and al: "alloc_ok alloc" and room: "tq_sequence q < LLONG_MAX"
  shows "\<exists>q'. exec_timer_call alloc c q = Inr q' \<and> tq_inv q' P \<and> timer_frame P q q' \<and>
    tq_sequence q' \<le> tq_sequence q + 1 \<and>
    (\<forall>d. c = CancelTimer d \<and> fst d \<in> P \<and> tq_running q \<longrightarrow> d \<in> tq_canceling q')"
proof (cases c)
  case (AddTimer cb t0 interval)
  obtain p q1 where a: "addTimer alloc cb t0 interval q = (AddTimerInLoop p, (p, tq_sequence q), q1)"
    "p \<notin> dom (tq_heap q)" "tq_inv q1 (insert p P)"
    "q1 = q\<lparr>tq_heap := (tq_heap q)(p \<mapsto> Timer cb t0 interval (tq_sequence q)),
            tq_sequence := tq_sequence q + 1\<rparr>"
    using addTimer_ok [OF inv al room] by blast
  have np: "p \<notin> P" using a(2) inv by (auto simp: tq_inv_def)
  obtain q2 where "addTimerInLoop True p q1 = Inr q2" "tq_inv q2 (insert p P - {p})"
    "tq_heap q2 = tq_heap q1" "tq_running q2 = tq_running q1" "tq_canceling q2 = tq_canceling q1"
    "tq_sequence q2 = tq_sequence q1"
    using addTimerInLoop_ok [OF a(3), of p] by blast
  with a np AddTimer show ?thesis by (auto simp: timer_frame_def)
next
  case (CancelTimer d)
  have "d \<notin> tq_active q" if "fst d \<in> P" using inv that by (rule tq_inv_inactive)
  with cancelTimerInLoop_ok [OF inv, of d] CancelTimer show ?thesis
    by (auto simp: cancelTimer_def)
qed

lemma exec_timer_calls_ok:
  assumes "tq_inv q P" and "alloc_ok alloc" and "tq_sequence q + int (length cs) \<le> LLONG_MAX"
  shows "\<exists>q'. exec_timer_calls alloc cs q = Inr q' \<and> tq_inv q' P \<and> timer_frame P q q' \<and>
    tq_sequence q' \<le> tq_sequence q + int (length cs) \<and>
    (\<forall>d. CancelTimer d \<in> set cs \<and> fst d \<in> P \<and> tq_running q \<longrightarrow> d \<in> tq_canceling q')"
  using assms
proof (induction cs arbitrary: q)
  case Nil
  then show ?case by simp
next
  case (Cons c cs)
  obtain q1 where q1: "exec_timer_call alloc c q = Inr q1" "tq_inv q1 P" "timer_frame P q q1"
    "tq_sequence q1 \<le> tq_sequence q + 1"
    "\<And>d. c = CancelTimer d \<Longrightarrow> fst d \<in> P \<Longrightarrow> tq_running q \<Longrightarrow> d \<in> tq_canceling q1"
    using exec_timer_call_ok [OF Cons.prems(1,2), of c] Cons.prems(3) by auto
  obtain q2 where q2: "exec_timer_calls alloc cs q1 = Inr q2" "tq_inv q2 P" "timer_frame P q1 q2"
    "tq_sequence q2 \<le> tq_sequence q1 + int (length cs)"
    "\<And>d. CancelTimer d \<in> set cs \<Longrightarrow> fst d \<in> P \<Longrightarrow> tq_running q1 \<Longrightarrow> d \<in> tq_canceling q2"
    using Cons.IH [OF q1(2) Cons.prems(2)] q1(4) Cons.prems(3) by auto
  have "d \<in> tq_canceling q2" if "CancelTimer d \<in> set (c # cs)" "fst d \<in> P" "tq_running q" for d
    using that q1(3,5) q2(3,5) unfolding timer_frame_def by (metis set_ConsD subsetD)
  with q1 q2 timer_frame_trans [OF q1(3) q2(3)] show ?case by auto
qed

section \<open>Expiry\<close>

lemma expire_loop_ok:
  assumes "\<forall>e\<in>set es. \<exists>t. tq_heap q (snd e) = Some t \<and> snd (fst e) = tm_sequence t"
  shows "expire_loop es ret q = Inr (ret @ map snd es,
    q\<lparr>tq_active := tq_active q - (\<lambda>e. (snd e, snd (fst e))) ` set es\<rparr>)"
  using assms
proof (induction es arbitrary: q ret)
  case Nil
  then show ?case by simp
next
  case (Cons e es)
  let ?q = "q\<lparr>tq_active := tq_active q - {(snd e, snd (fst e))}\<rparr>"
  from Cons.prems obtain t where t: "tq_heap q (snd e) = Some t" "snd (fst e) = tm_sequence t"
    by auto
  have "expire_loop (e # es) ret q = expire_loop es (ret @ [snd e]) ?q"
    using t by (simp add: timer_at_def)
  also have "\<dots> = Inr ((ret @ [snd e]) @ map snd es,
      ?q\<lparr>tq_active := tq_active ?q - (\<lambda>e. (snd e, snd (fst e))) ` set es\<rparr>)"
    by (rule Cons.IH) (use Cons.prems in auto)
  also have "tq_active ?q - (\<lambda>e. (snd e, snd (fst e))) ` set es =
      tq_active q - (\<lambda>e. (snd e, snd (fst e))) ` set (e # es)"
    by auto
  finally show ?case by simp
qed

abbreviation due_entries :: "timestamp \<Rightarrow> 'cb timer_queue \<Rightarrow> (timer_entry \<times> nat) list" where
  "due_entries now q \<equiv> filter (\<lambda>e. fst (fst e) \<le> ts_us now) (tq_list q)"

text \<open>Removing some entries from the list, and their addresses from the others.\<close>

lemma tq_inv_split:
  assumes inv: "tq_inv q P" and part: "set (tq_list q) = A \<union> D" "A \<inter> D = {}"
  shows "(\<lambda>e. (snd e, snd (fst e))) ` A = tq_active q - (\<lambda>e. (snd e, snd (fst e))) ` D"
    and "snd ` A \<inter> (P \<union> snd ` D) = {}"
proof -
  let ?f = "\<lambda>e :: timer_entry \<times> nat. (snd e, snd (fst e))"
  have inj: "inj_on snd (A \<union> D)" using tq_inv_inj [OF inv] part(1) by simp
  then have "inj_on ?f (A \<union> D)" by (auto simp: inj_on_def)
  then have "?f ` ((A \<union> D) - D) = ?f ` (A \<union> D) - ?f ` D" by (rule inj_on_image_set_diff) auto
  moreover have "(A \<union> D) - D = A" using part(2) by auto
  ultimately show "?f ` A = tq_active q - ?f ` D" using inv part(1) by (simp add: tq_inv_def)
  have "snd ` A \<inter> snd ` D = snd ` (A \<inter> D)" using inj by (intro inj_on_image_Int [symmetric]) auto
  moreover have "P \<inter> snd ` (A \<union> D) = {}" using inv part(1) by (simp add: tq_inv_def)
  ultimately show "snd ` A \<inter> (P \<union> snd ` D) = {}" using part(2) by auto
qed

lemma tq_inv_take:
  assumes inv: "tq_inv q P"
  shows "tq_inv (q\<lparr>tq_list := filter (\<lambda>e. ts_us now < fst (fst e)) (tq_list q),
      tq_active := tq_active q - (\<lambda>e. (snd e, snd (fst e))) ` set (due_entries now q)\<rparr>)
    (P \<union> snd ` set (due_entries now q))" (is "tq_inv ?q ?P")
proof -
  have part: "set (tq_list q) = set (tq_list ?q) \<union> set (due_entries now q)"
    "set (tq_list ?q) \<inter> set (due_entries now q) = {}"
    by auto
  note sp = tq_inv_split [OF inv part]
  have "dom (tq_heap q) = snd ` set (tq_list q) \<union> P" using inv by (simp add: tq_inv_def)
  then have "dom (tq_heap ?q) = snd ` set (tq_list ?q) \<union> ?P"
    unfolding part(1) image_Un by auto
  moreover have "keys_sorted (tq_list ?q)"
    using inv by (simp add: tq_inv_def sorted_wrt_map sorted_wrt_filter)
  moreover have "tq_active ?q = (\<lambda>e. (snd e, snd (fst e))) ` set (tq_list ?q)" using sp(1) by simp
  moreover have "?P \<inter> snd ` set (tq_list ?q) = {}" using sp(2) by blast
  ultimately show ?thesis using inv unfolding tq_inv_def by simp
qed

lemma getExpiredTimers_ok:
  assumes inv: "tq_inv q P"
  shows "\<exists>q'. getExpiredTimers now q = Inr (map snd (due_entries now q), q') \<and>
    tq_inv q' (P \<union> snd ` set (due_entries now q)) \<and>
    q' = q\<lparr>tq_list := filter (\<lambda>e. ts_us now < fst (fst e)) (tq_list q),
           tq_active := tq_active q'\<rparr>"
proof -
  let ?k = "(ts_us now, LLONG_MAX)"
  let ?due = "due_entries now q" and ?rest = "filter (\<lambda>e. ts_us now < fst (fst e)) (tq_list q)"
  have srt: "keys_sorted (tq_list q)" using inv by (simp add: tq_inv_def)
  have edge: "fst e \<le> ?k \<longleftrightarrow> fst (fst e) \<le> ts_us now" if "e \<in> set (tq_list q)" for e
  proof -
    from inv that obtain t where "tq_heap q (snd e) = Some t" "fst e = timer_entry_of t"
      "(snd e, tm_sequence t) \<in> tq_active q" "tm_sequence t < tq_sequence q"
      by (rule tq_inv_entry)
    moreover have "tq_sequence q \<le> LLONG_MAX" using inv by (simp add: tq_inv_def)
    ultimately show ?thesis by (auto simp: timer_entry_of_def less_eq_prod_def)
  qed
  have tw: "takeWhile (\<lambda>e. fst e \<le> ?k) (tq_list q) = ?due"
    unfolding takeWhile_sorted [OF srt] using edge by (intro filter_cong) auto
  have dw: "dropWhile (\<lambda>e. fst e \<le> ?k) (tq_list q) = ?rest"
    unfolding dropWhile_sorted [OF srt] using edge by (intro filter_cong) auto
  have ent: "\<exists>t. tq_heap q (snd e) = Some t \<and> fst e = timer_entry_of t" if "e \<in> set (tq_list q)" for e
    using inv that by (simp add: tq_inv_def)
  have later: "timer_at q (snd (hd ?rest)) = Inr t \<Longrightarrow> ts_greater (tm_expiration t) now"
    if "?rest \<noteq> []" for t
    using ent [of "hd ?rest"] hd_in_set [OF that]
    by (auto simp: ts_greater_def timer_entry_of_def timer_at_def)
  let ?q = "q\<lparr>tq_list := ?rest, tq_active := tq_active q - (\<lambda>e. (snd e, snd (fst e))) ` set ?due\<rparr>"
  have "expire_loop ?due [] q = Inr (map snd ?due, ?q\<lparr>tq_list := tq_list q\<rparr>)"
    using ent by (subst expire_loop_ok) (fastforce simp: timer_entry_of_def)+
  moreover have "\<exists>t. timer_at q (snd (hd ?rest)) = Inr t" if "?rest \<noteq> []"
    using ent [of "hd ?rest"] hd_in_set [OF that] by auto
  ultimately have "getExpiredTimers now q = Inr (map snd ?due, ?q)"
    using later tq_inv_sizes [OF inv]
    unfolding getExpiredTimers_def Let_def tw dw
    by (cases "?rest = []") auto
  moreover have "tq_inv ?q (P \<union> snd ` set ?due)"
    using inv by (rule tq_inv_take)
  ultimately show ?thesis by auto
qed

text \<open>\<open>script_bound\<close>: no callback makes more than \<open>B\<close> calls to the queue.\<close>

definition script_bound :: "nat \<Rightarrow> ('cb \<Rightarrow> 'cb timer_queue \<Rightarrow> 'cb timer_call list) \<Rightarrow> bool" where
  "script_bound B script \<longleftrightarrow> (\<forall>cb q. length (script cb q) \<le> B)"

definition always_cancels ::
    "('cb \<Rightarrow> 'cb timer_queue \<Rightarrow> 'cb timer_call list) \<Rightarrow> 'cb timer \<Rightarrow> nat \<times> int \<Rightarrow> bool" where
  "always_cancels script t d \<longleftrightarrow>
     (case tm_callback t of None \<Rightarrow> False | Some cb \<Rightarrow> \<forall>q. CancelTimer d \<in> set (script cb q))"

lemma timer_run_ok:
  assumes inv: "tq_inv q P" and al: "alloc_ok alloc" and sb: "script_bound B script"
    and room: "tq_sequence q + int B \<le> LLONG_MAX"
  shows "\<exists>q'. timer_run alloc script t q = Inr q' \<and> tq_inv q' P \<and> timer_frame P q q' \<and>
    tq_sequence q' \<le> tq_sequence q + int B \<and>
    (\<forall>d. always_cancels script t d \<and> fst d \<in> P \<and> tq_running q \<longrightarrow> d \<in> tq_canceling q')"
proof (cases "tm_callback t")
  case None
  with inv show ?thesis by (simp add: timer_run_def always_cancels_def)
next
  case (Some cb)
  have "length (script cb q) \<le> B" using sb by (simp add: script_bound_def)
  moreover have "tq_sequence q + int (length (script cb q)) \<le> LLONG_MAX"
    using calculation room by simp
  ultimately show ?thesis
    using exec_timer_calls_ok [OF inv al, of "script cb q"] Some
    by (fastforce simp: timer_run_def always_cancels_def)
qed

lemma run_expired_ok:
  assumes "tq_inv q P" and "alloc_ok alloc" and "script_bound B script" and "set ps \<subseteq> P"
    and "tq_sequence q + int B * int (length ps) \<le> LLONG_MAX"
  shows "\<exists>q'. run_expired alloc script ps q = Inr q' \<and> tq_inv q' P \<and> timer_frame P q q' \<and>
    tq_sequence q' \<le> tq_sequence q + int B * int (length ps) \<and>
    (\<forall>d p t. p \<in> set ps \<and> tq_heap q p = Some t \<and> always_cancels script t d \<and> fst d \<in> P \<and>
       tq_running q \<longrightarrow> d \<in> tq_canceling q')"
  using assms
proof (induction ps arbitrary: q)
  case Nil
  then show ?case by simp
next
  case (Cons p ps)
  obtain t where t: "tq_heap q p = Some t" using tq_inv_pending [OF Cons.prems(1)] Cons.prems(4) by auto
  have room: "tq_sequence q + int B + int B * int (length ps) \<le> LLONG_MAX"
    using Cons.prems(5) by (simp add: algebra_simps)
  then have "tq_sequence q + int B \<le> LLONG_MAX"
    by (smt (verit) mult_nonneg_nonneg of_nat_0_le_iff)
  then obtain q1 where q1: "timer_run alloc script t q = Inr q1" "tq_inv q1 P" "timer_frame P q q1"
    "tq_sequence q1 \<le> tq_sequence q + int B"
    "\<And>d. always_cancels script t d \<Longrightarrow> fst d \<in> P \<Longrightarrow> tq_running q \<Longrightarrow> d \<in> tq_canceling q1"
    using timer_run_ok [OF Cons.prems(1-3), of t] by blast
  have "set ps \<subseteq> P" "tq_sequence q1 + int B * int (length ps) \<le> LLONG_MAX"
    using Cons.prems(4) q1(4) room by auto
  then obtain q2 where q2: "run_expired alloc script ps q1 = Inr q2" "tq_inv q2 P" "timer_frame P q1 q2"
    "tq_sequence q2 \<le> tq_sequence q1 + int B * int (length ps)"
    "\<And>d p t. p \<in> set ps \<Longrightarrow> tq_heap q1 p = Some t \<Longrightarrow> always_cancels script t d \<Longrightarrow>
       fst d \<in> P \<Longrightarrow> tq_running q1 \<Longrightarrow> d \<in> tq_canceling q2"
    using Cons.IH [OF q1(2) Cons.prems(2,3)] by blast
  have "run_expired alloc script (p # ps) q = Inr q2" using t q1(1) q2(1) by simp
  moreover have "tq_sequence q2 \<le> tq_sequence q + int B * int (length (p # ps))"
    using q1(4) q2(4) by (simp add: algebra_simps)
  moreover have "d \<in> tq_canceling q2"
    if "p' \<in> set (p # ps)" "tq_heap q p' = Some t'" "always_cancels script t' d" "fst d \<in> P"
      "tq_running q" for d p' t'
  proof (cases "p' = p")
    case True
    then have "d \<in> tq_canceling q1" using that t q1(5) by simp
    then show ?thesis using q2(3) by (auto simp: timer_frame_def)
  next
    case False
    then have "tq_heap q1 p' = Some t'" "tq_running q1"
      using that q1(3) Cons.prems(4) by (auto simp: timer_frame_def)
    then show ?thesis using q2(5) [of p' t' d] that False by simp
  qed
  ultimately show ?case using q2(2) timer_frame_trans [OF q1(3) q2(3)] by blast
qed

text \<open>Which expired timers \<open>reset\<close> rearms.\<close>

definition rearmed :: "'cb timer_queue \<Rightarrow> nat \<Rightarrow> bool" where
  "rearmed q p \<longleftrightarrow>
     (case tq_heap q p of None \<Rightarrow> False
      | Some t \<Rightarrow> tm_repeat t \<and> (p, tm_sequence t) \<notin> tq_canceling q)"

text \<open>What \<open>reset\<close> does to the queue for the expired timers \<open>ps\<close>, \<open>P\<close> being the timers in no list.\<close>

definition reset_done ::
    "timestamp \<Rightarrow> nat list \<Rightarrow> 'cb timer_queue \<Rightarrow> nat set \<Rightarrow> 'cb timer_queue \<Rightarrow> bool" where
  "reset_done now ps q P q' \<longleftrightarrow>
     tq_inv q' (P - {p \<in> set ps. rearmed q p}) \<and>
     tq_heap q' = (\<lambda>p. if p \<in> set ps \<and> rearmed q p
                       then map_option (timer_restart now) (tq_heap q p) else tq_heap q p) \<and>
     tq_canceling q' = tq_canceling q \<and> tq_running q' = tq_running q \<and>
     tq_sequence q' = tq_sequence q"

lemma reset_done_kept:
  assumes "\<not> rearmed q p" and "reset_done now ps q P q'"
  shows "reset_done now (p # ps) q P q'"
proof -
  have "{p' \<in> set (p # ps). rearmed q p'} = {p \<in> set ps. rearmed q p}" using assms(1) by auto
  with assms show ?thesis by (auto simp: reset_done_def fun_eq_iff)
qed

lemma reset_done_rearmed:
  assumes p: "rearmed q p" "p \<notin> set ps" "tq_heap q p = Some t"
    and q1: "tq_heap q1 = (tq_heap q)(p \<mapsto> timer_restart now t)" "tq_canceling q1 = tq_canceling q"
      "tq_running q1 = tq_running q" "tq_sequence q1 = tq_sequence q"
    and rest: "reset_done now ps q1 (P - {p}) q'"
  shows "reset_done now (p # ps) q P q' \<and> filter (\<lambda>p. \<not> rearmed q1 p) ps = filter (\<lambda>p. \<not> rearmed q p) ps"
proof -
  have same: "rearmed q1 p' = rearmed q p'" "tq_heap q1 p' = tq_heap q p'" if "p' \<noteq> p" for p'
    using that q1(1,2) by (simp_all add: rearmed_def cong: option.case_cong)
  have eq: "rearmed q1 p' = rearmed q p'" if "p' \<in> set ps" for p'
    using same(1) that p(2) by metis
  then have "{p \<in> set ps. rearmed q1 p} = {p \<in> set ps. rearmed q p}" by (simp cong: conj_cong)
  moreover have "P - {p' \<in> set (p # ps). rearmed q p'} = P - {p} - {p \<in> set ps. rearmed q p}"
    using p(1) by auto
  moreover have "tq_heap q' = (\<lambda>p'. if p' \<in> set (p # ps) \<and> rearmed q p'
      then map_option (timer_restart now) (tq_heap q p') else tq_heap q p')"
    using rest same p q1(1) by (auto simp: reset_done_def fun_eq_iff)
  ultimately show ?thesis
    using rest q1 eq by (simp add: reset_done_def cong: filter_cong)
qed

lemma tq_reset_ok:
  assumes "tq_inv q P" and "set ps \<subseteq> P" and "distinct ps"
  shows "\<exists>q'. tq_reset True ps now q = Inr (filter (\<lambda>p. \<not> rearmed q p) ps, q') \<and> reset_done now ps q P q'"
  using assms
proof (induction ps arbitrary: q P)
  case Nil
  then show ?case by (simp add: reset_done_def)
next
  case (Cons p ps)
  then have pP: "p \<in> P" and dp: "p \<notin> set ps" "distinct ps" "set ps \<subseteq> P" by auto
  obtain t where t: "tq_heap q p = Some t" using tq_inv_pending [OF Cons.prems(1) pP] by blast
  then have re: "rearmed q p \<longleftrightarrow> tm_repeat t \<and> (p, tm_sequence t) \<notin> tq_canceling q"
    by (simp add: rearmed_def)
  show ?case
  proof (cases "rearmed q p")
    case False
    obtain q' where "tq_reset True ps now q = Inr (filter (\<lambda>p. \<not> rearmed q p) ps, q')"
      "reset_done now ps q P q'"
      using Cons.IH [OF Cons.prems(1) dp(3,2)] by blast
    then show ?thesis
      using False re t reset_done_kept by (intro exI [of _ q']) (auto simp: timer_at_def)
  next
    case True
    let ?t = "timer_restart now t" and ?q0 = "q\<lparr>tq_heap := (tq_heap q)(p \<mapsto> timer_restart now t)\<rparr>"
    have inv0: "tq_inv ?q0 P" using Cons.prems(1) pP t by (rule tq_inv_retime)
    obtain b q1 where q1: "tq_insert True p ?q0 = Inr (b, q1)" "tq_inv q1 (P - {p})"
      "q1 = ?q0\<lparr>tq_list := map_put (timer_entry_of ?t) p (tq_list ?q0),
           tq_active := insert (p, tm_sequence ?t) (tq_active ?q0)\<rparr>"
      using tq_insert_ok [OF inv0 pP, of ?t] by auto
    obtain q' where q': "tq_reset True ps now q1 = Inr (filter (\<lambda>p. \<not> rearmed q1 p) ps, q')"
      "reset_done now ps q1 (P - {p}) q'"
      using Cons.IH [OF q1(2) _ dp(2)] dp(1,3) by auto
    have "reset_done now (p # ps) q P q' \<and> filter (\<lambda>p. \<not> rearmed q1 p) ps = filter (\<lambda>p. \<not> rearmed q p) ps"
      using reset_done_rearmed [OF True dp(1) t _ _ _ _ q'(2)] q1(3) by simp
    then show ?thesis
      using q'(1) q1(1) True re t by (intro exI [of _ q']) (simp add: timer_at_def)
  qed
qed

lemma delete_timers_ok:
  assumes inv: "tq_inv q P" and "set ps \<subseteq> P"
  shows "tq_inv (delete_timers ps q) (P - set ps)"
proof -
  let ?q = "delete_timers ps q"
  have f: "tq_list ?q = tq_list q" "tq_active ?q = tq_active q" "tq_sequence ?q = tq_sequence q"
    "\<And>p. tq_heap ?q p = (if p \<in> set ps then None else tq_heap q p)"
    by (simp_all add: delete_timers_def)
  have nl: "\<forall>e\<in>set (tq_list q). snd e \<notin> set ps" using inv assms(2) by (auto simp: tq_inv_def)
  then have "\<forall>e\<in>set (tq_list ?q). \<exists>t. tq_heap ?q (snd e) = Some t \<and> fst e = timer_entry_of t"
    using inv f by (simp add: tq_inv_def)
  moreover have "timer_ids (tq_heap ?q) (tq_sequence ?q)"
    using inv unfolding tq_inv_def timer_ids_def f by (auto split: if_splits)
  moreover have "dom (tq_heap ?q) = dom (tq_heap q) - set ps" by (auto simp: f split: if_splits)
  then have "dom (tq_heap ?q) = snd ` set (tq_list ?q) \<union> (P - set ps)"
    using inv nl f(1) by (auto simp: tq_inv_def)
  ultimately show ?thesis using inv unfolding tq_inv_def f by auto
qed

text \<open>\<open>reset\<close> followed by the end of the vector: of the expired timers only the rearmed ones remain.\<close>

lemma reset_delete_ok:
  assumes inv: "tq_inv q (P \<union> set ps)" and dj: "P \<inter> set ps = {}" and dist: "distinct ps"
  shows "\<exists>kept q'. tq_reset True ps now q = Inr (kept, q') \<and> sizes_agree q' = Inr () \<and>
    tq_inv (delete_timers kept q') P \<and>
    (\<forall>p\<in>set ps. \<forall>t. tq_heap q p = Some t \<longrightarrow> tq_heap (delete_timers kept q') p =
       (if tm_repeat t \<and> (p, tm_sequence t) \<notin> tq_canceling q then Some (timer_restart now t) else None)) \<and>
    (\<forall>p\<in>P. tq_heap (delete_timers kept q') p = tq_heap q p) \<and>
    tq_sequence (delete_timers kept q') = tq_sequence q"
proof -
  let ?kept = "filter (\<lambda>p. \<not> rearmed q p) ps" and ?re = "{p \<in> set ps. rearmed q p}"
  obtain q' where q': "tq_reset True ps now q = Inr (?kept, q')" "reset_done now ps q (P \<union> set ps) q'"
    using tq_reset_ok [OF inv _ dist] by blast
  then have inv': "tq_inv q' (P \<union> set ps - ?re)" and
    heap: "tq_heap q' = (\<lambda>p. if p \<in> set ps \<and> rearmed q p
        then map_option (timer_restart now) (tq_heap q p) else tq_heap q p)"
    and sq: "tq_sequence q' = tq_sequence q"
    by (simp_all add: reset_done_def)
  have "tq_inv (delete_timers ?kept q') (P \<union> set ps - ?re - set ?kept)"
    using inv' by (rule delete_timers_ok) auto
  moreover have "P \<union> set ps - ?re - set ?kept = P" using dj by auto
  ultimately have "tq_inv (delete_timers ?kept q') P" by simp
  moreover have "tq_heap (delete_timers ?kept q') p =
      (if tm_repeat t \<and> (p, tm_sequence t) \<notin> tq_canceling q then Some (timer_restart now t) else None)"
    if "p \<in> set ps" "tq_heap q p = Some t" for p t
    using that by (simp add: delete_timers_def heap rearmed_def)
  moreover have "tq_heap (delete_timers ?kept q') p = tq_heap q p" if "p \<in> P" for p
    using that dj by (auto simp: delete_timers_def heap)
  ultimately show ?thesis
    using q'(1) tq_inv_sizes [OF inv'] sq
    by (intro exI [of _ ?kept] exI [of _ q']) (simp add: delete_timers_def)
qed

lemma due_entries_none:
  assumes "tq_inv q P"
  shows "due_entries now q = [] \<longleftrightarrow> tq_list q = [] \<or> ts_us now < fst (fst (hd (tq_list q)))"
proof -
  have "keys_sorted (tq_list q)" using assms by (simp add: tq_inv_def)
  then have "fst (fst (hd (tq_list q))) \<le> fst (fst e)" if "e \<in> set (tq_list q)" for e
    using keys_sorted_head [OF _ that] by (auto simp: less_eq_prod_def)
  then show ?thesis by (cases "tq_list q") (fastforce simp: filter_empty_conv)+
qed

text \<open>The callbacks of the due timers, run between taking them from the list and \<open>reset\<close>.\<close>

lemma run_due_ok:
  assumes inv: "tq_inv q P" and al: "alloc_ok alloc" and sb: "script_bound B script"
    and room: "tq_sequence q + int B * int (length (tq_list q)) \<le> LLONG_MAX"
    and ps: "ps = map snd (due_entries now q)"
  shows "\<exists>q1 q2. getExpiredTimers now q = Inr (ps, q1) \<and>
    run_expired alloc script ps (q1\<lparr>tq_canceling := {}, tq_running := True\<rparr>) = Inr q2 \<and>
    tq_inv q2 (P \<union> set ps) \<and> (\<forall>p\<in>P \<union> set ps. tq_heap q2 p = tq_heap q p) \<and>
    (\<forall>d. \<forall>p\<in>set ps. \<forall>t. tq_heap q p = Some t \<longrightarrow> always_cancels script t d \<longrightarrow> fst d \<in> set ps \<longrightarrow>
       d \<in> tq_canceling q2) \<and> tq_sequence q \<le> tq_sequence q2"
proof -
  let ?P = "P \<union> set ps"
  obtain q1 where g: "getExpiredTimers now q = Inr (ps, q1)" "tq_inv q1 ?P"
    "q1 = q\<lparr>tq_list := filter (\<lambda>e. ts_us now < fst (fst e)) (tq_list q), tq_active := tq_active q1\<rparr>"
    using getExpiredTimers_ok [OF inv] unfolding ps set_map by metis
  have h1: "tq_heap q1 = tq_heap q" "tq_sequence q1 = tq_sequence q" by (subst g(3), simp)+
  let ?q1 = "q1\<lparr>tq_canceling := {}, tq_running := True\<rparr>"
  have "int B * int (length ps) \<le> int B * int (length (tq_list q))"
    unfolding ps by (intro mult_left_mono) auto
  then have r: "tq_sequence ?q1 + int B * int (length ps) \<le> LLONG_MAX" using room h1(2) by simp
  have i1: "tq_inv ?q1 ?P" and sub: "set ps \<subseteq> ?P" and run: "tq_running ?q1" using g(2) by auto
  obtain q2 where q2: "run_expired alloc script ps ?q1 = Inr q2" "tq_inv q2 ?P" "timer_frame ?P ?q1 q2"
    "\<And>d p t. p \<in> set ps \<Longrightarrow> tq_heap ?q1 p = Some t \<Longrightarrow> always_cancels script t d \<Longrightarrow>
       fst d \<in> ?P \<Longrightarrow> d \<in> tq_canceling q2"
    using run_expired_ok [OF i1 al sb sub r] run by blast
  have canc: "d \<in> tq_canceling q2"
    if "p \<in> set ps" "tq_heap q p = Some t" "always_cancels script t d" "fst d \<in> set ps" for d p t
    using q2(4) [of p t d] that h1 by simp
  have "\<forall>p\<in>?P. tq_heap q2 p = tq_heap q p" "tq_sequence q \<le> tq_sequence q2"
    using q2(3) h1 by (simp_all add: timer_frame_def)
  with g(1) q2(1,2) canc show ?thesis by blast
qed

lemma handleRead_ok:
  assumes inv: "tq_inv q P" and al: "alloc_ok alloc" and sb: "script_bound B script"
    and room: "tq_sequence q + int B * int (length (tq_list q)) \<le> LLONG_MAX"
  shows "\<exists>q' C. handleRead alloc script True now q = Inr q' \<and> tq_inv q' P \<and>
    (\<forall>e\<in>set (due_entries now q). \<forall>t. tq_heap q (snd e) = Some t \<longrightarrow>
       tq_heap q' (snd e) =
         (if tm_repeat t \<and> (snd e, tm_sequence t) \<notin> C then Some (timer_restart now t) else None)) \<and>
    (\<forall>e\<in>set (due_entries now q). \<forall>t d. tq_heap q (snd e) = Some t \<and> always_cancels script t d \<and>
       fst d \<in> snd ` set (due_entries now q) \<longrightarrow> d \<in> C) \<and>
    (\<forall>p\<in>P. tq_heap q' p = tq_heap q p) \<and>
    (due_entries now q = [] \<longrightarrow> q' = q) \<and> tq_sequence q \<le> tq_sequence q'"
proof (cases "due_entries now q = []")
  case True
  then have "handleRead alloc script True now q = Inr q"
    using due_entries_none [OF inv] by (auto simp: handleRead_def)
  with inv True show ?thesis by (intro exI [of _ q] exI [of _ "{}"]) simp
next
  case False
  let ?due = "due_entries now q"
  let ?ps = "map snd ?due"
  obtain q1 q2 where r: "getExpiredTimers now q = Inr (?ps, q1)"
    "run_expired alloc script ?ps (q1\<lparr>tq_canceling := {}, tq_running := True\<rparr>) = Inr q2"
    "tq_inv q2 (P \<union> set ?ps)" "\<And>p. p \<in> P \<union> set ?ps \<Longrightarrow> tq_heap q2 p = tq_heap q p"
    "\<And>d p t. p \<in> set ?ps \<Longrightarrow> tq_heap q p = Some t \<Longrightarrow> always_cancels script t d \<Longrightarrow> fst d \<in> set ?ps \<Longrightarrow>
       d \<in> tq_canceling q2"
    "tq_sequence q \<le> tq_sequence q2"
    using run_due_ok [OF inv al sb room refl, of now] by blast
  have dist: "distinct ?ps"
    using tq_inv_inj [OF inv] keys_sorted_distinct [of "tq_list q"] inv
    by (auto simp: tq_inv_def distinct_map inj_on_def)
  have dj: "P \<inter> set ?ps = {}" using inv by (auto simp: tq_inv_def)
  have i2: "tq_inv (q2\<lparr>tq_running := False\<rparr>) (P \<union> set ?ps)" using r(3) by simp
  obtain kept q3 where q3: "tq_reset True ?ps now (q2\<lparr>tq_running := False\<rparr>) = Inr (kept, q3)"
    "sizes_agree q3 = Inr ()" "tq_inv (delete_timers kept q3) P"
    "\<And>p t. p \<in> set ?ps \<Longrightarrow> tq_heap q2 p = Some t \<Longrightarrow> tq_heap (delete_timers kept q3) p =
       (if tm_repeat t \<and> (p, tm_sequence t) \<notin> tq_canceling q2 then Some (timer_restart now t) else None)"
    "\<And>p. p \<in> P \<Longrightarrow> tq_heap (delete_timers kept q3) p = tq_heap q2 p"
    "tq_sequence (delete_timers kept q3) = tq_sequence q2"
    using reset_delete_ok [OF i2 dj dist, of now] by (simp del: set_map) blast
  have res: "handleRead alloc script True now q = Inr (delete_timers kept q3)"
    using False due_entries_none [OF inv, of now] r(1,2) q3(1,2) tq_inv_sizes [OF inv]
    by (simp add: handleRead_def)
  have mem: "snd e \<in> set ?ps" if "e \<in> set ?due" for e using that by simp
  show ?thesis
    using False res q3(3) r(6) q3(4) [OF mem] q3(5) r(4) [OF UnI2, OF mem] r(4) [OF UnI1]
      r(5) [OF mem] q3(6)
    by (intro exI [of _ "delete_timers kept q3"] exI [of _ "tq_canceling q2"] conjI) (simp_all, blast?)
qed

lemma handleRead_inv:
  assumes "tq_inv q P" and "alloc_ok alloc" and "script_bound B script"
    and "tq_sequence q + int B * int (length (tq_list q)) \<le> LLONG_MAX"
  shows "\<exists>q'. handleRead alloc script True now q = Inr q' \<and> tq_inv q' P"
  using handleRead_ok [OF assms, of now] by blast

section \<open>Reachable states\<close>

text \<open>
  The queue with the functors other threads have queued for it. Every step is one call: a timer
  created or cancelled on another thread, a call on the loop's thread, a queued functor run by the
  loop, or \<open>handleRead\<close>. The guards keep the 64-bit sequence counter from wrapping.
\<close>

inductive timer_reachable ::
    "((nat \<rightharpoonup> 'cb timer) \<Rightarrow> nat) \<Rightarrow> ('cb \<Rightarrow> 'cb timer_queue \<Rightarrow> 'cb timer_call list) \<Rightarrow> nat \<Rightarrow>
     'cb timer_queue \<Rightarrow> timer_task list \<Rightarrow> bool"
  for alloc script B where
  start: "timer_reachable alloc script B TimerQueue []"
| add: "timer_reachable alloc script B q tasks \<Longrightarrow> tq_sequence q < LLONG_MAX \<Longrightarrow>
    addTimer alloc cb t0 interval q = (task, tid, q') \<Longrightarrow>
    timer_reachable alloc script B q' (tasks @ [task])"
| cancel: "timer_reachable alloc script B q tasks \<Longrightarrow>
    timer_reachable alloc script B q (tasks @ [cancelTimer d])"
| local: "timer_reachable alloc script B q tasks \<Longrightarrow> tq_sequence q < LLONG_MAX \<Longrightarrow>
    exec_timer_call alloc c q = Inr q' \<Longrightarrow> timer_reachable alloc script B q' tasks"
| task: "timer_reachable alloc script B q (task # tasks) \<Longrightarrow>
    run_timer_task True task q = Inr q' \<Longrightarrow> timer_reachable alloc script B q' tasks"
| expire: "timer_reachable alloc script B q tasks \<Longrightarrow>
    tq_sequence q + int B * int (length (tq_list q)) \<le> LLONG_MAX \<Longrightarrow>
    handleRead alloc script True now q = Inr q' \<Longrightarrow> timer_reachable alloc script B q' tasks"

fun pending_adds :: "timer_task list \<Rightarrow> nat list" where
  "pending_adds [] = []"
| "pending_adds (AddTimerInLoop p # ts) = p # pending_adds ts"
| "pending_adds (CancelTimerInLoop d # ts) = pending_adds ts"

lemma pending_adds_append [simp]: "pending_adds (xs @ ys) = pending_adds xs @ pending_adds ys"
  by (induction xs rule: pending_adds.induct) auto

lemma run_timer_task_ok:
  assumes "tq_inv q (set (pending_adds (task # tasks)))" and "distinct (pending_adds (task # tasks))"
  shows "\<exists>q'. run_timer_task True task q = Inr q' \<and> tq_inv q' (set (pending_adds tasks))"
proof (cases task)
  case (AddTimerInLoop p)
  have "set (pending_adds (task # tasks)) - {p} = set (pending_adds tasks)"
    using assms(2) AddTimerInLoop by auto
  then show ?thesis
    using addTimerInLoop_ok [OF assms(1), of p] AddTimerInLoop by auto
next
  case (CancelTimerInLoop d)
  then show ?thesis using cancelTimerInLoop_ok [OF assms(1), of d] by auto
qed

lemma timer_reachable_inv:
  assumes "timer_reachable alloc script B q tasks" and al: "alloc_ok alloc"
    and sb: "script_bound B script"
  shows "tq_inv q (set (pending_adds tasks)) \<and> distinct (pending_adds tasks)"
  using assms(1)
proof induction
  case start
  then show ?case by (simp add: tq_inv_new)
next
  case (add q tasks cb t0 interval task tid q')
  obtain p where p: "task = AddTimerInLoop p" "p \<notin> dom (tq_heap q)"
    "tq_inv q' (insert p (set (pending_adds tasks)))"
    using addTimer_ok [OF conjunct1 [OF add.IH] al add.hyps(2), of cb t0 interval] add.hyps(3)
    by auto
  have "p \<notin> set (pending_adds tasks)" using add.IH p(2) by (auto simp: tq_inv_def)
  with add.IH p show ?case by simp
next
  case (cancel q tasks d)
  then show ?case by (simp add: cancelTimer_def)
next
  case (local q tasks c q')
  then show ?case using exec_timer_call_ok [of q _ alloc c] al by fastforce
next
  case (task q task tasks q')
  then have "distinct (pending_adds tasks)" by (cases task) auto
  with task run_timer_task_ok [of q task tasks] show ?case by auto
next
  case (expire q tasks now q')
  then show ?case using handleRead_inv [OF conjunct1 [OF expire.IH] al sb expire.hyps(2), of now] by auto
qed

lemma us_split:
  fixes us :: int
  shows "us mod 1000000 * 1000 < 1000000000"
    and "us div 1000000 * 1000000000 + us mod 1000000 * 1000 = us * 1000"
    and "0 \<le> us \<Longrightarrow> 0 \<le> us div 1000000"
proof -
  have m: "us mod 1000000 < 1000000" by simp
  then show "us mod 1000000 * 1000 < 1000000000" by linarith
  show "us div 1000000 * 1000000000 + us mod 1000000 * 1000 = us * 1000"
    using div_mult_mod_eq [of us 1000000] by linarith
  show "0 \<le> us \<Longrightarrow> 0 \<le> us div 1000000" by (simp add: pos_imp_zdiv_nonneg_iff)
qed

section \<open>Properties of the timer queue\<close>

text \<open>
  C12 The timer queue never fails: in every reachable state, whatever timers the callbacks add and
  cancel, the next queued functor, any cancellation and \<open>handleRead\<close> run without a failing
  assertion or a dangling pointer, and the size of the list is the size of the active set.
\<close>

theorem timer_queue_safe:
  assumes "timer_reachable alloc script B q tasks" and "alloc_ok alloc" and "script_bound B script"
    and "tq_sequence q + int B * int (length (tq_list q)) \<le> LLONG_MAX"
  shows "(\<exists>q'. handleRead alloc script True now q = Inr q') \<and>
    (\<exists>q'. cancelTimerInLoop True d q = Inr q') \<and>
    (tasks \<noteq> [] \<longrightarrow> (\<exists>q'. run_timer_task True (hd tasks) q = Inr q')) \<and>
    card (tq_active q) = length (tq_list q)"
proof -
  have inv: "tq_inv q (set (pending_adds tasks))" "distinct (pending_adds tasks)"
    using timer_reachable_inv [OF assms(1-3)] by auto
  have "\<exists>q'. run_timer_task True (hd tasks) q = Inr q'" if "tasks \<noteq> []"
    using run_timer_task_ok [of q "hd tasks" "tl tasks"] inv that by auto
  then show ?thesis
    using handleRead_inv [OF inv(1) assms(2-4)] cancelTimerInLoop_ok [OF inv(1)] tq_inv_card [OF inv(1)]
    by blast
qed

text \<open>
  C23 \<open>getExpiredTimers\<close> takes exactly the timers whose expiration is not after \<open>now\<close>, ordered by
  expiration and then by creation, out of the list and the active set, and leaves the others.
\<close>

theorem expired_timers_exact:
  assumes "timer_reachable alloc script B q tasks" and "alloc_ok alloc" and "script_bound B script"
  shows "\<exists>q'. getExpiredTimers now q = Inr (map snd (due_entries now q), q') \<and>
    sorted_wrt (<) (map fst (due_entries now q)) \<and>
    (\<forall>e\<in>set (due_entries now q). \<exists>t. tq_heap q (snd e) = Some t \<and> fst e = timer_entry_of t) \<and>
    tq_list q' = filter (\<lambda>e. ts_us now < fst (fst e)) (tq_list q) \<and> tq_heap q' = tq_heap q \<and>
    card (tq_active q') = length (tq_list q')"
proof -
  have inv: "tq_inv q (set (pending_adds tasks))" using timer_reachable_inv [OF assms] by simp
  obtain q' where g: "getExpiredTimers now q = Inr (map snd (due_entries now q), q')"
    "tq_inv q' (set (pending_adds tasks) \<union> snd ` set (due_entries now q))"
    "q' = q\<lparr>tq_list := filter (\<lambda>e. ts_us now < fst (fst e)) (tq_list q), tq_active := tq_active q'\<rparr>"
    using getExpiredTimers_ok [OF inv] by metis
  have "tq_list q' = filter (\<lambda>e. ts_us now < fst (fst e)) (tq_list q)" "tq_heap q' = tq_heap q"
    by (subst g(3), simp)+
  moreover have "sorted_wrt (<) (map fst (due_entries now q))"
    using inv by (simp add: tq_inv_def sorted_wrt_map sorted_wrt_filter)
  moreover have "\<forall>e\<in>set (due_entries now q). \<exists>t. tq_heap q (snd e) = Some t \<and> fst e = timer_entry_of t"
    using inv by (simp add: tq_inv_def)
  ultimately show ?thesis using g(1) tq_inv_card [OF g(2)] by blast
qed


text \<open>
  C24 Cancelling hits only the timer the id was made for: timers at other addresses keep their
  state, and an id whose sequence number is not the one of the timer now at its address, because
  that timer was deleted and the address reused, changes no timer at all.
\<close>

theorem cancel_hits_only_its_timer:
  assumes "timer_reachable alloc script B q tasks" and "alloc_ok alloc" and "script_bound B script"
  shows "\<exists>q'. cancelTimerInLoop True (p, s) q = Inr q' \<and> (p, s) \<notin> tq_active q' \<and>
    (\<forall>p'. p' \<noteq> p \<longrightarrow> tq_heap q' p' = tq_heap q p') \<and>
    (\<forall>t. tq_heap q p = Some t \<and> tm_sequence t \<noteq> s \<longrightarrow> tq_heap q' = tq_heap q \<and> tq_list q' = tq_list q)"
proof -
  have inv: "tq_inv q (set (pending_adds tasks))" using timer_reachable_inv [OF assms] by simp
  have "(p, s) \<notin> tq_active q" if "tq_heap q p = Some t" "tm_sequence t \<noteq> s" for t
    using inv that unfolding tq_inv_def timer_entry_of_def by fastforce
  with cancelTimerInLoop_ok [OF inv, of "(p, s)"] show ?thesis by fastforce
qed

text \<open>
  C34 The time the loop waits for the next timer is a valid \<open>timespec\<close>, at least 100 microseconds,
  and otherwise exactly the time left until the earliest timer of the queue expires.
\<close>

theorem recent_expire_time:
  assumes "timer_reachable alloc script B q tasks" and "alloc_ok alloc" and "script_bound B script"
    and "e \<in> set (tq_list q)"
  shows "\<exists>e0\<in>set (tq_list q). fst (fst e0) \<le> fst (fst e) \<and>
    (let ts = getRecentExpireTime now q
     in 0 \<le> tv_sec ts \<and> 0 \<le> tv_nsec ts \<and> tv_nsec ts < 10 ^ 9 \<and>
        tv_sec ts * 10 ^ 9 + tv_nsec ts = max 100 (fst (fst e0) - ts_us now) * 1000)"
proof -
  have "keys_sorted (tq_list q)"
    using timer_reachable_inv [OF assms(1-3)] by (simp add: tq_inv_def)
  then have le: "fst (fst (hd (tq_list q))) \<le> fst (fst e)"
    using keys_sorted_head [OF _ assms(4)] by (auto simp: less_eq_prod_def)
  let ?us = "max 100 (fst (fst (hd (tq_list q))) - ts_us now)"
  have ne: "tq_list q \<noteq> []" using assms(4) by auto
  then have ts: "getRecentExpireTime now q =
      \<lparr>tv_sec = ?us div 1000000, tv_nsec = (?us mod 1000000) * 1000\<rparr>"
    by (auto simp: getRecentExpireTime_def howMuchTimeFromNow_def Let_def max_def)
  have "0 \<le> ?us" by simp
  with le ts ne show ?thesis by (intro bexI [of _ "hd (tq_list q)"]) (simp_all add: Let_def us_split)
qed

section \<open>A concrete queue\<close>

text \<open>
  An allocator that takes the address after the highest one in use, and a queue that holds one
  repeating timer, due at 50 microseconds and every two seconds, whose callback cancels it.
\<close>

definition next_address :: "(nat \<rightharpoonup> 'cb timer) \<Rightarrow> nat" where
  "next_address h = (if dom h = {} then 0 else Suc (Max (dom h)))"

lemma next_address_ok: "alloc_ok next_address"
proof -
  have "next_address h \<notin> dom h" if "finite (dom h)" for h :: "nat \<rightharpoonup> 'a timer"
  proof
    assume m: "next_address h \<in> dom h"
    then have "next_address h = Suc (Max (dom h))" by (auto simp: next_address_def)
    moreover have "next_address h \<le> Max (dom h)" using Max_ge [OF that m] .
    ultimately show False by simp
  qed
  then show ?thesis by (simp add: alloc_ok_def)
qed

definition cancel_self :: "nat \<times> int \<Rightarrow> (nat \<times> int) timer_queue \<Rightarrow> (nat \<times> int) timer_call list" where
  "cancel_self d q = [CancelTimer d]"

lemma cancel_self_bound: "script_bound 1 cancel_self"
  by (simp add: script_bound_def cancel_self_def)

definition demo_timer :: "(nat \<times> int) timer" where
  "demo_timer = Timer (Some (0, 0)) (Timestamp 50) (Double 2 0) 0"

definition demo_timers :: "(nat \<times> int) timer_queue" where
  "demo_timers =
     \<lparr>tq_heap = [0 \<mapsto> demo_timer], tq_sequence = 1, tq_list = [((50, 0), 0)], tq_active = {(0, 0)},
      tq_canceling = {}, tq_running = False\<rparr>"

lemma demo_timers_reachable: "timer_reachable next_address cancel_self 1 demo_timers []"
proof -
  have "exec_timer_call next_address (AddTimer (Some (0, 0)) (Timestamp 50) (Double 2 0)) TimerQueue =
      Inr demo_timers"
    by (simp add: TimerQueue_def demo_timers_def demo_timer_def addTimer_def addTimerInLoop_def
        tq_insert_def timer_at_def timer_entry_of_def sizes_agree_def Timer_def Let_def
        next_address_def next_sequence_def LLONG_MAX_def)
  from timer_reachable.local [OF timer_reachable.start _ this] show ?thesis
    by (simp add: TimerQueue_def LLONG_MAX_def)
qed

lemma demo_timers_room:
  "tq_sequence demo_timers + int 1 * int (length (tq_list demo_timers)) \<le> LLONG_MAX"
  by (simp add: demo_timers_def LLONG_MAX_def)

lemmas demo_timers_ok = demo_timers_reachable next_address_ok cancel_self_bound

theorem timer_queue_safe_witness:
  "\<exists>q'. handleRead next_address cancel_self True (Timestamp 60) demo_timers = Inr q'"
  using timer_queue_safe [OF demo_timers_ok demo_timers_room, of "Timestamp 60"] by blast

theorem expired_timers_exact_witness:
  "\<exists>q'. getExpiredTimers (Timestamp 60) demo_timers = Inr ([0], q') \<and> tq_list q' = []"
  using expired_timers_exact [OF demo_timers_ok, of "Timestamp 60"]
  by (auto simp: demo_timers_def)


theorem cancel_hits_only_its_timer_witness:
  "\<exists>q'. cancelTimerInLoop True (0, 7) demo_timers = Inr q' \<and> tq_list q' = [((50, 0), 0)]"
proof -
  have "tq_heap demo_timers 0 = Some demo_timer \<and> tm_sequence demo_timer \<noteq> 7"
    by (simp add: demo_timers_def demo_timer_def Timer_def)
  with cancel_hits_only_its_timer [OF demo_timers_ok, of 0 7] show ?thesis
    by (auto simp: demo_timers_def)
qed

theorem recent_expire_time_witness:
  "\<exists>e0\<in>set (tq_list demo_timers).
     (let ts = getRecentExpireTime (Timestamp 0) demo_timers
      in tv_sec ts * 10 ^ 9 + tv_nsec ts = max 100 (fst (fst e0)) * 1000)"
  using recent_expire_time [OF demo_timers_ok, of "((50, 0), 0)" "Timestamp 0"]
  by (auto simp: demo_timers_def Let_def)

end
