(* ===== verification/Loop_Correctness.thy ===== *)
theory Loop_Correctness
  imports Io_Uring_Loop Timer_Correctness
begin

text \<open>
  Correctness of the loop's submission path and of its timeout: no request is lost, the requests
  kept back under back-pressure are submitted in order, urgent requests always find an entry, and
  the loop never sleeps past the next timer.
\<close>

section \<open>Acquiring and filling entries\<close>

definition sent :: "('r \<Rightarrow> sqe option list) \<Rightarrow> ('r \<Rightarrow> sqe option list) \<Rightarrow> ('r, 'f, 'cb) io_loop \<Rightarrow>
    sqe option list" where
  "sent queued handed l = handed (lp_ring l) @ queued (lp_ring l)"

lemma uring_get_free:
  assumes "uring_laws U queued handed n" and "length (queued r) < n"
  shows "\<exists>r'. ur_get_sqe U r = (Some (length (queued r)), r') \<and> queued r' = queued r @ [None] \<and>
    handed r' = handed r"
  using assms unfolding uring_laws_def by (metis prod.collapse)

lemma uring_get_full:
  assumes "uring_laws U queued handed n" and "\<not> length (queued r) < n"
  shows "ur_get_sqe U r = (None, r)"
  using assms unfolding uring_laws_def by metis

lemma uring_prep:
  assumes "uring_laws U queued handed n" and "i < length (queued r)"
  shows "queued (ur_prep U i s r) = (queued r)[i := Some s]" "handed (ur_prep U i s r) = handed r"
  using assms unfolding uring_laws_def by blast+

lemma uring_submit:
  assumes "uring_laws U queued handed n"
  shows "queued (ur_submit U r) = []" "handed (ur_submit U r) = handed r @ queued r"
  using assms unfolding uring_laws_def by blast+

lemma uring_space:
  assumes "uring_laws U queued handed n"
  shows "unat (ur_sq_space_left U r) = n - length (queued r)" "length (queued r) \<le> n"
  using assms unfolding uring_laws_def by blast+

lemma submit_sqe_free:
  assumes laws: "uring_laws U queued handed n" and free: "length (queued (lp_ring l)) < n"
  shows "\<exists>r. submit_sqe U force s l = Inr (l\<lparr>lp_ring := r\<rparr>) \<and>
    queued r = queued (lp_ring l) @ [Some s] \<and> handed r = handed (lp_ring l)"
proof -
  let ?k = "length (queued (lp_ring l))"
  obtain r where r: "ur_get_sqe U (lp_ring l) = (Some ?k, r)" "queued r = queued (lp_ring l) @ [None]"
    "handed r = handed (lp_ring l)"
    using uring_get_free [OF laws free] by blast
  have "?k < length (queued r)" using r(2) by simp
  from uring_prep [OF laws this, of s] r show ?thesis
    by (auto simp: submit_sqe_def getIoUringSqe_def)
qed

lemma submit_sqe_forced:
  assumes laws: "uring_laws U queued handed n" and n: "0 < n"
  shows "\<exists>r. submit_sqe U True s l = Inr (l\<lparr>lp_ring := r\<rparr>) \<and>
    handed r @ queued r = sent queued handed l @ [Some s]"
proof (cases "length (queued (lp_ring l)) < n")
  case True
  from submit_sqe_free [OF laws this, of True s] show ?thesis by (auto simp: sent_def)
next
  case False
  let ?r = "ur_submit U (lp_ring l)"
  obtain r where r: "ur_get_sqe U ?r = (Some 0, r)" "queued r = [None]" "handed r = handed ?r"
    using uring_get_free [OF laws, of ?r] n uring_submit [OF laws] by auto
  have "0 < length (queued r)" using r(2) by simp
  from uring_prep [OF laws this, of s] r uring_submit [OF laws] uring_get_full [OF laws False]
  show ?thesis by (auto simp: submit_sqe_def getIoUringSqe_def sent_def)
qed

lemma space_iff_free:
  assumes "uring_laws U queued handed n"
  shows "unat (ucast (remainedSqe U l) :: size_t) = n - length (queued (lp_ring l))"
proof -
  have "unat (ucast (ur_sq_space_left U (lp_ring l)) :: size_t) = unat (ur_sq_space_left U (lp_ring l))"
    by (simp add: unsigned_ucast_eq take_bit_nat_eq_self_iff)
      (rule order.strict_trans [OF unsigned_less], simp)
  then show ?thesis using uring_space [OF assms] by (simp add: remainedSqe_def)
qed

lemma above_low_water_free:
  assumes "uring_laws U queued handed n" and "\<not> below_low_water U l" and "0 < lp_low_water l"
  shows "length (queued (lp_ring l)) < n"
  using assms space_iff_free [OF assms(1), of l]
  by (auto simp: below_low_water_def word_less_nat_alt not_less)

section \<open>Requests kept back\<close>

definition waiting_request :: "u16 \<Rightarrow> (io_context \<Rightarrow> int) \<Rightarrow> (io_context \<Rightarrow> iovec list) \<Rightarrow> io_context \<Rightarrow> sqe"
where
  "waiting_request bgid fds datas ctx =
     (case ctx of
        ReadCtx c \<Rightarrow> RecvMultishot (fds ctx) bgid ctx
      | WriteCtx c \<Rightarrow> Writev (fds ctx) (datas ctx) ctx
      | AcceptCtx c \<Rightarrow> MultishotAccept (fds ctx) ctx
      | WakeupCtx \<Rightarrow> ReadEventfd (fds ctx))"

lemma submit_waiting_ok:
  assumes "uring_laws U queued handed n" and "length (queued (lp_ring l)) < n" and "ctx \<noteq> WakeupCtx"
  shows "\<exists>r. submit_waiting U fds datas ctx l = Inr (l\<lparr>lp_ring := r\<rparr>) \<and>
    queued r = queued (lp_ring l) @ [Some (waiting_request (lp_bgid l) fds datas ctx)] \<and>
    handed r = handed (lp_ring l)"
  using assms(3) submit_sqe_free [OF assms(1,2)]
  by (cases ctx) (auto simp: waiting_request_def submitReadMultishut_now_def submitWriteMsg_now_def
      submitAcceptMultishut_now_def)

definition round_quota :: "nat \<Rightarrow> size_t \<Rightarrow> nat \<Rightarrow> nat \<Rightarrow> nat" where
  "round_quota space low waiting processed =
     min (100 - processed) (min waiting (space - unat low))"

lemma round_quota_Suc:
  assumes "processed < 100" and "unat low < space"
  shows "round_quota space low (Suc w) processed = Suc (round_quota (space - 1) low w (processed + 1))"
  using assms unfolding round_quota_def by linarith

lemma waiting_loop_ok:
  assumes laws: "uring_laws U queued handed n" and "WakeupCtx \<notin> set (lp_waiting l)"
  shows "\<exists>r. waiting_loop U fds datas processed l =
      Inr (l\<lparr>lp_ring := r, lp_waiting := drop (round_quota (n - length (queued (lp_ring l)))
              (lp_low_water l) (length (lp_waiting l)) processed) (lp_waiting l)\<rparr>) \<and>
    handed r @ queued r = sent queued handed l @
      map (Some \<circ> waiting_request (lp_bgid l) fds datas)
        (take (round_quota (n - length (queued (lp_ring l))) (lp_low_water l)
                (length (lp_waiting l)) processed) (lp_waiting l))"
  using assms(2)
proof (induction "100 - processed" arbitrary: processed l)
  case 0
  then have "round_quota a b c processed = 0" for a b c by (simp add: round_quota_def)
  with 0 show ?case
    by (subst waiting_loop.simps) (auto simp: sent_def intro!: exI [of _ "lp_ring l"])
next
  case (Suc k)
  let ?q = "\<lambda>l. round_quota (n - length (queued (lp_ring l))) (lp_low_water l) (length (lp_waiting l))"
  have sp: "lp_low_water l < ucast (remainedSqe U l) \<longleftrightarrow>
      unat (lp_low_water l) < n - length (queued (lp_ring l))"
    using space_iff_free [OF laws, of l] by (simp add: word_less_nat_alt)
  show ?case
  proof (cases "lp_waiting l \<noteq> [] \<and> unat (lp_low_water l) < n - length (queued (lp_ring l))")
    case False
    then have "?q l processed = 0" by (auto simp: round_quota_def)
    with False sp show ?thesis
      by (subst waiting_loop.simps) (auto simp: sent_def intro!: exI [of _ "lp_ring l"])
  next
    case True
    then obtain ctx ws where w: "lp_waiting l = ctx # ws" by (cases "lp_waiting l") auto
    have "length (queued (lp_ring l)) < n" using True by linarith
    then obtain r where r: "submit_waiting U fds datas ctx l = Inr (l\<lparr>lp_ring := r\<rparr>)"
      "queued r = queued (lp_ring l) @ [Some (waiting_request (lp_bgid l) fds datas ctx)]"
      "handed r = handed (lp_ring l)"
      using submit_waiting_ok [OF laws, of l ctx fds datas] Suc.prems w by auto
    let ?l = "l\<lparr>lp_ring := r, lp_waiting := ws\<rparr>"
    have q: "?q l processed = Suc (?q ?l (processed + 1))"
      using Suc.hyps(2) True w r(2)
        round_quota_Suc [of processed "lp_low_water l" "n - length (queued (lp_ring l))" "length ws"]
      by simp
    have unf: "waiting_loop U fds datas processed l = waiting_loop U fds datas (processed + 1) ?l"
      using Suc.hyps(2) True w sp r(1) by (subst waiting_loop.simps) auto
    show ?thesis
      using Suc.hyps(1) [of "processed + 1" ?l] Suc.hyps(2) Suc.prems w r(2,3)
      unfolding unf q by (auto simp: sent_def)
  qed
qed

section \<open>Properties of the submission path\<close>

text \<open>
  C25 No request is lost: with a positive low-water mark, submitting a receive, a write or an
  accept never fails an assertion; the request is prepared in the ring, behind everything prepared
  before it, or its context is queued behind the requests already kept back.
\<close>

theorem submit_never_loses:
  assumes "uring_laws U queued handed n" and "0 < lp_low_water l"
  shows "\<exists>lr lw la. submitReadMultishut U fd rctx l = Inr lr \<and>
    submitWriteMsg U fd vs wctx l = Inr lw \<and> submitAcceptMultishut U fd actx l = Inr la \<and>
    (if below_low_water U l
     then lr = l\<lparr>lp_waiting := lp_waiting l @ [rctx]\<rparr> \<and> lw = l\<lparr>lp_waiting := lp_waiting l @ [wctx]\<rparr> \<and>
          la = l\<lparr>lp_waiting := lp_waiting l @ [actx]\<rparr>
     else sent queued handed lr = sent queued handed l @ [Some (RecvMultishot fd (lp_bgid l) rctx)] \<and>
          sent queued handed lw = sent queued handed l @ [Some (Writev fd vs wctx)] \<and>
          sent queued handed la = sent queued handed l @ [Some (MultishotAccept fd actx)])"
proof (cases "below_low_water U l")
  case True
  then show ?thesis
    by (simp add: submitReadMultishut_def submitWriteMsg_def submitAcceptMultishut_def)
next
  case False
  have ok: "\<exists>l'. submit_sqe U False s l = Inr l' \<and>
      sent queued handed l' = sent queued handed l @ [Some s]" for s
    using submit_sqe_free [OF assms(1) above_low_water_free [OF assms(1) False assms(2)], of False s]
    by (auto simp: sent_def)
  from ok [of "RecvMultishot fd (lp_bgid l) rctx"] ok [of "Writev fd vs wctx"]
    ok [of "MultishotAccept fd actx"] False
  show ?thesis
    by (auto simp: submitReadMultishut_def submitWriteMsg_def submitAcceptMultishut_def
        submitReadMultishut_now_def submitWriteMsg_now_def submitAcceptMultishut_now_def)
qed

text \<open>
  \<open>doingSubmitWaitingTask\<close> submits the requests kept back in the order they were queued: the first
  \<open>min 100 (min waiting (space - low_water))\<close> of them, and no assertion fails.
\<close>

theorem waiting_requests_in_order:
  assumes "uring_laws U queued handed n" and "WakeupCtx \<notin> set (lp_waiting l)"
  shows "\<exists>l'. doingSubmitWaitingTask U fds datas l = Inr l' \<and>
    (let k = min 100 (min (length (lp_waiting l))
               (n - length (queued (lp_ring l)) - unat (lp_low_water l)))
     in lp_waiting l' = drop k (lp_waiting l) \<and>
        sent queued handed l' = sent queued handed l @
          map (Some \<circ> waiting_request (lp_bgid l) fds datas) (take k (lp_waiting l)))"
  using waiting_loop_ok [OF assms, of fds datas 0]
  by (auto simp: doingSubmitWaitingTask_def round_quota_def sent_def Let_def)

text \<open>
  Urgent requests always get through: on a ring with at least one entry, a cancel request and
  the re-arming of the eventfd succeed even when the submission queue is full, and the cancel is
  handed to the kernel at once, together with everything prepared before it.
\<close>

theorem urgent_requests_succeed:
  assumes "uring_laws U queued handed n" and "0 < n"
  shows "\<exists>lc lo. submitCancel U ctx l = Inr lc \<and> loop_on_completion U l = Inr lo \<and>
    handed (lp_ring lc) = sent queued handed l @ [Some (CancelRequest ctx)] \<and>
    queued (lp_ring lc) = [] \<and>
    sent queued handed lo = sent queued handed l @ [Some (ReadEventfd (lp_wakeup_fd l))]"
  using submit_sqe_forced [OF assms, of "CancelRequest ctx" l]
    submit_sqe_forced [OF assms, of "ReadEventfd (lp_wakeup_fd l)" l] uring_submit [OF assms(1)]
  by (auto simp: submitCancel_def loop_on_completion_def sent_def)

text \<open>
  With a low-water mark of 0 there is no back-pressure at all: a receive submitted while the
  submission queue is full runs into the assertion that an entry was found.
\<close>

theorem zero_low_water_asserts:
  assumes "uring_laws U queued handed n" and "lp_low_water l = 0"
    and "length (queued (lp_ring l)) = n"
  shows "submitReadMultishut U fd ctx l = Inl AssertFailed"
  using assms uring_get_full [OF assms(1), of "lp_ring l"]
  by (simp add: submitReadMultishut_def below_low_water_def submitReadMultishut_now_def
      submit_sqe_def getIoUringSqe_def)

text \<open>
  The loop never oversleeps: the timeout it passes to the kernel is at most the ten seconds of
  \<open>kPollTimeS\<close> and at most the time left for the earliest timer, and it is one of the two.
\<close>

theorem timeout_is_minimum:
  assumes "lp_time_out l = kPollTimeS" and "tq_list (lp_timers l) \<noteq> []"
  shows "(let t = getTimeOutPeriod now l; ns = tv_sec t * 10 ^ 9 + tv_nsec t;
              left = max 100 (fst (fst (hd (tq_list (lp_timers l)))) - ts_us now) * 1000
          in ns = min (10 * 10 ^ 9) left)"
proof -
  define us where "us = max 100 (fst (fst (hd (tq_list (lp_timers l)))) - ts_us now)"
  have r: "getRecentExpireTime now (lp_timers l) =
      \<lparr>tv_sec = us div 1000000, tv_nsec = (us mod 1000000) * 1000\<rparr>"
    using assms(2)
    by (auto simp: getRecentExpireTime_def howMuchTimeFromNow_def Let_def max_def us_def)
  have d: "us = us div 1000000 * 1000000 + us mod 1000000" "0 \<le> us mod 1000000"
    "us mod 1000000 < 1000000"
    by simp_all
  have "tv_sec t * 1000000000 + tv_nsec t = min 10000000000 (us * 1000)"
    if "t = getTimeOutPeriod now l" for t
  proof (cases "us div 1000000 < 10")
    case True
    then have "us * 1000 < 10000000000" "us * 1000 = us div 1000000 * 1000000000 + us mod 1000000 * 1000"
      using d by linarith+
    with True assms(1) r that show ?thesis
      by (simp add: getTimeOutPeriod_def kPollTimeS_def Let_def min_def)
  next
    case False
    then have "10000000000 \<le> us * 1000" using d(1,2) by linarith
    with False assms(1) r that show ?thesis
      by (simp add: getTimeOutPeriod_def kPollTimeS_def Let_def min_def)
  qed
  then show ?thesis by (simp add: Let_def us_def)
qed

section \<open>A concrete ring and loop\<close>

text \<open>A submission queue of two entries, as the list of its slots and the list handed over.\<close>

type_synonym slots = "sqe option list \<times> sqe option list"

definition slot_ring :: "slots uring_api" where
  "slot_ring =
     \<lparr>ur_sq_space_left = (\<lambda>r. of_nat (2 - length (take 2 (fst r)))),
      ur_get_sqe = (\<lambda>r. if length (fst r) < 2 then (Some (length (fst r)), (fst r @ [None], snd r))
                        else (None, r)),
      ur_prep = (\<lambda>i s r. ((fst r)[i := Some s], snd r)),
      ur_submit = (\<lambda>r. ([], snd r @ take 2 (fst r)))\<rparr>"

lemma slot_ring_laws: "uring_laws slot_ring (\<lambda>r. take 2 (fst r)) snd 2"
proof -
  have u: "unat (of_nat (2 - k) :: u32) = 2 - k" for k
    by (intro unat_of_nat_small) simp
  show ?thesis
    unfolding uring_laws_def using u
    by (auto simp: slot_ring_def take_update_swap simp del: of_nat_diff)
qed

definition demo_loop :: "(slots, unit, nat \<times> int) io_loop" where
  "demo_loop =
     \<lparr>lp_ring = ([], []), lp_looping = False, lp_quit = False, lp_time_out = kPollTimeS,
      lp_low_water = 1, lp_bgid = 3, lp_pending = [], lp_calling = False, lp_wakeup_fd = 9,
      lp_eventfd = 0, lp_waiting = [ReadCtx 0, WriteCtx 1], lp_timers = demo_timers\<rparr>"

theorem submit_never_loses_witness:
  "\<exists>lr. submitReadMultishut slot_ring 5 (ReadCtx 2) demo_loop = Inr lr \<and>
     sent (\<lambda>r. take 2 (fst r)) snd lr = [Some (RecvMultishot 5 3 (ReadCtx 2))]"
proof -
  have "0 < lp_low_water demo_loop" "\<not> below_low_water slot_ring demo_loop"
    by (simp_all add: demo_loop_def below_low_water_def remainedSqe_def slot_ring_def)
  with submit_never_loses [OF slot_ring_laws this(1), of 5 "ReadCtx 2" "[]" "WriteCtx 1" "AcceptCtx 0"]
  show ?thesis by (auto simp: demo_loop_def sent_def)
qed

theorem waiting_requests_in_order_witness:
  "\<exists>l'. doingSubmitWaitingTask slot_ring (\<lambda>_. 5) (\<lambda>_. []) demo_loop = Inr l' \<and>
     lp_waiting l' = [WriteCtx 1]"
proof -
  have "WakeupCtx \<notin> set (lp_waiting demo_loop)" by (simp add: demo_loop_def)
  with waiting_requests_in_order [OF slot_ring_laws this, of "\<lambda>_. 5" "\<lambda>_. []"] show ?thesis
    by (auto simp: demo_loop_def Let_def)
qed

theorem urgent_requests_succeed_witness:
  "\<exists>lc. submitCancel slot_ring (ReadCtx 0) demo_loop = Inr lc \<and>
     snd (lp_ring lc) = [Some (CancelRequest (ReadCtx 0))]"
  using urgent_requests_succeed [OF slot_ring_laws, of "ReadCtx 0" demo_loop]
  by (auto simp: demo_loop_def sent_def)

theorem zero_low_water_asserts_witness:
  "submitReadMultishut slot_ring 5 (ReadCtx 0)
     (demo_loop\<lparr>lp_low_water := 0, lp_ring := ([None, None], [])\<rparr>) = Inl AssertFailed"
  by (rule zero_low_water_asserts [OF slot_ring_laws]) simp_all

theorem timeout_is_minimum_witness:
  "(let t = getTimeOutPeriod (Timestamp 0) demo_loop in tv_sec t * 10 ^ 9 + tv_nsec t = 100000)"
proof -
  have "lp_time_out demo_loop = kPollTimeS" "tq_list (lp_timers demo_loop) \<noteq> []"
    by (simp_all add: demo_loop_def demo_timers_def)
  from timeout_is_minimum [OF this, of "Timestamp 0"] show ?thesis
    by (simp add: demo_loop_def demo_timers_def Let_def)
qed

end
