(* ===== verification/Wakeup_Protocol.thy ===== *)
theory Wakeup_Protocol
  imports Loop_Correctness
begin

text \<open>
  The functor queue across threads. Other threads append a functor under the lock and then write
  the eventfd; the loop waits for completions, one of which is the read of the eventfd, and then
  takes the whole queue and runs it. The steps below are the atomic parts of \<open>queueInLoop\<close>, \<open>quit\<close>,
  \<open>loop\<close>, \<open>on_completion\<close> and \<open>doingPendingFunctors\<close>, in every interleaving the threads allow.
\<close>

datatype loop_phase = Entering | Entered | Top | Waiting | Handling | Calling | Stopped

text \<open>The read of the eventfd: prepared, handed to the kernel, or completed with its entry in the
  completion queue.\<close>

datatype eventfd_read = Idle | Prepared | Submitted | Completed

record ('r, 'f, 'cb) wakeup_state =
  wk_loop :: "('r, 'f, 'cb) io_loop"
  wk_phase :: loop_phase
  wk_read :: eventfd_read
  wk_window :: nat
  wk_tasks :: "'f list"
  wk_queued :: "'f list"
  wk_executed :: "'f list"
  wk_quits :: nat

text \<open>
  \<open>wk_window\<close> counts the threads that have appended a functor or set \<open>quit_\<close> and have not written the
  eventfd yet; \<open>wk_queued\<close>, \<open>wk_executed\<close> and \<open>wk_quits\<close> record what was asked for and done.
\<close>

definition wakeup_start :: "('r, 'f, 'cb) io_loop \<Rightarrow> ('r, 'f, 'cb) wakeup_state" where
  "wakeup_start l =
     \<lparr>wk_loop = l, wk_phase = Entering, wk_read = Idle, wk_window = 0, wk_tasks = [],
      wk_queued = [], wk_executed = [], wk_quits = 0\<rparr>"

inductive wakeup_step :: "('r, 'f, 'cb) wakeup_state \<Rightarrow> ('r, 'f, 'cb) wakeup_state \<Rightarrow> bool" where
  push_remote: "wakeup_step s (s\<lparr>wk_loop := queue_push f (wk_loop s), wk_window := wk_window s + 1,
    wk_queued := wk_queued s @ [f]\<rparr>)"
| quit_remote: "wakeup_step s (s\<lparr>wk_loop := quit_set (wk_loop s), wk_window := wk_window s + 1,
    wk_quits := wk_quits s + 1\<rparr>)"
| wake_remote: "0 < wk_window s \<Longrightarrow>
    wakeup_step s (s\<lparr>wk_loop := wakeUp (wk_loop s), wk_window := wk_window s - 1\<rparr>)"
| kernel_read: "wk_read s = Submitted \<Longrightarrow> 0 < lp_eventfd (wk_loop s) \<Longrightarrow>
    wakeup_step s (s\<lparr>wk_loop := (wk_loop s)\<lparr>lp_eventfd := 0\<rparr>, wk_read := Completed\<rparr>)"
| enter: "wk_phase s = Entering \<Longrightarrow> \<not> lp_quit (wk_loop s) \<Longrightarrow>
    wakeup_step s (s\<lparr>wk_phase := Entered, wk_read := Prepared\<rparr>)"
| enter_quit: "wk_phase s = Entering \<Longrightarrow> lp_quit (wk_loop s) \<Longrightarrow>
    wakeup_step s (s\<lparr>wk_phase := Stopped\<rparr>)"
| started: "wk_phase s = Entered \<Longrightarrow>
    wakeup_step s (s\<lparr>wk_loop := loop_started (wk_loop s), wk_phase := Top\<rparr>)"
| stop: "wk_phase s = Top \<Longrightarrow> lp_quit (wk_loop s) \<Longrightarrow>
    wakeup_step s (s\<lparr>wk_loop := (wk_loop s)\<lparr>lp_looping := False\<rparr>, wk_phase := Stopped\<rparr>)"
| submit: "wk_phase s = Top \<Longrightarrow> \<not> lp_quit (wk_loop s) \<Longrightarrow>
    wakeup_step s (s\<lparr>wk_phase := Waiting,
      wk_read := (if wk_read s = Prepared then Submitted else wk_read s)\<rparr>)"
| wait_done: "wk_phase s = Waiting \<Longrightarrow> wakeup_step s (s\<lparr>wk_phase := Handling\<rparr>)"
| handle_wake: "wk_phase s = Handling \<Longrightarrow> wk_read s = Completed \<Longrightarrow>
    wakeup_step s (s\<lparr>wk_read := Prepared\<rparr>)"
| push_local: "wk_phase s = Handling \<or> wk_phase s = Calling \<Longrightarrow>
    wakeup_step s (s\<lparr>wk_loop := queueInLoop True f (wk_loop s), wk_queued := wk_queued s @ [f]\<rparr>)"
| quit_local: "wk_phase s = Handling \<or> wk_phase s = Calling \<Longrightarrow>
    wakeup_step s (s\<lparr>wk_loop := quit True (wk_loop s), wk_quits := wk_quits s + 1\<rparr>)"
| take: "wk_phase s = Handling \<Longrightarrow> take_pending (wk_loop s) = (tasks, l) \<Longrightarrow>
    wakeup_step s (s\<lparr>wk_loop := l, wk_tasks := tasks, wk_phase := Calling\<rparr>)"
| run: "wk_phase s = Calling \<Longrightarrow> wk_tasks s = f # fs \<Longrightarrow>
    wakeup_step s (s\<lparr>wk_tasks := fs, wk_executed := wk_executed s @ [f]\<rparr>)"
| finish: "wk_phase s = Calling \<Longrightarrow> wk_tasks s = [] \<Longrightarrow>
    wakeup_step s (s\<lparr>wk_loop := (wk_loop s)\<lparr>lp_calling := False\<rparr>, wk_phase := Top\<rparr>)"

definition wakeup_reachable :: "('r, 'f, 'cb) io_loop \<Rightarrow> ('r, 'f, 'cb) wakeup_state \<Rightarrow> bool" where
  "wakeup_reachable l s \<longleftrightarrow> wakeup_step\<^sup>*\<^sup>* (wakeup_start l) s"

text \<open>
  A token that will end the loop's wait: a thread that is about to write the eventfd, a counter the
  kernel will report, or a completion that is already there.
\<close>

definition wake_token :: "('r, 'f, 'cb) wakeup_state \<Rightarrow> bool" where
  "wake_token s \<longleftrightarrow> 0 < wk_window s \<or> 0 < lp_eventfd (wk_loop s) \<or> wk_read s = Completed"

definition wakeup_inv :: "('r, 'f, 'cb) wakeup_state \<Rightarrow> bool" where
  "wakeup_inv s \<longleftrightarrow>
     (lp_calling (wk_loop s) \<longleftrightarrow> wk_phase s = Calling) \<and>
     (wk_phase s \<noteq> Calling \<longrightarrow> wk_tasks s = []) \<and>
     (wk_read s = Idle \<longrightarrow> wk_phase s \<in> {Entering, Stopped}) \<and>
     (wk_phase s = Entering \<longrightarrow> wk_read s = Idle) \<and>
     (wk_phase s = Waiting \<longrightarrow> wk_read s \<noteq> Prepared) \<and>
     (lp_pending (wk_loop s) \<noteq> [] \<longrightarrow> wk_phase s = Handling \<or> wake_token s) \<and>
     (lp_quit (wk_loop s) \<longrightarrow> wk_phase s \<in> {Top, Handling, Calling, Stopped} \<or> wake_token s) \<and>
     wk_queued s = wk_executed s @ wk_tasks s @ lp_pending (wk_loop s)"

lemma wakeUp_fields [simp]:
  "lp_pending (wakeUp l) = lp_pending l" "lp_calling (wakeUp l) = lp_calling l"
  "lp_quit (wakeUp l) = lp_quit l" "0 < lp_eventfd (wakeUp l)"
  by (auto simp: wakeUp_def)

lemmas loop_part_defs = queue_push_def queue_wake_def queueInLoop_def quit_def quit_set_def
  loop_started_def take_pending_def

lemma wakeup_inv_start: "lp_pending l = [] \<Longrightarrow> \<not> lp_calling l \<Longrightarrow> \<not> lp_quit l \<Longrightarrow> wakeup_inv (wakeup_start l)"
  by (simp add: wakeup_inv_def wakeup_start_def)

lemma wakeup_inv_step: "wakeup_step s s' \<Longrightarrow> wakeup_inv s \<Longrightarrow> wakeup_inv s'"
  by (induction rule: wakeup_step.induct)
    (auto simp: wakeup_inv_def wake_token_def loop_part_defs Let_def split: if_splits)

interpretation wakeup: step_invariant wakeup_step wakeup_inv
  by unfold_locales (rule wakeup_inv_step)

definition idle_loop :: "('r, 'f, 'cb) io_loop \<Rightarrow> bool" where
  "idle_loop l \<longleftrightarrow> lp_pending l = [] \<and> \<not> lp_calling l \<and> \<not> lp_quit l"

lemma wakeup_reachable_inv:
  assumes "idle_loop l" and "wakeup_reachable l s"
  shows "wakeup_inv s"
  using assms wakeup.inv_along_run by (auto simp: wakeup_reachable_def idle_loop_def intro: wakeup_inv_start)

text \<open>
  C11 No wake-up is lost: whenever the loop waits while a functor is queued or \<open>quit_\<close> is set, the
  wait ends without the timeout: the completion of the eventfd read is there, or the read is with
  the kernel and the counter is positive, or a thread is about to write the counter.
\<close>

theorem no_lost_wakeup:
  assumes "idle_loop l" and "wakeup_reachable l s" and "wk_phase s = Waiting"
    and "lp_pending (wk_loop s) \<noteq> [] \<or> lp_quit (wk_loop s)"
  shows "wk_read s = Completed \<or>
    wk_read s = Submitted \<and> (0 < lp_eventfd (wk_loop s) \<or> 0 < wk_window s)"
  using wakeup_reachable_inv [OF assms(1,2)] assms(3,4)
  by (cases "wk_read s") (auto simp: wakeup_inv_def wake_token_def)

text \<open>
  C19 Every functor queued for the loop, from whatever thread, is run exactly once and in the order
  of queueing: the functors queued so far are the ones already run, then the ones taken for this
  round, then the ones still in the queue.
\<close>

theorem functors_run_once_in_order:
  assumes "idle_loop l" and "wakeup_reachable l s"
  shows "wk_queued s = wk_executed s @ wk_tasks s @ lp_pending (wk_loop s)"
  using wakeup_reachable_inv [OF assms] by (simp add: wakeup_inv_def)

text \<open>
  A \<open>quit\<close> can be lost: \<open>loop\<close> clears \<open>quit_\<close> after it has checked it, so when another thread calls
  \<open>quit\<close> in between, the loop goes on waiting although it was asked to stop and the eventfd was
  written and read.
\<close>

theorem quit_can_be_lost:
  assumes "idle_loop l" and "lp_eventfd l = 0"
  shows "\<exists>s. wakeup_reachable l s \<and> wk_quits s = 1 \<and> wk_phase s = Waiting \<and>
    \<not> lp_quit (wk_loop s) \<and> wk_window s = 0 \<and> lp_eventfd (wk_loop s) = 0 \<and> wk_read s = Submitted"
proof -
  define s0 where "s0 = wakeup_start l"
  define s1 where "s1 = s0\<lparr>wk_phase := Entered, wk_read := Prepared\<rparr>"
  define s2 where "s2 = s1\<lparr>wk_loop := quit_set (wk_loop s1), wk_window := wk_window s1 + 1,
    wk_quits := wk_quits s1 + 1\<rparr>"
  define s3 where "s3 = s2\<lparr>wk_loop := wakeUp (wk_loop s2), wk_window := wk_window s2 - 1\<rparr>"
  define s4 where "s4 = s3\<lparr>wk_loop := loop_started (wk_loop s3), wk_phase := Top\<rparr>"
  define s5 where "s5 = s4\<lparr>wk_phase := Waiting,
    wk_read := (if wk_read s4 = Prepared then Submitted else wk_read s4)\<rparr>"
  define s6 where "s6 = s5\<lparr>wk_loop := (wk_loop s5)\<lparr>lp_eventfd := 0\<rparr>, wk_read := Completed\<rparr>"
  define s7 where "s7 = s6\<lparr>wk_phase := Handling\<rparr>"
  define s8 where "s8 = s7\<lparr>wk_read := Prepared\<rparr>"
  define s9 where "s9 = s8\<lparr>wk_loop := snd (take_pending (wk_loop s8)),
    wk_tasks := fst (take_pending (wk_loop s8)), wk_phase := Calling\<rparr>"
  define s10 where "s10 = s9\<lparr>wk_loop := (wk_loop s9)\<lparr>lp_calling := False\<rparr>, wk_phase := Top\<rparr>"
  define s11 where "s11 = s10\<lparr>wk_phase := Waiting,
    wk_read := (if wk_read s10 = Prepared then Submitted else wk_read s10)\<rparr>"
  note d = s0_def s1_def s2_def s3_def s4_def s5_def s6_def s7_def s8_def s9_def s10_def s11_def
  note facts = assms [unfolded idle_loop_def]
  have ok: "wk_phase s0 = Entering" "\<not> lp_quit (wk_loop s0)" "0 < wk_window s2"
    "wk_phase s3 = Entered" "wk_phase s4 = Top" "\<not> lp_quit (wk_loop s4)"
    "wk_read s5 = Submitted" "0 < lp_eventfd (wk_loop s5)" "wk_phase s6 = Waiting"
    "wk_phase s7 = Handling" "wk_read s7 = Completed" "wk_phase s8 = Handling"
    "wk_phase s9 = Calling" "wk_tasks s9 = []" "wk_phase s10 = Top" "\<not> lp_quit (wk_loop s10)"
    using facts by (simp_all add: d wakeup_start_def loop_part_defs wakeUp_def)
  have "wakeup_step s0 s1" unfolding s1_def by (rule enter [OF ok(1,2)])
  moreover have "wakeup_step s1 s2" unfolding s2_def by (rule quit_remote)
  moreover have "wakeup_step s2 s3" unfolding s3_def by (rule wake_remote [OF ok(3)])
  moreover have "wakeup_step s3 s4" unfolding s4_def by (rule started [OF ok(4)])
  moreover have "wakeup_step s4 s5" unfolding s5_def by (rule submit [OF ok(5,6)])
  moreover have "wakeup_step s5 s6" unfolding s6_def by (rule kernel_read [OF ok(7,8)])
  moreover have "wakeup_step s6 s7" unfolding s7_def by (rule wait_done [OF ok(9)])
  moreover have "wakeup_step s7 s8" unfolding s8_def by (rule handle_wake [OF ok(10,11)])
  moreover have "wakeup_step s8 s9" unfolding s9_def by (rule take [OF ok(12)]) simp
  moreover have "wakeup_step s9 s10" unfolding s10_def by (rule finish [OF ok(13,14)])
  moreover have "wakeup_step s10 s11" unfolding s11_def by (rule submit [OF ok(15,16)])
  ultimately have "wakeup_reachable l s11"
    unfolding wakeup_reachable_def s0_def [symmetric]
    by (meson converse_rtranclp_into_rtranclp rtranclp.rtrancl_refl)
  moreover have "wk_quits s11 = 1 \<and> wk_phase s11 = Waiting \<and> \<not> lp_quit (wk_loop s11) \<and>
      wk_window s11 = 0 \<and> lp_eventfd (wk_loop s11) = 0 \<and> wk_read s11 = Submitted"
    using facts by (simp add: d wakeup_start_def loop_part_defs wakeUp_def)
  ultimately show ?thesis by blast
qed

section \<open>Witnesses\<close>

lemma demo_loop_idle: "idle_loop demo_loop" "lp_eventfd demo_loop = 0"
  by (simp_all add: idle_loop_def demo_loop_def)

text \<open>A run in which a functor is queued, and the eventfd written, while the loop waits.\<close>

definition demo_waiting :: "(slots, unit, nat \<times> int) wakeup_state" where
  "demo_waiting =
     \<lparr>wk_loop = (queue_push () (loop_started demo_loop)), wk_phase = Waiting,
      wk_read = Submitted, wk_window = 1, wk_tasks = [], wk_queued = [()], wk_executed = [],
      wk_quits = 0\<rparr>"

lemma demo_waiting_reachable: "wakeup_reachable demo_loop demo_waiting"
proof -
  let ?s0 = "wakeup_start demo_loop"
  let ?s1 = "?s0\<lparr>wk_phase := Entered, wk_read := Prepared\<rparr>"
  let ?s2 = "?s1\<lparr>wk_loop := loop_started (wk_loop ?s1), wk_phase := Top\<rparr>"
  let ?s3 = "?s2\<lparr>wk_phase := Waiting, wk_read := Submitted\<rparr>"
  have "wakeup_step ?s0 ?s1" by (rule enter) (simp_all add: wakeup_start_def demo_loop_def)
  moreover have "wakeup_step ?s1 ?s2" by (rule started) simp
  moreover have "wakeup_step ?s2 ?s3"
    using submit [of ?s2] by (simp add: loop_started_def)
  moreover have "wakeup_step ?s3 demo_waiting"
    using push_remote [of ?s3 "()"] by (simp add: demo_waiting_def wakeup_start_def)
  ultimately show ?thesis
    unfolding wakeup_reachable_def by (meson converse_rtranclp_into_rtranclp rtranclp.rtrancl_refl)
qed

theorem no_lost_wakeup_witness:
  "wk_read demo_waiting = Completed \<or>
   wk_read demo_waiting = Submitted \<and>
     (0 < lp_eventfd (wk_loop demo_waiting) \<or> 0 < wk_window demo_waiting)"
  by (rule no_lost_wakeup [OF demo_loop_idle(1) demo_waiting_reachable])
    (simp_all add: demo_waiting_def queue_push_def)

theorem functors_run_once_in_order_witness:
  "wk_queued demo_waiting =
     wk_executed demo_waiting @ wk_tasks demo_waiting @ lp_pending (wk_loop demo_waiting)"
  by (rule functors_run_once_in_order [OF demo_loop_idle(1) demo_waiting_reachable])

theorem quit_can_be_lost_witness:
  "\<exists>s. wakeup_reachable demo_loop s \<and> wk_quits s = 1 \<and> \<not> lp_quit (wk_loop s) \<and> wk_phase s = Waiting"
  using quit_can_be_lost [OF demo_loop_idle] by blast

end
