(* ===== verification/Text_Format.thy ===== *)
theory Text_Format
  imports Proactor_Prelude
begin

text \<open>
  The text the sources build with \<open>snprintf\<close> and \<open>std::to_string\<close>: decimal numbers and what a
  zero-initialised \<open>char\<close> array of a given size holds after formatting into it.
\<close>

section \<open>Decimal numbers\<close>

definition digit_char :: "nat \<Rightarrow> char" where
  "digit_char d = char_of (48 + d)"

fun dec :: "nat \<Rightarrow> string" where
  "dec n = (if n < 10 then [digit_char n] else dec (n div 10) @ [digit_char (n mod 10)])"

declare dec.simps [simp del]

definition dec_int :: "int \<Rightarrow> string" where
  "dec_int i = (if i < 0 then CHR ''-'' # dec (nat (- i)) else dec (nat i))"

text \<open>Reading a decimal number back.\<close>

definition undec :: "string \<Rightarrow> nat" where
  "undec s = foldl (\<lambda>a c. 10 * a + (of_char c - 48)) 0 s"

lemma of_digit_char: "d < 10 \<Longrightarrow> of_char (digit_char d) = 48 + d"
  by (simp add: digit_char_def)

lemma digit_char_inj: "d < 10 \<Longrightarrow> e < 10 \<Longrightarrow> digit_char d = digit_char e \<longleftrightarrow> d = e"
  by (metis add_left_cancel of_digit_char)

lemma undec_dec [simp]: "undec (dec n) = n"
proof (induction n rule: dec.induct)
  case (1 n)
  then show ?case
    by (cases "n < 10") (simp_all add: dec.simps [of n] undec_def of_digit_char)
qed

lemma dec_inj: "dec m = dec n \<longleftrightarrow> m = n"
  by (metis undec_dec)

lemma dec_int_inj: "0 \<le> i \<Longrightarrow> 0 \<le> j \<Longrightarrow> dec_int i = dec_int j \<longleftrightarrow> i = j"
  by (simp add: dec_int_def dec_inj nat_eq_iff)

definition digits :: "char set" where
  "digits = digit_char ` {..<10}"

lemma dec_digits: "set (dec n) \<subseteq> digits"
proof (induction n rule: dec.induct)
  case (1 n)
  then show ?case
    by (cases "n < 10") (auto simp: dec.simps [of n] digits_def)
qed

lemma dec_not_Nil [simp]: "dec n \<noteq> []"
  by (subst dec.simps) simp

lemma length_dec: "n < 10 ^ Suc k \<Longrightarrow> length (dec n) \<le> Suc k"
proof (induction k arbitrary: n)
  case 0
  then show ?case by (simp add: dec.simps)
next
  case (Suc k)
  have "n div 10 < 10 ^ Suc k" using Suc.prems by (simp add: less_mult_imp_div_less mult.commute)
  then show ?case using Suc.IH [of "n div 10"] by (subst dec.simps) simp
qed

lemma digits_no_punctuation:
  "CHR ''.'' \<notin> digits" "CHR '':'' \<notin> digits" "CHR ''#'' \<notin> digits" "CHR ''-'' \<notin> digits"
proof -
  have "c \<notin> digits" if "of_char c < (48::nat) \<or> (58::nat) \<le> of_char c" for c
    using that by (auto simp: digits_def of_digit_char)
  then show "CHR ''.'' \<notin> digits" "CHR '':'' \<notin> digits" "CHR ''#'' \<notin> digits" "CHR ''-'' \<notin> digits"
    by simp_all
qed

lemma dec_punctuation [simp]:
  "CHR ''.'' \<notin> set (dec n)" "CHR '':'' \<notin> set (dec n)" "CHR ''#'' \<notin> set (dec n)"
  "CHR ''-'' \<notin> set (dec n)"
  using dec_digits [of n] digits_no_punctuation by blast+

section \<open>Bounded formatting\<close>

text \<open>
  \<open>snprintf_buf size s\<close> is the C string in an array of \<open>size\<close> zero bytes after \<open>snprintf\<close> has formatted
  the text \<open>s\<close> into it: at most \<open>size - 1\<close> characters are stored.
\<close>

definition snprintf_buf :: "nat \<Rightarrow> string \<Rightarrow> string" where
  "snprintf_buf size_of s = take (size_of - 1) s"

lemma snprintf_buf_fits [simp]: "length s < n \<Longrightarrow> snprintf_buf n s = s"
  by (simp add: snprintf_buf_def)

lemma snprintf_buf_length: "0 < n \<Longrightarrow> length (snprintf_buf n s) < n"
  by (auto simp: snprintf_buf_def)

section \<open>Splitting at a separator\<close>

lemma append_sep_eq:
  assumes "c \<notin> set u" and "c \<notin> set v"
  shows "u @ c # x = v @ c # y \<longleftrightarrow> u = v \<and> x = y"
  using assms
proof (induction u arbitrary: v)
  case Nil
  then show ?case by (cases v) auto
next
  case (Cons a u)
  then show ?case by (cases v) auto
qed

end
