(* ===== verification/Inet_Address.thy ===== *)
theory Inet_Address
  imports Text_Format
begin

text \<open>
  \<open>InetAddress\<close> (src/InetAddress.cc, include/InetAddress.h) on a little-endian host. \<open>inet_addr\<close> of
  the C library is a parameter of the constructor; \<open>inet_ntop\<close> for IPv4 prints the four bytes of the
  address in memory order, separated by dots.
\<close>

record sockaddr_in =
  sin_family :: u16
  sin_port :: u16
  sin_addr :: u32

definition AF_INET :: u16 where "AF_INET = 2"

definition htons :: "u16 \<Rightarrow> u16" where
  "htons x = push_bit 8 x OR drop_bit 8 x"

definition ntohs :: "u16 \<Rightarrow> u16" where
  "ntohs x = push_bit 8 x OR drop_bit 8 x"

lemma ntohs_htons [simp]: "ntohs (htons p) = p"
  by (rule bit_word_eqI) (auto simp: ntohs_def htons_def bit_simps)

definition addr_byte :: "nat \<Rightarrow> u32 \<Rightarrow> nat" where
  "addr_byte i a = unat (ucast (drop_bit (8 * i) a) :: byte)"

definition inet_ntop :: "u32 \<Rightarrow> string" where
  "inet_ntop a =
     dec (addr_byte 0 a) @ CHR ''.'' # dec (addr_byte 1 a) @ CHR ''.'' # dec (addr_byte 2 a) @
     CHR ''.'' # dec (addr_byte 3 a)"

section \<open>Addresses\<close>

definition InetAddress :: "(string \<Rightarrow> u32) \<Rightarrow> u16 \<Rightarrow> string \<Rightarrow> sockaddr_in" where
  "InetAddress inet_addr port ip =
     \<lparr>sin_family = AF_INET, sin_port = htons port, sin_addr = inet_addr ip\<rparr>"

definition setSockAddr :: "sockaddr_in \<Rightarrow> sockaddr_in \<Rightarrow> sockaddr_in" where
  "setSockAddr new_addr a = new_addr"

definition toIp :: "sockaddr_in \<Rightarrow> string" where
  "toIp a = snprintf_buf 64 (inet_ntop (sin_addr a))"

text \<open>The port is formatted behind the address, into what is left of the array.\<close>

definition toIpPort :: "sockaddr_in \<Rightarrow> string" where
  "toIpPort a =
     (let buf = snprintf_buf 64 (inet_ntop (sin_addr a));
          end_pos = length buf
      in buf @ snprintf_buf (64 - end_pos) (CHR '':'' # dec (unat (ntohs (sin_port a)))))"

definition toPort :: "sockaddr_in \<Rightarrow> u16" where
  "toPort a = ntohs (sin_port a)"

section \<open>Text of an address\<close>

lemma addr_byte_less: "addr_byte i a < 256"
  using unsigned_less [of "ucast (drop_bit (8 * i) a) :: byte"] by (simp add: addr_byte_def)

lemma addr_bytes_inj:
  assumes "\<And>i. i < 4 \<Longrightarrow> addr_byte i a = addr_byte i b"
  shows "a = b"
proof (rule bit_word_eqI)
  fix n assume "n < LENGTH(32)"
  then have n: "n div 8 < 4" by simp
  have "(ucast (drop_bit (8 * (n div 8)) a) :: byte) = ucast (drop_bit (8 * (n div 8)) b)"
    using assms [OF n] unfolding addr_byte_def by (rule unsigned_word_eqI)
  then have "bit (ucast (drop_bit (8 * (n div 8)) a) :: byte) (n mod 8) =
      bit (ucast (drop_bit (8 * (n div 8)) b) :: byte) (n mod 8)" by simp
  then show "bit a n = bit b n" by (simp add: bit_simps)
qed

lemma inet_ntop_inj: "inet_ntop a = inet_ntop b \<longleftrightarrow> a = b"
proof
  assume "inet_ntop a = inet_ntop b"
  then have eq: "addr_byte 0 a = addr_byte 0 b" "addr_byte 1 a = addr_byte 1 b"
    "addr_byte 2 a = addr_byte 2 b" "addr_byte 3 a = addr_byte 3 b"
    by (simp_all add: inet_ntop_def append_sep_eq dec_inj)
  have "addr_byte i a = addr_byte i b" if "i < 4" for i
  proof -
    have "i = 0 \<or> i = 1 \<or> i = 2 \<or> i = 3" using that by linarith
    then show ?thesis using eq by auto
  qed
  then show "a = b" by (rule addr_bytes_inj)
qed simp

lemma length_addr_byte: "length (dec (addr_byte i a)) \<le> 3"
  using length_dec [of "addr_byte i a" 2] addr_byte_less [of i a] by (simp add: numeral_3_eq_3)

lemma inet_ntop_length: "length (inet_ntop a) \<le> 15"
  using length_addr_byte [of 0 a] length_addr_byte [of 1 a] length_addr_byte [of 2 a]
    length_addr_byte [of 3 a]
  by (simp add: inet_ntop_def)

lemma inet_ntop_no_colon [simp]: "CHR '':'' \<notin> set (inet_ntop a)" "CHR ''#'' \<notin> set (inet_ntop a)"
  by (simp_all add: inet_ntop_def)

lemma port_length: "length (dec (unat (p :: u16))) \<le> 5"
proof -
  have "unat p < 2 ^ LENGTH(16)" by (rule unsigned_less)
  then have "unat p < 10 ^ Suc 4" by simp
  from length_dec [OF this] show ?thesis by simp
qed

lemma toIpPort_text:
  "toIpPort a = inet_ntop (sin_addr a) @ CHR '':'' # dec (unat (ntohs (sin_port a)))"
proof -
  let ?ip = "inet_ntop (sin_addr a)" and ?port = "CHR '':'' # dec (unat (ntohs (sin_port a)))"
  have ip: "snprintf_buf 64 ?ip = ?ip" using inet_ntop_length [of "sin_addr a"] by simp
  have "length ?port < 64 - length ?ip"
    using inet_ntop_length [of "sin_addr a"] port_length [of "ntohs (sin_port a)"] by simp
  then show ?thesis by (simp add: toIpPort_def ip Let_def)
qed

lemma toIpPort_length: "length (toIpPort a) \<le> 21"
  using inet_ntop_length [of "sin_addr a"] port_length [of "ntohs (sin_port a)"]
  by (simp add: toIpPort_text)

lemma toIpPort_no_hash [simp]: "CHR ''#'' \<notin> set (toIpPort a)"
  by (simp add: toIpPort_text)

text \<open>
  The text of an address is never cut off by its 64-byte buffer, it has at most 21 characters, and
  it identifies the address and the port: two addresses with the same text have the same IP address
  and port.
\<close>

theorem toIpPort_faithful:
  "toIpPort a = toIp a @ CHR '':'' # dec (unat (toPort a)) \<and> length (toIpPort a) \<le> 21 \<and>
   (toIpPort a = toIpPort b \<longleftrightarrow> sin_addr a = sin_addr b \<and> toPort a = toPort b)"
proof -
  have "toIp a = inet_ntop (sin_addr a)" using inet_ntop_length [of "sin_addr a"] by (simp add: toIp_def)
  then show ?thesis
    using toIpPort_length by (simp add: toIpPort_text toPort_def append_sep_eq inet_ntop_inj dec_inj unat_eq_iff)
qed

text \<open>
  \<open>inet_addr\<close> reads the standard dotted notation, as its manual page says: it inverts \<open>inet_ntop\<close>.
\<close>

definition inet_addr_law :: "(string \<Rightarrow> u32) \<Rightarrow> bool" where
  "inet_addr_law inet_addr \<longleftrightarrow> (\<forall>a. inet_addr (inet_ntop a) = a)"

text \<open>
  C32 Constructing an address from a port and a dotted IP address and printing it gives them back: the
  port survives the byte swaps, the IP address the conversion to binary.
\<close>

theorem InetAddress_roundtrip:
  assumes "inet_addr_law inet_addr" and "ip = inet_ntop a"
  shows "toPort (InetAddress inet_addr port ip) = port \<and> toIp (InetAddress inet_addr port ip) = ip \<and>
    toIpPort (InetAddress inet_addr port ip) = ip @ CHR '':'' # dec (unat port)"
  using assms inet_ntop_length [of a]
  by (simp add: inet_addr_law_def toPort_def toIp_def toIpPort_text InetAddress_def)

section \<open>A concrete conversion\<close>

text \<open>Reading four decimal numbers separated by dots.\<close>

fun split_at :: "char \<Rightarrow> string \<Rightarrow> string list" where
  "split_at c [] = [[]]"
| "split_at c (x # xs) =
     (if x = c then [] # split_at c xs
      else (case split_at c xs of [] \<Rightarrow> [[x]] | y # ys \<Rightarrow> (x # y) # ys))"

lemma split_at_word: "c \<notin> set u \<Longrightarrow> split_at c u = [u]"
  by (induction u) auto

lemma split_at_sep: "c \<notin> set u \<Longrightarrow> split_at c (u @ c # v) = u # split_at c v"
  by (induction u) auto

definition dotted_addr :: "string \<Rightarrow> u32" where
  "dotted_addr s =
     (case map undec (split_at CHR ''.'' s) of
        [a, b, c, d] \<Rightarrow> of_nat (a + 256 * b + 256 ^ 2 * c + 256 ^ 3 * d)
      | _ \<Rightarrow> 2 ^ 32 - 1)"

lemma addr_byte_val: "addr_byte i a = unat a div 256 ^ i mod 256"
proof -
  have "(256::nat) ^ i = 2 ^ (8 * i)" by (simp add: power_mult)
  then show ?thesis
    by (simp add: addr_byte_def unsigned_ucast_eq unat_drop_bit_eq take_bit_eq_mod)
      (simp add: drop_bit_eq_div)
qed

lemma base256:
  fixes n :: nat
  assumes "a + 256 * p = n" and "b + 256 * q = p" and "c + 256 * d = q"
  shows "a + 256 * b + 256 ^ 2 * c + 256 ^ 3 * d = n"
  by (simp flip: assms)

lemma dotted_addr_law: "inet_addr_law dotted_addr"
  unfolding inet_addr_law_def
proof
  fix a :: u32
  let ?n = "unat a"
  have n: "?n < 256 ^ 4" using unsigned_less [of a] by simp
  have "?n mod 256 + 256 * (?n div 256 mod 256) + 256 ^ 2 * (?n div 256 ^ 2 mod 256) +
      256 ^ 3 * (?n div 256 ^ 3 mod 256) = ?n"
  proof -
    have d: "?n div 256 ^ 2 = ?n div 256 div 256" "?n div 256 ^ 3 = ?n div 256 div 256 div 256"
      by (simp_all add: div_mult2_eq [symmetric])
    have "?n div 256 div 256 div 256 < 256" using n by (simp add: div_mult2_eq [symmetric] less_mult_imp_div_less)
    then have q: "?n div 256 div 256 div 256 mod 256 = ?n div 256 div 256 div 256" by simp
    have e: "?n mod 256 + 256 * (?n div 256) = ?n"
      "?n div 256 mod 256 + 256 * (?n div 256 div 256) = ?n div 256"
      "?n div 256 div 256 mod 256 + 256 * (?n div 256 div 256 div 256) = ?n div 256 div 256"
      by (rule mod_mult_div_eq)+
    show ?thesis unfolding d q by (rule base256 [OF e])
  qed
  then have "addr_byte 0 a + 256 * addr_byte 1 a + 256 ^ 2 * addr_byte 2 a + 256 ^ 3 * addr_byte 3 a = ?n"
    by (simp only: addr_byte_val power_0 power_one_right div_by_1)
  moreover have "dotted_addr (inet_ntop a) =
      of_nat (addr_byte 0 a + 256 * addr_byte 1 a + 256 ^ 2 * addr_byte 2 a + 256 ^ 3 * addr_byte 3 a)"
    by (simp add: dotted_addr_def inet_ntop_def split_at_sep split_at_word)
  ultimately show "dotted_addr (inet_ntop a) = a" by (simp only:) simp
qed

theorem InetAddress_roundtrip_witness:
  "toPort (InetAddress dotted_addr 80 ''127.0.0.1'') = 80 \<and>
   toIpPort (InetAddress dotted_addr 80 ''127.0.0.1'') = ''127.0.0.1:80''"
proof -
  have ip: "''127.0.0.1'' = inet_ntop 0x0100007F"
  proof -
    have d: "dec 127 = ''127''" "dec 0 = ''0''" "dec 1 = ''1''" by code_simp+
    have "unat (0x0100007F :: u32) = 16777343" by simp
    then have "addr_byte 0 0x0100007F = 127" "addr_byte 1 0x0100007F = 0" "addr_byte 2 0x0100007F = 0"
      "addr_byte 3 0x0100007F = 1" by (simp_all add: addr_byte_val)
    with d show ?thesis by (simp add: inet_ntop_def)
  qed
  have port: "dec (unat (80 :: u16)) = ''80''" by simp code_simp
  show ?thesis using InetAddress_roundtrip [OF dotted_addr_law ip, of 80] port by simp
qed

end
