(* ===== verification/Tcp_Connection.thy ===== *)
theory Tcp_Connection
  imports Io_Uring_Loop Input_Chain_Stream Inet_Address
begin

text \<open>
  \<open>ReadContext\<close>, \<open>WriteContext\<close>, \<open>TcpConnection\<close> and its awaiters (src/ReadContext.cc,
  src/WriteContext.cc, src/TcpConnection.cc and their headers), for one connection on its loop. The
  business coroutine is a parameter: \<open>resume h s\<close> is what it does to the program between being
  resumed through the handle \<open>h\<close> and its next suspension. The \<open>shared_ptr\<close> in a context's \<open>holder_\<close> is
  the flag whether it holds the connection.
\<close>

section \<open>Contexts and connections\<close>

datatype read_status = STOPED | READING | CANCELING

record 'k read_context =
  rc_res :: int
  rc_flags :: u32
  rc_holder :: bool
  rc_handle :: "'k option"
  rc_buffer :: icb
  rc_high_water :: size_t
  rc_high_water_chunk :: size_t
  rc_fd :: int
  rc_error :: bool
  rc_status :: read_status

record 'k write_context =
  wc_res :: int
  wc_flags :: u32
  wc_holder :: bool
  wc_handle :: "'k option"
  wc_buffer :: send_queue
  wc_high_water :: size_t
  wc_fd :: int
  wc_sending :: bool
  wc_error :: bool
  wc_max_slices :: size_t
  wc_temp :: "iovec list"

definition ReadContext :: "size_t \<Rightarrow> size_t \<Rightarrow> int \<Rightarrow> 'k read_context" where
  "ReadContext high_water_mark high_water_mark_chunk fd =
     \<lparr>rc_res = 0, rc_flags = 0, rc_holder = False, rc_handle = None, rc_buffer = InputChainBuffer,
      rc_high_water = high_water_mark, rc_high_water_chunk = high_water_mark_chunk, rc_fd = fd,
      rc_error = False, rc_status = STOPED\<rparr>"

definition WriteContext :: "size_t \<Rightarrow> int \<Rightarrow> size_t \<Rightarrow> 'k write_context outcome" where
  "WriteContext high_water_mark fd max_slices =
     andThen (check (fd \<noteq> 0) AssertFailed) (\<lambda>_.
       Inr \<lparr>wc_res = 0, wc_flags = 0, wc_holder = False, wc_handle = None, wc_buffer = SendQueue,
            wc_high_water = high_water_mark, wc_fd = fd, wc_sending = False, wc_error = False,
            wc_max_slices = max_slices, wc_temp = []\<rparr>)"

text \<open>
  \<open>tc_task\<close>: \<open>task_handle_\<close> owns a coroutine frame; \<open>tc_done\<close>: the coroutine has reached its final
  suspension. \<open>tc_number\<close> stands for the address of the object, \<open>tc_closed_events\<close> counts the calls of
  \<open>close_callback_\<close>. The \<open>SO_KEEPALIVE\<close> the constructor sets is the call of its caller in Tcp_Server.
\<close>

record 'k tcp_connection =
  tc_number :: nat
  tc_name :: string
  tc_sock_fd :: int
  tc_sock_closed :: bool
  tc_closing :: bool
  tc_task :: bool
  tc_done :: bool
  tc_close_callback :: bool
  tc_closed_events :: nat
  tc_local_addr :: sockaddr_in
  tc_peer_addr :: sockaddr_in
  tc_read :: "'k read_context"
  tc_write :: "'k write_context"

definition TcpConnection ::
    "nat \<Rightarrow> string \<Rightarrow> int \<Rightarrow> sockaddr_in \<Rightarrow> sockaddr_in \<Rightarrow> size_t \<Rightarrow> size_t \<Rightarrow> size_t \<Rightarrow>
     'k tcp_connection outcome" where
  "TcpConnection number name sockfd local_addr peer_addr
     input_high_water_mark input_high_water_mark_chunk out_put_high_water_mark =
     andThen (WriteContext out_put_high_water_mark sockfd 256) (\<lambda>wc.
       Inr \<lparr>tc_number = number, tc_name = name, tc_sock_fd = sockfd, tc_sock_closed = False,
            tc_closing = False, tc_task = False, tc_done = False, tc_close_callback = False,
            tc_closed_events = 0, tc_local_addr = local_addr, tc_peer_addr = peer_addr,
            tc_read = ReadContext input_high_water_mark input_high_water_mark_chunk sockfd,
            tc_write = wc\<rparr>)"

text \<open>The functors a connection queues on its loop.\<close>

datatype 'k conn_task = RecvSuspended 'k | SendSuspended "byte list" 'k | DestroyConnection

text \<open>
  The connection with its loop and the chunk pool of the loop. \<open>cs_reads\<close> and \<open>cs_writes\<close> count the
  requests of the connection that have not completed, and \<open>cs_accepted\<close> collects the bytes given to
  \<open>sendInLoop\<close>; no operation reads them.
\<close>

record ('r, 'cb, 'b, 'k) conn_sys =
  cs_loop :: "('r, 'k conn_task, 'cb) io_loop"
  cs_manager :: "'b chunk_manager"
  cs_conn :: "'k tcp_connection"
  cs_reads :: nat
  cs_writes :: nat
  cs_accepted :: "byte list"

abbreviation the_read :: "('r, 'cb, 'b, 'k) conn_sys \<Rightarrow> 'k read_context" where
  "the_read s \<equiv> tc_read (cs_conn s)"

abbreviation the_write :: "('r, 'cb, 'b, 'k) conn_sys \<Rightarrow> 'k write_context" where
  "the_write s \<equiv> tc_write (cs_conn s)"

definition set_conn ::
    "('k tcp_connection \<Rightarrow> 'k tcp_connection) \<Rightarrow> ('r, 'cb, 'b, 'k) conn_sys \<Rightarrow> ('r, 'cb, 'b, 'k) conn_sys" where
  "set_conn f s = s\<lparr>cs_conn := f (cs_conn s)\<rparr>"

definition set_read ::
    "('k read_context \<Rightarrow> 'k read_context) \<Rightarrow> ('r, 'cb, 'b, 'k) conn_sys \<Rightarrow> ('r, 'cb, 'b, 'k) conn_sys" where
  "set_read f s = s\<lparr>cs_conn := (cs_conn s)\<lparr>tc_read := f (the_read s)\<rparr>\<rparr>"

definition set_write ::
    "('k write_context \<Rightarrow> 'k write_context) \<Rightarrow> ('r, 'cb, 'b, 'k) conn_sys \<Rightarrow> ('r, 'cb, 'b, 'k) conn_sys" where
  "set_write f s = s\<lparr>cs_conn := (cs_conn s)\<lparr>tc_write := f (the_write s)\<rparr>\<rparr>"

section \<open>Error numbers and completion flags\<close>

definition EINTR :: int where "EINTR = 4"
definition EBADF :: int where "EBADF = 9"
definition EAGAIN :: int where "EAGAIN = 11"
definition EPIPE :: int where "EPIPE = 32"
definition ECONNRESET :: int where "ECONNRESET = 104"
definition ENOBUFS :: int where "ENOBUFS = 105"
definition ENOTCONN :: int where "ENOTCONN = 107"
definition ECANCELED :: int where "ECANCELED = 125"

definition cqe_has_buffer :: "u32 \<Rightarrow> bool" where
  "cqe_has_buffer flags \<longleftrightarrow> flags AND 1 \<noteq> 0"

definition cqe_has_more :: "u32 \<Rightarrow> bool" where
  "cqe_has_more flags \<longleftrightarrow> flags AND 2 \<noteq> 0"

definition cqe_buffer :: "u32 \<Rightarrow> u16" where
  "cqe_buffer flags = ucast (drop_bit 16 flags)"

section \<open>Closing\<close>

definition handleClose :: "('r, 'cb, 'b, 'k) conn_sys \<Rightarrow> ('r, 'cb, 'b, 'k) conn_sys" where
  "handleClose s =
     (if \<not> tc_closing (cs_conn s) then
        (let s1 = set_conn (\<lambda>c. c\<lparr>tc_closing := True, tc_sock_closed := True\<rparr>) s;
             s2 = (if rc_handle (the_read s1) \<noteq> None \<or> wc_handle (the_write s1) \<noteq> None
                   then set_conn (\<lambda>c. c\<lparr>tc_task := False\<rparr>) s1 else s1);
             s3 = set_write (\<lambda>w. w\<lparr>wc_handle := None\<rparr>) (set_read (\<lambda>r. r\<lparr>rc_handle := None\<rparr>) s2)
         in if tc_close_callback (cs_conn s3)
            then set_conn (\<lambda>c. c\<lparr>tc_closed_events := tc_closed_events c + 1\<rparr>) s3 else s3)
      else set_conn (\<lambda>c. c\<lparr>tc_task := False\<rparr>) s)"

section \<open>Sending\<close>

definition submitWrite ::
    "'r uring_api \<Rightarrow> ('r, 'cb, 'b, 'k) conn_sys \<Rightarrow> ('r, 'cb, 'b, 'k) conn_sys outcome" where
  "submitWrite U s =
     andThen (submitWriteMsg U (wc_fd (the_write s)) (wc_temp (the_write s))
               (WriteCtx (tc_number (cs_conn s))) (cs_loop s)) (\<lambda>l.
       Inr (s\<lparr>cs_loop := l, cs_writes := cs_writes s + 1\<rparr>))"

definition flush ::
    "'r uring_api \<Rightarrow> ('r, 'cb, 'b, 'k) conn_sys \<Rightarrow> ('r, 'cb, 'b, 'k) conn_sys outcome" where
  "flush U s =
     andThen (getBatchFragment [] (wc_max_slices (the_write s)) (wc_buffer (the_write s))) (\<lambda>(vs, q).
       let s1 = set_write (\<lambda>w. w\<lparr>wc_buffer := q, wc_temp := vs\<rparr>) s
       in andThen (check (vs \<noteq> []) AssertFailed) (\<lambda>_.
          andThen (check (wc_holder (the_write s1)) NullDeref) (\<lambda>_.
          andThen (submitWrite U s1) (\<lambda>s2.
            Inr (set_write (\<lambda>w. w\<lparr>wc_sending := True\<rparr>) s2)))))"

definition sendInLoop ::
    "'r uring_api \<Rightarrow> byte list \<Rightarrow> ('r, 'cb, 'b, 'k) conn_sys \<Rightarrow> ('r, 'cb, 'b, 'k) conn_sys outcome" where
  "sendInLoop U data s =
     andThen (sq_append data (wc_buffer (the_write s))) (\<lambda>q.
       let s1 = (set_write (\<lambda>w. w\<lparr>wc_buffer := q\<rparr>) s)\<lparr>cs_accepted := cs_accepted s @ data\<rparr>
       in if \<not> wc_sending (the_write s1)
          then andThen (flush U (set_write (\<lambda>w. w\<lparr>wc_holder := True\<rparr>) s1)) (\<lambda>s2.
                 Inr (set_write (\<lambda>w. w\<lparr>wc_sending := True\<rparr>) s2))
          else Inr s1)"

definition write_overLoad :: "'k write_context \<Rightarrow> bool" where
  "write_overLoad w \<longleftrightarrow> wc_high_water w < sq_total_len (wc_buffer w)"

text \<open>\<open>handleError\<close>: the result and whether the connection has to be closed.\<close>

definition write_handleError :: "'k write_context \<Rightarrow> bool \<times> 'k write_context" where
  "write_handleError w =
     (if wc_res w < 0 then
        (let err = - wc_res w
         in if err = EPIPE \<or> err = ECONNRESET then (True, w\<lparr>wc_error := True\<rparr>)
            else if err = EAGAIN \<or> err = ENOBUFS then (False, w)
            else if err = EINTR then (False, w)
            else if err = EBADF \<or> err = ENOTCONN then (True, w\<lparr>wc_error := True\<rparr>)
            else (True, w\<lparr>wc_error := True\<rparr>))
      else (True, w))"

text \<open>Resuming a coroutine whose frame was destroyed is an access through a dangling handle.\<close>

definition co_resume ::
    "('k \<Rightarrow> ('r, 'cb, 'b, 'k) conn_sys \<Rightarrow> ('r, 'cb, 'b, 'k) conn_sys outcome) \<Rightarrow> 'k \<Rightarrow>
     ('r, 'cb, 'b, 'k) conn_sys \<Rightarrow> ('r, 'cb, 'b, 'k) conn_sys outcome" where
  "co_resume resume h s =
     andThen (check (tc_task (cs_conn s)) NullDeref) (\<lambda>_. resume h s)"

text \<open>The wake-up of the waiting coroutine at the end of \<open>on_completion\<close>.\<close>

definition wake_writer ::
    "('k \<Rightarrow> ('r, 'cb, 'b, 'k) conn_sys \<Rightarrow> ('r, 'cb, 'b, 'k) conn_sys outcome) \<Rightarrow>
     ('r, 'cb, 'b, 'k) conn_sys \<Rightarrow> ('r, 'cb, 'b, 'k) conn_sys outcome" where
  "wake_writer resume s =
     (case wc_handle (the_write s) of
        None \<Rightarrow> Inr s
      | Some h \<Rightarrow>
          if \<not> write_overLoad (the_write s)
          then andThen (check (\<not> tc_done (cs_conn s)) AssertFailed) (\<lambda>_.
                 co_resume resume h (set_write (\<lambda>w. w\<lparr>wc_handle := None\<rparr>) s))
          else Inr s)"

definition write_on_completion ::
    "'r uring_api \<Rightarrow> ('k \<Rightarrow> ('r, 'cb, 'b, 'k) conn_sys \<Rightarrow> ('r, 'cb, 'b, 'k) conn_sys outcome) \<Rightarrow>
     ('r, 'cb, 'b, 'k) conn_sys \<Rightarrow> ('r, 'cb, 'b, 'k) conn_sys outcome" where
  "write_on_completion U resume s =
     andThen (check (wc_holder (the_write s)) AssertFailed) (\<lambda>_.
     let (need_close, s1) =
           (if wc_res (the_write s) < 0
            then (let (close, w) = write_handleError (the_write s)
                  in (close, set_write (\<lambda>_. w\<lparr>wc_sending := False\<rparr>) s))
            else (False, s))
     in if need_close
        then andThen (case wc_handle (the_write s1) of
                        None \<Rightarrow> Inr s1 | Some h \<Rightarrow> co_resume resume h s1) (\<lambda>s2.
               Inr (set_write (\<lambda>w. w\<lparr>wc_holder := False, wc_sending := False\<rparr>) (handleClose s2)))
        else andThen (if wc_res (the_write s) < 0 then Inr s1
                      else andThen (finished (sq_retrieve (of_int (wc_res (the_write s1)))
                                      (wc_buffer (the_write s1)))) (\<lambda>q.
                             Inr (set_write (\<lambda>w. w\<lparr>wc_buffer := q\<rparr>) s1))) (\<lambda>s2.
             andThen (if 0 < sq_total_len (wc_buffer (the_write s2)) then flush U s2
                      else Inr (set_write (\<lambda>w. w\<lparr>wc_sending := False, wc_holder := False\<rparr>) s2)) (\<lambda>s3.
               wake_writer resume s3)))"

section \<open>Receiving\<close>

definition submitRead ::
    "'r uring_api \<Rightarrow> ('r, 'cb, 'b, 'k) conn_sys \<Rightarrow> ('r, 'cb, 'b, 'k) conn_sys outcome" where
  "submitRead U s =
     (let s1 = set_read (\<lambda>r. r\<lparr>rc_holder := True\<rparr>) s
      in andThen (submitReadMultishut U (rc_fd (the_read s1)) (ReadCtx (tc_number (cs_conn s1))) (cs_loop s1))
           (\<lambda>l. Inr (set_read (\<lambda>r. r\<lparr>rc_status := READING\<rparr>)
                  (s1\<lparr>cs_loop := l, cs_reads := cs_reads s1 + 1\<rparr>))))"

definition conn_submitCancel ::
    "'r uring_api \<Rightarrow> ('r, 'cb, 'b, 'k) conn_sys \<Rightarrow> ('r, 'cb, 'b, 'k) conn_sys outcome" where
  "conn_submitCancel U s =
     andThen (submitCancel U (ReadCtx (tc_number (cs_conn s))) (cs_loop s)) (\<lambda>l.
       Inr (s\<lparr>cs_loop := l\<rparr>))"

definition read_handleError :: "'k read_context \<Rightarrow> bool \<times> 'k read_context" where
  "read_handleError r =
     (if rc_res r = 0 then (True, r\<lparr>rc_error := True\<rparr>)
      else if rc_res r < 0 then
        (let err = - rc_res r
         in if err = EPIPE \<or> err = ECONNRESET then (True, r\<lparr>rc_error := True\<rparr>)
            else if err = ENOBUFS then (False, r)
            else if err = EAGAIN then (False, r)
            else if err = ENOTCONN \<or> err = EBADF then (True, r\<lparr>rc_error := True\<rparr>)
            else if err = ECANCELED then (False, r)
            else (True, r\<lparr>rc_error := True\<rparr>))
      else (True, r))"

definition read_overLoad :: "'k read_context \<Rightarrow> bool" where
  "read_overLoad r \<longleftrightarrow>
     rc_high_water r < icb_total_len (rc_buffer r) \<or> rc_high_water_chunk r < icb_chunks (rc_buffer r)"

definition read_isEmpty :: "'k read_context \<Rightarrow> bool" where
  "read_isEmpty r \<longleftrightarrow> icb_total_len (rc_buffer r) = 0"

text \<open>The arrival of data: the chunk is appended and the request cancelled above a high-water mark.\<close>

definition read_data ::
    "'r uring_api \<Rightarrow> ('r, 'cb, 'b, 'k) conn_sys \<Rightarrow> ('r, 'cb, 'b, 'k) conn_sys outcome" where
  "read_data U s =
     andThen (check (cqe_has_buffer (rc_flags (the_read s))) AssertFailed) (\<lambda>_.
     andThen (icb_append (cs_manager s) (rc_buffer (the_read s)) (cqe_buffer (rc_flags (the_read s)))
               (rc_res (the_read s))) (\<lambda>(m, b).
       let s1 = set_read (\<lambda>r. r\<lparr>rc_buffer := b\<rparr>) (s\<lparr>cs_manager := m\<rparr>)
       in if read_overLoad (the_read s1) \<and> rc_status (the_read s1) \<noteq> CANCELING
          then andThen (conn_submitCancel U s1) (\<lambda>s2.
                 Inr (set_read (\<lambda>r. r\<lparr>rc_status := CANCELING\<rparr>) s2))
          else Inr s1))"

definition wake_reader ::
    "('k \<Rightarrow> ('r, 'cb, 'b, 'k) conn_sys \<Rightarrow> ('r, 'cb, 'b, 'k) conn_sys outcome) \<Rightarrow>
     ('r, 'cb, 'b, 'k) conn_sys \<Rightarrow> ('r, 'cb, 'b, 'k) conn_sys outcome" where
  "wake_reader resume s =
     (case rc_handle (the_read s) of
        None \<Rightarrow> Inr s
      | Some h \<Rightarrow>
          andThen (check (\<not> tc_done (cs_conn s)) AssertFailed) (\<lambda>_.
            co_resume resume h (set_read (\<lambda>r. r\<lparr>rc_handle := None\<rparr>) s)))"

definition read_on_completion ::
    "'r uring_api \<Rightarrow> ('k \<Rightarrow> ('r, 'cb, 'b, 'k) conn_sys \<Rightarrow> ('r, 'cb, 'b, 'k) conn_sys outcome) \<Rightarrow>
     ('r, 'cb, 'b, 'k) conn_sys \<Rightarrow> ('r, 'cb, 'b, 'k) conn_sys outcome" where
  "read_on_completion U resume s =
     andThen (check (rc_holder (the_read s)) AssertFailed) (\<lambda>_.
     andThen (check (rc_status (the_read s) = CANCELING \<or> rc_status (the_read s) = READING) AssertFailed) (\<lambda>_.
     andThen (if rc_res (the_read s) \<le> 0
              then (let (close, r) = read_handleError (the_read s) in Inr (close, set_read (\<lambda>_. r) s))
              else andThen (read_data U s) (\<lambda>s1. Inr (False, s1))) (\<lambda>(need_close, s1).
       if \<not> cqe_has_more (rc_flags (the_read s1)) then
         (if rc_status (the_read s1) = CANCELING \<and> \<not> need_close
          then wake_reader resume (set_read (\<lambda>r. r\<lparr>rc_status := STOPED, rc_holder := False\<rparr>) s1)
          else if rc_status (the_read s1) = READING \<and> \<not> need_close
          then andThen (submitRead U s1) (wake_reader resume)
          else andThen (case rc_handle (the_read s1) of
                          None \<Rightarrow> Inr s1 | Some h \<Rightarrow> co_resume resume h s1) (\<lambda>s2.
                 Inr (set_read (\<lambda>r. r\<lparr>rc_holder := False, rc_status := STOPED\<rparr>) (handleClose s2))))
       else wake_reader resume s1)))"

text \<open>Reading the buffer: \<open>TcpConnection::retrieve\<close> and \<open>TcpConnection::read\<close>.\<close>

definition conn_retrieve ::
    "'b buf_ring_api \<Rightarrow> size_t \<Rightarrow> ('r, 'cb, 'b, 'k) conn_sys \<Rightarrow> ('r, 'cb, 'b, 'k) conn_sys outcome" where
  "conn_retrieve B n s =
     andThen (finished (icb_retrieve B (cs_manager s) (rc_buffer (the_read s)) n)) (\<lambda>(m, b).
       Inr (set_read (\<lambda>r. r\<lparr>rc_buffer := b\<rparr>) (s\<lparr>cs_manager := m\<rparr>)))"

definition conn_read ::
    "memory \<Rightarrow> 'b buf_ring_api \<Rightarrow> size_t \<Rightarrow> ('r, 'cb, 'b, 'k) conn_sys \<Rightarrow>
     (byte list \<times> ('r, 'cb, 'b, 'k) conn_sys) outcome" where
  "conn_read mem B n s =
     andThen (finished (removeAsString mem B (cs_manager s) (rc_buffer (the_read s)) n)) (\<lambda>(m, b, str).
       Inr (str, set_read (\<lambda>r. r\<lparr>rc_buffer := b\<rparr>) (s\<lparr>cs_manager := m\<rparr>)))"

definition conn_peek :: "('r, 'cb, 'b, 'k) conn_sys \<Rightarrow> (addr option \<times> size_t) outcome" where
  "conn_peek s = icb_peek (cs_manager s) (rc_buffer (the_read s))"

section \<open>Awaiters\<close>

definition queue_task ::
    "bool \<Rightarrow> 'k conn_task \<Rightarrow> ('r, 'cb, 'b, 'k) conn_sys \<Rightarrow> ('r, 'cb, 'b, 'k) conn_sys" where
  "queue_task in_loop t s = s\<lparr>cs_loop := queueInLoop in_loop t (cs_loop s)\<rparr>"

definition recv_await_ready :: "bool \<Rightarrow> ('r, 'cb, 'b, 'k) conn_sys \<Rightarrow> bool" where
  "recv_await_ready in_loop s =
     (if tc_closing (cs_conn s) then True
      else if \<not> in_loop then False
      else \<not> read_isEmpty (the_read s))"

definition recv_await_suspend ::
    "'r uring_api \<Rightarrow> bool \<Rightarrow> 'k \<Rightarrow> ('r, 'cb, 'b, 'k) conn_sys \<Rightarrow> ('r, 'cb, 'b, 'k) conn_sys outcome" where
  "recv_await_suspend U in_loop h s =
     (if \<not> in_loop then Inr (queue_task in_loop (RecvSuspended h) s)
      else (let s1 = set_read (\<lambda>r. r\<lparr>rc_handle := Some h\<rparr>) s
            in if rc_status (the_read s1) = STOPED then submitRead U s1 else Inr s1))"

definition recv_await_resume :: "bool \<Rightarrow> ('r, 'cb, 'b, 'k) conn_sys \<Rightarrow> int \<times> ('r, 'cb, 'b, 'k) conn_sys" where
  "recv_await_resume in_loop s =
     (if rc_error (the_read s) then (- 1, s)
      else if tc_closing (cs_conn s) then (- 1, queue_task in_loop DestroyConnection s)
      else (sint (ucast (icb_total_len (rc_buffer (the_read s))) :: 32 word), s))"

definition send_await_ready ::
    "'r uring_api \<Rightarrow> bool \<Rightarrow> byte list \<Rightarrow> ('r, 'cb, 'b, 'k) conn_sys \<Rightarrow>
     (bool \<times> ('r, 'cb, 'b, 'k) conn_sys) outcome" where
  "send_await_ready U in_loop data s =
     (if tc_closing (cs_conn s) then Inr (True, s)
      else if \<not> in_loop then Inr (False, s)
      else andThen (sendInLoop U data s) (\<lambda>s1. Inr (\<not> write_overLoad (the_write s1), s1)))"

definition send_await_suspend ::
    "bool \<Rightarrow> byte list \<Rightarrow> 'k \<Rightarrow> ('r, 'cb, 'b, 'k) conn_sys \<Rightarrow> ('r, 'cb, 'b, 'k) conn_sys" where
  "send_await_suspend in_loop data h s =
     (if \<not> in_loop then queue_task in_loop (SendSuspended data h) s
      else set_write (\<lambda>w. w\<lparr>wc_handle := Some h\<rparr>) s)"

definition send_await_resume :: "bool \<Rightarrow> ('r, 'cb, 'b, 'k) conn_sys \<Rightarrow> bool \<times> ('r, 'cb, 'b, 'k) conn_sys" where
  "send_await_resume in_loop s =
     (if tc_closing (cs_conn s) then (False, queue_task in_loop DestroyConnection s)
      else (\<not> wc_error (the_write s), s))"

text \<open>The bodies of the functors, which run on the loop's thread.\<close>

fun run_conn_task ::
    "'r uring_api \<Rightarrow> ('k \<Rightarrow> ('r, 'cb, 'b, 'k) conn_sys \<Rightarrow> ('r, 'cb, 'b, 'k) conn_sys outcome) \<Rightarrow>
     'k conn_task \<Rightarrow> ('r, 'cb, 'b, 'k) conn_sys \<Rightarrow> ('r, 'cb, 'b, 'k) conn_sys outcome" where
  "run_conn_task U resume (RecvSuspended h) s =
     (if read_isEmpty (the_read s)
      then (let s1 = set_read (\<lambda>r. r\<lparr>rc_handle := Some h\<rparr>) s
            in if rc_status (the_read s1) = STOPED then submitRead U s1 else Inr s1)
      else co_resume resume h s)"
| "run_conn_task U resume (SendSuspended data h) s =
     andThen (sendInLoop U data s) (\<lambda>s1.
       if \<not> write_overLoad (the_write s1) then co_resume resume h s1
       else Inr (set_write (\<lambda>w. w\<lparr>wc_handle := Some h\<rparr>) s1))"
| "run_conn_task U resume DestroyConnection s = Inr (handleClose s)"

definition Established ::
    "('k \<Rightarrow> ('r, 'cb, 'b, 'k) conn_sys \<Rightarrow> ('r, 'cb, 'b, 'k) conn_sys outcome) \<Rightarrow> 'k \<Rightarrow>
     ('r, 'cb, 'b, 'k) conn_sys \<Rightarrow> ('r, 'cb, 'b, 'k) conn_sys outcome" where
  "Established resume h s =
     co_resume resume h (set_conn (\<lambda>c. c\<lparr>tc_task := True, tc_done := False\<rparr>) s)"

section \<open>Destruction\<close>

text \<open>
  \<open>~TcpConnection\<close> destroys the members in the reverse order of their declaration: the write context with
  its queue, the read context with its input buffer, which gives its chunks back to the pool of the
  loop, then the socket and the frame of the coroutine.
\<close>

definition connection_destroy ::
    "'b buf_ring_api \<Rightarrow> ('r, 'cb, 'b, 'k) conn_sys \<Rightarrow> ('r, 'cb, 'b, 'k) conn_sys outcome" where
  "connection_destroy B s =
     andThen (finished (sq_destroy (wc_buffer (the_write s)))) (\<lambda>q.
       let s1 = set_write (\<lambda>w. w\<lparr>wc_buffer := q\<rparr>) s
       in andThen (icb_destroy B (cs_manager s1) (rc_buffer (the_read s1))) (\<lambda>(m, b).
            Inr (set_conn (\<lambda>c. c\<lparr>tc_sock_closed := True, tc_task := False\<rparr>)
                  (set_read (\<lambda>r. r\<lparr>rc_buffer := b\<rparr>) (s1\<lparr>cs_manager := m\<rparr>)))))"

end
