(* ===== verification/Connection_Safety.thy ===== *)
theory Connection_Safety
  imports Tcp_Connection Loop_Correctness
begin

text \<open>
  One connection and its coroutine: each context holds the connection exactly
  while a request of it is outstanding, there is at most one write and one multishot receive at a
  time, no completion runs into a failing assertion, and the bytes the kernel has taken followed by
  the queued ones are the bytes the coroutine has sent, in order.
\<close>

named_theorems conn_simps \<open>fields of updated connections\<close>

lemma set_fields [simp]:
  "cs_loop (set_read f s) = cs_loop s" "cs_manager (set_read f s) = cs_manager s"
  "cs_reads (set_read f s) = cs_reads s" "cs_writes (set_read f s) = cs_writes s"
  "cs_accepted (set_read f s) = cs_accepted s" "the_read (set_read f s) = f (the_read s)"
  "the_write (set_read f s) = the_write s"
  "cs_loop (set_write g s) = cs_loop s" "cs_manager (set_write g s) = cs_manager s"
  "cs_reads (set_write g s) = cs_reads s" "cs_writes (set_write g s) = cs_writes s"
  "cs_accepted (set_write g s) = cs_accepted s" "the_read (set_write g s) = the_read s"
  "the_write (set_write g s) = g (the_write s)"
  "cs_loop (set_conn h s) = cs_loop s" "cs_manager (set_conn h s) = cs_manager s"
  "cs_reads (set_conn h s) = cs_reads s" "cs_writes (set_conn h s) = cs_writes s"
  "cs_accepted (set_conn h s) = cs_accepted s" "cs_conn (set_conn h s) = h (cs_conn s)"
  by (simp_all add: set_read_def set_write_def set_conn_def)

lemma set_conn_fields [simp]:
  "tc_number (cs_conn (set_read f s)) = tc_number (cs_conn s)"
  "tc_closing (cs_conn (set_read f s)) = tc_closing (cs_conn s)"
  "tc_sock_closed (cs_conn (set_read f s)) = tc_sock_closed (cs_conn s)"
  "tc_task (cs_conn (set_read f s)) = tc_task (cs_conn s)"
  "tc_done (cs_conn (set_read f s)) = tc_done (cs_conn s)"
  "tc_close_callback (cs_conn (set_read f s)) = tc_close_callback (cs_conn s)"
  "tc_closed_events (cs_conn (set_read f s)) = tc_closed_events (cs_conn s)"
  "tc_number (cs_conn (set_write g s)) = tc_number (cs_conn s)"
  "tc_closing (cs_conn (set_write g s)) = tc_closing (cs_conn s)"
  "tc_sock_closed (cs_conn (set_write g s)) = tc_sock_closed (cs_conn s)"
  "tc_task (cs_conn (set_write g s)) = tc_task (cs_conn s)"
  "tc_done (cs_conn (set_write g s)) = tc_done (cs_conn s)"
  "tc_close_callback (cs_conn (set_write g s)) = tc_close_callback (cs_conn s)"
  "tc_closed_events (cs_conn (set_write g s)) = tc_closed_events (cs_conn s)"
  by (simp_all add: set_read_def set_write_def)

section \<open>The invariant\<close>

text \<open>
  The three parts: the write side, the read side, and the handles of the coroutine. \<open>failing\<close> marks
  the moment inside \<open>on_completion\<close> when an error has been found, the context still holds the
  connection, and the coroutine is resumed before the connection is closed.
\<close>

definition write_inv :: "bool \<Rightarrow> byte list \<Rightarrow> ('r, 'cb, 'b, 'k) conn_sys \<Rightarrow> bool" where
  "write_inv failing wire s \<longleftrightarrow>
     (\<exists>xs k. sq_rep (wc_buffer (the_write s)) xs k \<and>
        (if wc_sending (the_write s)
         then concat (map iov_bytes (wc_temp (the_write s))) =
                sq_bytes_of (wc_buffer (the_write s)) (take k xs)
         else k = 0 \<or> wc_error (the_write s))) \<and>
     cs_accepted s = wire @ sq_content (wc_buffer (the_write s)) \<and>
     0 < wc_max_slices (the_write s) \<and>
     cs_writes s = (if wc_sending (the_write s) then 1 else 0) \<and>
     (if failing then wc_holder (the_write s) \<and> \<not> wc_sending (the_write s) \<and> wc_error (the_write s)
      else wc_holder (the_write s) = wc_sending (the_write s))"

definition read_inv :: "bool \<Rightarrow> ('r, 'cb, 'b, 'k) conn_sys \<Rightarrow> bool" where
  "read_inv failing s \<longleftrightarrow>
     (\<exists>xs. icb_rep (cs_manager s) (rc_buffer (the_read s)) xs) \<and>
     (if failing then rc_holder (the_read s) \<and> rc_status (the_read s) \<noteq> STOPED \<and> cs_reads s = 0
      else (rc_holder (the_read s) \<longleftrightarrow> rc_status (the_read s) \<noteq> STOPED) \<and>
           cs_reads s = (if rc_status (the_read s) \<noteq> STOPED then 1 else 0))"

definition handle_inv :: "bool \<Rightarrow> ('r, 'cb, 'b, 'k) conn_sys \<Rightarrow> bool" where
  "handle_inv failing s \<longleftrightarrow>
     (rc_handle (the_read s) \<noteq> None \<or> wc_handle (the_write s) \<noteq> None \<longrightarrow>
        tc_task (cs_conn s) \<and> \<not> tc_closing (cs_conn s) \<and> (tc_done (cs_conn s) \<longrightarrow> failing)) \<and>
     (rc_error (the_read s) \<or> wc_error (the_write s) \<longrightarrow> failing \<or> tc_closing (cs_conn s))"

definition conn_inv :: "bool \<Rightarrow> bool \<Rightarrow> byte list \<Rightarrow> ('r, 'cb, 'b, 'k) conn_sys \<Rightarrow> bool" where
  "conn_inv rfail wfail wire s \<longleftrightarrow>
     write_inv wfail wire s \<and> read_inv rfail s \<and> handle_inv (rfail \<or> wfail) s \<and>
     0 < lp_low_water (cs_loop s)"

text \<open>The fields each part of the invariant looks at.\<close>

lemma write_inv_cong:
  assumes "wc_buffer (the_write s') = wc_buffer (the_write s)"
    and "wc_sending (the_write s') = wc_sending (the_write s)"
    and "wc_temp (the_write s') = wc_temp (the_write s)"
    and "wc_error (the_write s') = wc_error (the_write s)"
    and "wc_max_slices (the_write s') = wc_max_slices (the_write s)"
    and "wc_holder (the_write s') = wc_holder (the_write s)"
    and "cs_writes s' = cs_writes s" and "cs_accepted s' = cs_accepted s"
  shows "write_inv f wire s' = write_inv f wire s"
  using assms by (simp only: write_inv_def)

lemma read_inv_cong:
  assumes "cs_manager s' = cs_manager s" and "rc_buffer (the_read s') = rc_buffer (the_read s)"
    and "rc_holder (the_read s') = rc_holder (the_read s)"
    and "rc_status (the_read s') = rc_status (the_read s)" and "cs_reads s' = cs_reads s"
  shows "read_inv f s' = read_inv f s"
  using assms by (simp only: read_inv_def)

lemma write_inv_updates [simp]:
  "write_inv f wire (set_read g s) = write_inv f wire s"
  "write_inv f wire (set_write (\<lambda>w. w\<lparr>wc_handle := h\<rparr>) s) = write_inv f wire s"
  "write_inv f wire (s\<lparr>cs_loop := l\<rparr>) = write_inv f wire s"
  "write_inv f wire (s\<lparr>cs_manager := m\<rparr>) = write_inv f wire s"
  "write_inv f wire (s\<lparr>cs_reads := n\<rparr>) = write_inv f wire s"
  "write_inv f wire (set_conn (\<lambda>c. c\<lparr>tc_closing := b, tc_sock_closed := b'\<rparr>) s) = write_inv f wire s"
  "write_inv f wire (set_conn (\<lambda>c. c\<lparr>tc_task := b\<rparr>) s) = write_inv f wire s"
  "write_inv f wire (set_conn (\<lambda>c. c\<lparr>tc_done := b\<rparr>) s) = write_inv f wire s"
  "write_inv f wire (set_conn (\<lambda>c. c\<lparr>tc_closed_events := e c\<rparr>) s) = write_inv f wire s"
  by (rule write_inv_cong; simp)+

lemma read_inv_updates [simp]:
  "read_inv f (set_write g s) = read_inv f s"
  "read_inv f (set_read (\<lambda>r. r\<lparr>rc_handle := h\<rparr>) s) = read_inv f s"
  "read_inv f (s\<lparr>cs_loop := l\<rparr>) = read_inv f s"
  "read_inv f (s\<lparr>cs_writes := n\<rparr>) = read_inv f s"
  "read_inv f (s\<lparr>cs_accepted := bs\<rparr>) = read_inv f s"
  "read_inv f (set_conn (\<lambda>c. c\<lparr>tc_closing := b, tc_sock_closed := b'\<rparr>) s) = read_inv f s"
  "read_inv f (set_conn (\<lambda>c. c\<lparr>tc_task := b\<rparr>) s) = read_inv f s"
  "read_inv f (set_conn (\<lambda>c. c\<lparr>tc_done := b\<rparr>) s) = read_inv f s"
  "read_inv f (set_conn (\<lambda>c. c\<lparr>tc_closed_events := e c\<rparr>) s) = read_inv f s"
  by (rule read_inv_cong; simp)+

section \<open>Submissions\<close>

lemma submit_sqe_low_water:
  "submit_sqe U f q l = Inr l' \<Longrightarrow> lp_low_water l' = lp_low_water l \<and> lp_pending l' = lp_pending l"
  by (auto simp: submit_sqe_def getIoUringSqe_def outcome_iff split: if_splits option.splits prod.splits)

text \<open>A request with back-pressure is queued or gets an entry of the ring.\<close>

lemma submit_backpressure_ok:
  assumes "uring_laws U queued handed n" and "0 < lp_low_water l"
  shows "\<exists>l'. (if below_low_water U l then Inr (l\<lparr>lp_waiting := ws\<rparr>) else submit_sqe U False q l) = Inr l' \<and>
    lp_low_water l' = lp_low_water l"
proof (cases "below_low_water U l")
  case False
  from submit_sqe_free [OF assms(1) above_low_water_free [OF assms(1) False assms(2)], of False]
  show ?thesis using False by fastforce
qed simp

lemmas submit_defs = submitWriteMsg_def submitWriteMsg_now_def submitReadMultishut_def
  submitReadMultishut_now_def submitAcceptMultishut_def submitAcceptMultishut_now_def

lemma submit_ok:
  assumes "uring_laws U queued handed n" and "0 < lp_low_water l"
  shows submit_write_ok: "\<exists>l'. submitWriteMsg U fd vs ctx l = Inr l' \<and> lp_low_water l' = lp_low_water l"
    and submit_read_ok: "\<exists>l'. submitReadMultishut U fd ctx l = Inr l' \<and> lp_low_water l' = lp_low_water l"
    and submit_accept_ok: "\<exists>l'. submitAcceptMultishut U fd ctx l = Inr l' \<and> lp_low_water l' = lp_low_water l"
  unfolding submit_defs by (rule submit_backpressure_ok [OF assms])+

lemma submit_cancel_ok:
  assumes "uring_laws U queued handed n" and "0 < n"
  shows "\<exists>l'. submitCancel U ctx l = Inr l' \<and> lp_low_water l' = lp_low_water l"
  using submit_sqe_forced [OF assms, of "CancelRequest ctx" l] by (auto simp: submitCancel_def)

section \<open>The write side\<close>

text \<open>What the operations of the write side leave alone.\<close>

definition write_frame :: "('r, 'cb, 'b, 'k) conn_sys \<Rightarrow> ('r, 'cb, 'b, 'k) conn_sys \<Rightarrow> bool" where
  "write_frame s s' \<longleftrightarrow>
     cs_manager s' = cs_manager s \<and> the_read s' = the_read s \<and> cs_reads s' = cs_reads s \<and>
     lp_low_water (cs_loop s') = lp_low_water (cs_loop s) \<and>
     tc_task (cs_conn s') = tc_task (cs_conn s) \<and> tc_done (cs_conn s') = tc_done (cs_conn s) \<and>
     tc_closing (cs_conn s') = tc_closing (cs_conn s) \<and>
     wc_handle (the_write s') = wc_handle (the_write s) \<and> wc_error (the_write s') = wc_error (the_write s)"

lemma write_frame_inv:
  assumes "write_frame s s'"
  shows "read_inv f s' = read_inv f s" "handle_inv f s' = handle_inv f s"
    "lp_low_water (cs_loop s') = lp_low_water (cs_loop s)"
  using assms by (simp_all add: write_frame_def read_inv_def handle_inv_def)

lemma submitWrite_ok:
  assumes "uring_laws U queued handed n" and "0 < lp_low_water (cs_loop s)"
  shows "\<exists>l'. submitWrite U s = Inr (s\<lparr>cs_loop := l', cs_writes := cs_writes s + 1\<rparr>) \<and>
    lp_low_water l' = lp_low_water (cs_loop s)"
  using submit_write_ok [OF assms, of "wc_fd (the_write s)" "wc_temp (the_write s)"
      "WriteCtx (tc_number (cs_conn s))"]
  by (auto simp: submitWrite_def)

text \<open>\<open>flush\<close> from the front of the queue submits one write that carries a prefix of the queue.\<close>

lemma flush_ok:
  assumes laws: "uring_laws U queued handed n" and low: "0 < lp_low_water (cs_loop s)"
    and rep: "sq_rep (wc_buffer (the_write s)) xs 0" and ne: "xs \<noteq> []"
    and hold: "wc_holder (the_write s)" and mx: "0 < wc_max_slices (the_write s)"
    and w0: "cs_writes s = 0" and acc: "cs_accepted s = wire @ sq_content (wc_buffer (the_write s))"
  shows "\<exists>s'. flush U s = Inr s' \<and> write_inv False wire s' \<and> write_frame s s' \<and>
    wc_sending (the_write s') \<and> cs_accepted s' = cs_accepted s \<and>
    sq_content (wc_buffer (the_write s')) = sq_content (wc_buffer (the_write s)) \<and>
    wc_temp (the_write s') \<noteq> []"
proof -
  let ?q = "wc_buffer (the_write s)" and ?m = "unat (wc_max_slices (the_write s))"
  let ?k = "min ?m (length xs)"
  let ?vs = "map (frag_iovec ?q) (take ?m xs)" and ?q1 = "?q\<lparr>sq_curr := cursor xs ?k\<rparr>"
  have b: "getBatchFragment [] (wc_max_slices (the_write s)) ?q = Inr (?vs, ?q1)" "sq_rep ?q1 xs ?k"
    using getBatchFragment_rep [OF rep, of "wc_max_slices (the_write s)"] by simp_all
  have "0 < ?m" using mx by (simp add: unat_gt_0)
  then have vs: "?vs \<noteq> []" using ne by simp
  let ?s1 = "set_write (\<lambda>w. w\<lparr>wc_buffer := ?q1, wc_temp := ?vs\<rparr>) s"
  obtain l where l: "submitWrite U ?s1 = Inr (?s1\<lparr>cs_loop := l, cs_writes := cs_writes s + 1\<rparr>)"
    "lp_low_water l = lp_low_water (cs_loop s)"
    using submitWrite_ok [OF laws, of ?s1] low by auto
  let ?s2 = "set_write (\<lambda>w. w\<lparr>wc_sending := True\<rparr>) (?s1\<lparr>cs_loop := l, cs_writes := cs_writes s + 1\<rparr>)"
  have fl: "flush U s = Inr ?s2" using b(1) vs hold l(1) by (simp add: flush_def Let_def)
  have bytes: "concat (map iov_bytes ?vs) = sq_bytes_of ?q (take ?m xs)"
    using rep by (intro frag_iovecs_bytes) (auto simp: sq_rep_def dest: in_set_takeD)
  have cont: "sq_content ?q1 = sq_content ?q"
    using sq_content_rep [OF b(2)] sq_content_rep [OF rep] by simp
  have "write_inv False wire ?s2"
    unfolding write_inv_def using b(2) bytes cont hold mx w0 acc
    by (auto simp: take_min_length [symmetric, of ?m xs] min.commute intro!: exI [of _ xs] exI [of _ ?k])
  moreover have "write_frame s ?s2" using l(2) by (simp add: write_frame_def)
  ultimately show ?thesis using fl cont vs by (intro exI [of _ ?s2]) simp
qed

text \<open>Appending keeps the bytes of the fragments already queued.\<close>

lemma sq_append_take:
  assumes rep: "sq_rep q xs k" and len: "length (sq_bytes_of q xs) + length data < 2 ^ 64"
  shows "\<exists>q' ys. sq_append data q = Inr q' \<and> sq_rep q' ys k \<and> ys \<noteq> [] \<and>
    sq_bytes_of q' (take k ys) = sq_bytes_of q (take k xs) \<and> sq_content q' = sq_content q @ data"
proof -
  let ?a = "sq_unused q"
  obtain q' where q': "sq_append data q = Inr q'" "sq_rep q' (xs @ [?a]) k"
    "sq_bytes_of q' (xs @ [?a]) = sq_bytes_of q xs @ data"
    "\<forall>x\<in>set xs. frag_bytes (frag q' x) = frag_bytes (frag q x)"
    using sq_append_ok [OF rep len] by blast
  have k: "k \<le> length xs" using rep by (simp add: sq_rep_def)
  have "sq_bytes_of q' (take k xs) = sq_bytes_of q (take k xs)"
    using q'(4) set_take_subset [of k xs]
    by (auto simp: sq_bytes_of_def subset_iff intro!: arg_cong [of _ _ concat])
  then show ?thesis
    using q' k sq_content_rep [OF rep] sq_content_rep [OF q'(2)]
    by (intro exI [of _ q'] exI [of _ "xs @ [?a]"]) simp
qed

lemma flush_fields:
  "flush U s = Inr s' \<Longrightarrow> wc_handle (the_write s') = wc_handle (the_write s) \<and> wc_sending (the_write s')"
  by (auto simp: flush_def submitWrite_def outcome_iff Let_def)

lemma sendInLoop_handle: "sendInLoop U data s = Inr s' \<Longrightarrow> wc_handle (the_write s') = wc_handle (the_write s)"
  by (cases "wc_sending (the_write s)") (auto simp: sendInLoop_def outcome_iff Let_def dest!: flush_fields)

lemma sendInLoop_ok:
  assumes laws: "uring_laws U queued handed n" and inv: "write_inv False wire s"
    and err: "\<not> wc_error (the_write s)" and low: "0 < lp_low_water (cs_loop s)"
    and adm: "sq_admits data (wc_buffer (the_write s))"
  shows "\<exists>s'. sendInLoop U data s = Inr s' \<and> write_inv False wire s' \<and> write_frame s s' \<and>
    cs_accepted s' = cs_accepted s @ data \<and> wc_sending (the_write s')"
proof -
  let ?q = "wc_buffer (the_write s)"
  obtain xs k where rep: "sq_rep ?q xs k"
    and tmp: "wc_sending (the_write s) \<Longrightarrow>
        concat (map iov_bytes (wc_temp (the_write s))) = sq_bytes_of ?q (take k xs)"
    and k0: "\<not> wc_sending (the_write s) \<Longrightarrow> k = 0"
    using inv err by (auto simp: write_inv_def split: if_splits)
  have "length (sq_bytes_of ?q xs) + length data < 2 ^ 64"
    using adm sq_content_rep [OF rep] by (simp add: sq_admits_def)
  then obtain q ys where q: "sq_append data ?q = Inr q" "sq_rep q ys k" "ys \<noteq> []"
    "sq_bytes_of q (take k ys) = sq_bytes_of ?q (take k xs)" "sq_content q = sq_content ?q @ data"
    using sq_append_take [OF rep] by blast
  let ?s1 = "(set_write (\<lambda>w. w\<lparr>wc_buffer := q\<rparr>) s)\<lparr>cs_accepted := cs_accepted s @ data\<rparr>"
  have inv': "cs_accepted s = wire @ sq_content ?q" "0 < wc_max_slices (the_write s)"
    "cs_writes s = (if wc_sending (the_write s) then 1 else 0)"
    "wc_holder (the_write s) = wc_sending (the_write s)"
    using inv by (simp_all add: write_inv_def)
  show ?thesis
  proof (cases "wc_sending (the_write s)")
    case True
    have "write_inv False wire ?s1"
      unfolding write_inv_def using True q tmp inv' by (auto intro!: exI [of _ ys] exI [of _ k])
    then show ?thesis
      using True q(1) by (auto simp: sendInLoop_def Let_def write_frame_def)
  next
    case False
    let ?s2 = "set_write (\<lambda>w. w\<lparr>wc_holder := True\<rparr>) ?s1"
    obtain s3 where s3: "flush U ?s2 = Inr s3" "write_inv False wire s3" "write_frame ?s2 s3"
      "wc_sending (the_write s3)" "cs_accepted s3 = cs_accepted s @ data"
      using flush_ok [OF laws, of ?s2 ys wire] q k0 [OF False] False inv' low by auto
    have "set_write (\<lambda>w. w\<lparr>wc_sending := True\<rparr>) s3 = s3"
      using s3(4) by (simp add: set_write_def)
    then show ?thesis
      using s3 False q(1) by (auto simp: sendInLoop_def Let_def write_frame_def)
  qed
qed

section \<open>The read side\<close>

definition read_frame :: "('r, 'cb, 'b, 'k) conn_sys \<Rightarrow> ('r, 'cb, 'b, 'k) conn_sys \<Rightarrow> bool" where
  "read_frame s s' \<longleftrightarrow>
     the_write s' = the_write s \<and> cs_writes s' = cs_writes s \<and> cs_accepted s' = cs_accepted s \<and>
     lp_low_water (cs_loop s') = lp_low_water (cs_loop s) \<and>
     tc_task (cs_conn s') = tc_task (cs_conn s) \<and> tc_done (cs_conn s') = tc_done (cs_conn s) \<and>
     tc_closing (cs_conn s') = tc_closing (cs_conn s) \<and>
     rc_handle (the_read s') = rc_handle (the_read s) \<and> rc_error (the_read s') = rc_error (the_read s)"

lemma read_frame_inv:
  assumes "read_frame s s'"
  shows "write_inv f wire s' = write_inv f wire s" "handle_inv f s' = handle_inv f s"
    "lp_low_water (cs_loop s') = lp_low_water (cs_loop s)"
  using assms by (simp_all add: read_frame_def write_inv_def handle_inv_def)

lemma submitRead_ok:
  assumes laws: "uring_laws U queued handed n" and low: "0 < lp_low_water (cs_loop s)"
    and rep: "\<exists>xs. icb_rep (cs_manager s) (rc_buffer (the_read s)) xs" and r0: "cs_reads s = 0"
  shows "\<exists>s'. submitRead U s = Inr s' \<and> read_inv False s' \<and> read_frame s s' \<and>
    rc_flags (the_read s') = rc_flags (the_read s) \<and> rc_status (the_read s') = READING"
proof -
  let ?s = "set_read (\<lambda>r. r\<lparr>rc_holder := True\<rparr>) s"
  obtain l where l: "submitReadMultishut U (rc_fd (the_read ?s)) (ReadCtx (tc_number (cs_conn ?s)))
      (cs_loop ?s) = Inr l" "lp_low_water l = lp_low_water (cs_loop s)"
    using submit_read_ok [OF laws, of "cs_loop ?s"] low by (metis set_fields(1))
  let ?s' = "set_read (\<lambda>r. r\<lparr>rc_status := READING\<rparr>) (?s\<lparr>cs_loop := l, cs_reads := cs_reads ?s + 1\<rparr>)"
  have "submitRead U s = Inr ?s'" unfolding submitRead_def Let_def l(1) by simp
  moreover have "read_inv False ?s'" using rep r0 by (simp add: read_inv_def)
  moreover have "read_frame s ?s'" using l(2) by (simp add: read_frame_def)
  ultimately show ?thesis by (intro exI [of _ ?s']) simp
qed

lemma conn_retrieve_ok:
  assumes inv: "read_inv f s"
  shows "\<exists>s'. conn_retrieve B n s = Inr s' \<and> read_inv f s' \<and> read_frame s s'"
proof -
  obtain xs where "icb_rep (cs_manager s) (rc_buffer (the_read s)) xs"
    using inv by (auto simp: read_inv_def)
  from icb_retrieve_ok [OF this, of B n "\<lambda>_. 0"] obtain m b xs' where
    "icb_retrieve B (cs_manager s) (rc_buffer (the_read s)) n = Some (Inr (m, b))" "icb_rep m b xs'"
    by blast
  with inv show ?thesis
    by (intro exI [of _ "set_read (\<lambda>r. r\<lparr>rc_buffer := b\<rparr>) (s\<lparr>cs_manager := m\<rparr>)"])
      (auto simp: conn_retrieve_def read_inv_def read_frame_def)
qed

lemma conn_read_ok:
  assumes inv: "read_inv f s"
  shows "\<exists>str s'. conn_read mem B n s = Inr (str, s') \<and> read_inv f s' \<and> read_frame s s'"
proof -
  obtain xs where "icb_rep (cs_manager s) (rc_buffer (the_read s)) xs"
    using inv by (auto simp: read_inv_def)
  from removeAsString_ok [OF this, of mem B n] obtain m b xs' str where
    "removeAsString mem B (cs_manager s) (rc_buffer (the_read s)) n = Some (Inr (m, b, str))"
    "icb_rep m b xs'"
    by blast
  with inv show ?thesis
    by (intro exI [of _ str] exI [of _ "set_read (\<lambda>r. r\<lparr>rc_buffer := b\<rparr>) (s\<lparr>cs_manager := m\<rparr>)"])
      (auto simp: conn_read_def read_inv_def read_frame_def)
qed

section \<open>The coroutine\<close>

text \<open>
  What a coroutine does on the loop's thread between two suspensions, as any sequence of calls of
  the connection's interface. It stops sending when \<open>send\<close> has reported an error; it suspends
  only where the awaiter says so, and not after its end.
\<close>

inductive user_step ::
    "'r uring_api \<Rightarrow> 'b buf_ring_api \<Rightarrow> ('r, 'cb, 'b, 'k) conn_sys \<Rightarrow> ('r, 'cb, 'b, 'k) conn_sys \<Rightarrow> bool"
  for U B where
  user_retrieve: "conn_retrieve B n s = Inr s' \<Longrightarrow> user_step U B s s'"
| user_read: "conn_read mem B n s = Inr (str, s') \<Longrightarrow> user_step U B s s'"
| user_send: "\<not> wc_error (the_write s) \<Longrightarrow> sq_admits data (wc_buffer (the_write s)) \<Longrightarrow>
    send_await_ready U True data s = Inr (ready, s') \<Longrightarrow> user_step U B s s'"
| user_send_suspend: "\<not> tc_closing (cs_conn s) \<Longrightarrow> \<not> tc_done (cs_conn s) \<Longrightarrow> tc_task (cs_conn s) \<Longrightarrow>
    user_step U B s (send_await_suspend True data h s)"
| user_send_resume: "user_step U B s (snd (send_await_resume True s))"
| user_recv_suspend: "\<not> recv_await_ready True s \<Longrightarrow> \<not> tc_done (cs_conn s) \<Longrightarrow> tc_task (cs_conn s) \<Longrightarrow>
    recv_await_suspend U True h s = Inr s' \<Longrightarrow> user_step U B s s'"
| user_recv_resume: "user_step U B s (snd (recv_await_resume True s))"
| user_finish: "rc_handle (the_read s) = None \<and> wc_handle (the_write s) = None \<or>
    rc_error (the_read s) \<or> wc_error (the_write s) \<Longrightarrow>
    user_step U B s (set_conn (\<lambda>c. c\<lparr>tc_done := True\<rparr>) s)"

definition resume_ok ::
    "'r uring_api \<Rightarrow> 'b buf_ring_api \<Rightarrow>
     ('k \<Rightarrow> ('r, 'cb, 'b, 'k) conn_sys \<Rightarrow> ('r, 'cb, 'b, 'k) conn_sys outcome) \<Rightarrow> bool" where
  "resume_ok U B resume \<longleftrightarrow> (\<forall>h s. \<exists>s'. resume h s = Inr s' \<and> (user_step U B)\<^sup>*\<^sup>* s s')"

lemma conn_inv_read_frame:
  "conn_inv rx wx wire s \<Longrightarrow> read_frame s s' \<Longrightarrow> read_inv rx' s' \<Longrightarrow> rx' = rx \<Longrightarrow> conn_inv rx wx wire s'"
  by (simp add: conn_inv_def read_frame_inv)

lemma conn_inv_write_frame:
  "conn_inv rx wx wire s \<Longrightarrow> write_frame s s' \<Longrightarrow> write_inv wx wire s' \<Longrightarrow> conn_inv rx wx wire s'"
  by (simp add: conn_inv_def write_frame_inv)

lemma queue_task_inv:
  "conn_inv rx wx wire s \<Longrightarrow> conn_inv rx wx wire (queue_task b t s)"
  by (auto simp: conn_inv_def handle_inv_def queue_task_def queueInLoop_def
      queue_push_def queue_wake_def wakeUp_def split: if_splits)

text \<open>Waiting for data: the handle is stored, and a receive is armed when none is.\<close>

lemma wait_for_data_inv:
  assumes laws: "uring_laws U queued handed n" and inv: "conn_inv rx wx wire s"
    and ok: "\<not> tc_closing (cs_conn s)" "\<not> tc_done (cs_conn s)" "tc_task (cs_conn s)"
  shows "\<exists>s'. recv_await_suspend U True h s = Inr s' \<and> conn_inv rx wx wire s'"
proof -
  let ?s = "set_read (\<lambda>r. r\<lparr>rc_handle := Some h\<rparr>) s"
  have inv1: "conn_inv rx wx wire ?s"
    using inv ok by (auto simp: conn_inv_def handle_inv_def)
  show ?thesis
  proof (cases "rc_status (the_read s) = STOPED")
    case True
    then have "\<not> rx" "cs_reads ?s = 0" "\<exists>xs. icb_rep (cs_manager ?s) (rc_buffer (the_read ?s)) xs"
      using inv by (auto simp: conn_inv_def read_inv_def split: if_splits)
    moreover have "0 < lp_low_water (cs_loop ?s)" using inv by (simp add: conn_inv_def)
    ultimately obtain s' where "submitRead U ?s = Inr s'" "read_inv False s'" "read_frame ?s s'"
      using submitRead_ok [OF laws, of ?s] by blast
    with True \<open>\<not> rx\<close> conn_inv_read_frame [OF inv1] show ?thesis
      by (auto simp: recv_await_suspend_def Let_def)
  next
    case False
    with inv1 show ?thesis by (auto simp: recv_await_suspend_def Let_def)
  qed
qed

lemma user_step_inv:
  assumes laws: "uring_laws U queued handed n"
  shows "user_step U B s s' \<Longrightarrow> conn_inv rx wx wire s \<Longrightarrow> conn_inv rx wx wire s'"
proof (induction rule: user_step.induct)
  case (user_retrieve n s s')
  then show ?case
    using conn_retrieve_ok [of rx s B n] conn_inv_read_frame [of rx wx wire s s']
    by (auto simp: conn_inv_def)
next
  case (user_read mem n s str s')
  then show ?case
    using conn_read_ok [of rx s mem B n] conn_inv_read_frame [of rx wx wire s s']
    by (auto simp: conn_inv_def)
next
  case (user_send s data ready s')
  have wx: "\<not> wx" using user_send.prems user_send.hyps(1) by (auto simp: conn_inv_def write_inv_def)
  then have i: "write_inv False wire s" "0 < lp_low_water (cs_loop s)"
    using user_send.prems by (simp_all add: conn_inv_def)
  from sendInLoop_ok [OF laws i(1) user_send.hyps(1) i(2) user_send.hyps(2)]
  obtain s1 where s1: "sendInLoop U data s = Inr s1" "write_inv False wire s1" "write_frame s s1"
    by blast
  show ?case
  proof (cases "tc_closing (cs_conn s)")
    case True
    with user_send show ?thesis by (auto simp: send_await_ready_def)
  next
    case False
    with user_send.hyps(3) s1(1) have "s' = s1" by (auto simp: send_await_ready_def)
    with s1 wx user_send.prems show ?thesis by (auto intro: conn_inv_write_frame)
  qed
next
  case (user_send_suspend s data h)
  then show ?case
    by (auto simp: conn_inv_def handle_inv_def send_await_suspend_def)
next
  case (user_send_resume s)
  then show ?case by (auto simp: send_await_resume_def intro: queue_task_inv)
next
  case (user_recv_suspend s h s')
  then show ?case using wait_for_data_inv [OF laws user_recv_suspend.prems, of h]
    by (auto simp: recv_await_ready_def split: if_splits)
next
  case (user_recv_resume s)
  then show ?case by (auto simp: recv_await_resume_def intro: queue_task_inv)
next
  case (user_finish s)
  then show ?case
    by (auto simp: conn_inv_def handle_inv_def)
qed

lemma user_run_inv:
  assumes "uring_laws U queued handed n"
  shows "(user_step U B)\<^sup>*\<^sup>* s s' \<Longrightarrow> conn_inv rx wx wire s \<Longrightarrow> conn_inv rx wx wire s'"
  by (induction rule: rtranclp_induct) (auto intro: user_step_inv [OF assms])

section \<open>Closing and waking\<close>

lemma handleClose_fields [simp]:
  "write_inv f wire (handleClose s) = write_inv f wire s" "read_inv f (handleClose s) = read_inv f s"
  "cs_loop (handleClose s) = cs_loop s" "tc_closing (cs_conn (handleClose s))"
  by (simp_all add: handleClose_def Let_def)

lemma handleClose_handles: "handle_inv f s \<Longrightarrow> handle_inv False (handleClose s)"
  by (cases "tc_closing (cs_conn s)") (simp_all add: handle_inv_def handleClose_def Let_def)

lemma handleClose_inv:
  assumes "conn_inv rx wx wire s"
  shows "write_inv wx wire (handleClose s)" "read_inv rx (handleClose s)"
    "handle_inv False (handleClose s)" "0 < lp_low_water (cs_loop (handleClose s))"
    "tc_closing (cs_conn (handleClose s))"
  using assms by (auto simp: conn_inv_def intro: handleClose_handles)

lemma write_inv_recover:
  assumes "write_inv True wire s"
  shows "write_inv False wire (set_write (\<lambda>w. w\<lparr>wc_holder := False, wc_sending := False\<rparr>) s)"
proof -
  have "\<exists>xs k. sq_rep (wc_buffer (the_write s)) xs k"
    using assms unfolding write_inv_def by blast
  with assms show ?thesis by (simp add: write_inv_def)
qed

lemma read_inv_recover:
  assumes "read_inv True s"
  shows "read_inv False (set_read (\<lambda>r. r\<lparr>rc_holder := False, rc_status := STOPED\<rparr>) s)"
  using assms by (simp add: read_inv_def)

lemma co_resume_inv:
  assumes "uring_laws U queued handed n" and "resume_ok U B resume" and "conn_inv rx wx wire s"
    and "tc_task (cs_conn s)"
  shows "\<exists>s'. co_resume resume h s = Inr s' \<and> conn_inv rx wx wire s'"
  using assms user_run_inv [OF assms(1)] unfolding resume_ok_def co_resume_def
  by (metis (full_types) andThen_simps(2) check_simps(1))

lemma wake_writer_inv:
  assumes "uring_laws U queued handed n" and "resume_ok U B resume" and inv: "conn_inv False False wire s"
  shows "\<exists>s'. wake_writer resume s = Inr s' \<and> conn_inv False False wire s'"
proof (cases "wc_handle (the_write s)")
  case None
  with inv show ?thesis by (simp add: wake_writer_def)
next
  case (Some h)
  let ?s = "set_write (\<lambda>w. w\<lparr>wc_handle := None\<rparr>) s"
  have "conn_inv False False wire ?s"
    using inv by (auto simp: conn_inv_def handle_inv_def)
  moreover have "tc_task (cs_conn s)" "\<not> tc_done (cs_conn s)"
    using inv Some by (auto simp: conn_inv_def handle_inv_def)
  ultimately show ?thesis
    using co_resume_inv [OF assms(1,2), of False False wire ?s h] inv Some
    by (auto simp: wake_writer_def)
qed

lemma wake_reader_inv:
  assumes "uring_laws U queued handed n" and "resume_ok U B resume" and inv: "conn_inv False False wire s"
  shows "\<exists>s'. wake_reader resume s = Inr s' \<and> conn_inv False False wire s'"
proof (cases "rc_handle (the_read s)")
  case None
  with inv show ?thesis by (simp add: wake_reader_def)
next
  case (Some h)
  let ?s = "set_read (\<lambda>r. r\<lparr>rc_handle := None\<rparr>) s"
  have "conn_inv False False wire ?s"
    using inv by (auto simp: conn_inv_def handle_inv_def)
  moreover have "tc_task (cs_conn s)" "\<not> tc_done (cs_conn s)"
    using inv Some by (auto simp: conn_inv_def handle_inv_def)
  ultimately show ?thesis
    using co_resume_inv [OF assms(1,2), of False False wire ?s h] inv Some
    by (auto simp: wake_reader_def)
qed

text \<open>Resuming the coroutine of a failed connection, if it waits, before closing it.\<close>

lemma resume_failing_inv:
  assumes "uring_laws U queued handed n" and "resume_ok U B resume" and inv: "conn_inv rx wx wire s"
    and "h = rc_handle (the_read s) \<or> h = wc_handle (the_write s)"
  shows "\<exists>s'. (case h of None \<Rightarrow> Inr s | Some k \<Rightarrow> co_resume resume k s) = Inr s' \<and>
    conn_inv rx wx wire s'"
proof (cases h)
  case None
  with inv show ?thesis by simp
next
  case (Some k)
  then have "tc_task (cs_conn s)" using inv assms(4) by (auto simp: conn_inv_def handle_inv_def)
  from co_resume_inv [OF assms(1,2) inv this, of k] Some show ?thesis by simp
qed

section \<open>Functors of a coroutine on another thread\<close>

text \<open>
  The coroutine has left the loop's thread, and the connection is open: nobody waits in a context,
  and what the coroutine asks for arrives as a functor.
\<close>

definition co_elsewhere :: "('r, 'cb, 'b, 'k) conn_sys \<Rightarrow> bool" where
  "co_elsewhere s \<longleftrightarrow>
     rc_handle (the_read s) = None \<and> wc_handle (the_write s) = None \<and>
     tc_task (cs_conn s) \<and> \<not> tc_done (cs_conn s) \<and> \<not> tc_closing (cs_conn s)"

lemma recv_functor_ok:
  assumes laws: "uring_laws U queued handed n" and co: "resume_ok U B resume"
    and inv: "conn_inv False False wire s" and away: "co_elsewhere s"
  shows "\<exists>s'. run_conn_task U resume (RecvSuspended h) s = Inr s' \<and> conn_inv False False wire s'"
proof (cases "read_isEmpty (the_read s)")
  case True
  then have "run_conn_task U resume (RecvSuspended h) s = recv_await_suspend U True h s"
    by (simp add: recv_await_suspend_def Let_def)
  with wait_for_data_inv [OF laws inv, of h] away show ?thesis by (simp add: co_elsewhere_def)
next
  case False
  with co_resume_inv [OF laws co inv, of h] away show ?thesis by (simp add: co_elsewhere_def)
qed

lemma send_functor_ok:
  assumes laws: "uring_laws U queued handed n" and co: "resume_ok U B resume"
    and inv: "conn_inv False False wire s" and away: "co_elsewhere s"
    and adm: "sq_admits data (wc_buffer (the_write s))"
  shows "\<exists>s'. run_conn_task U resume (SendSuspended data h) s = Inr s' \<and> conn_inv False False wire s'"
proof -
  have i: "write_inv False wire s" "\<not> wc_error (the_write s)" "0 < lp_low_water (cs_loop s)"
    using inv away by (auto simp: conn_inv_def handle_inv_def co_elsewhere_def)
  obtain s1 where s1: "sendInLoop U data s = Inr s1" "write_inv False wire s1" "write_frame s s1"
    using sendInLoop_ok [OF laws i adm] by blast
  have inv1: "conn_inv False False wire s1" using inv s1(3,2) by (rule conn_inv_write_frame)
  have a1: "tc_task (cs_conn s1)" "\<not> tc_done (cs_conn s1)" "\<not> tc_closing (cs_conn s1)"
    using away s1(3) by (simp_all add: co_elsewhere_def write_frame_def)
  show ?thesis
  proof (cases "write_overLoad (the_write s1)")
    case True
    have "conn_inv False False wire (set_write (\<lambda>w. w\<lparr>wc_handle := Some h\<rparr>) s1)"
      using inv1 a1 by (simp add: conn_inv_def handle_inv_def)
    with True s1(1) show ?thesis by simp
  next
    case False
    with co_resume_inv [OF laws co inv1 a1(1), of h] s1(1) show ?thesis by simp
  qed
qed

section \<open>Completion of a write\<close>

definition write_delivered ::
    "int \<Rightarrow> u32 \<Rightarrow> ('r, 'cb, 'b, 'k) conn_sys \<Rightarrow> ('r, 'cb, 'b, 'k) conn_sys" where
  "write_delivered res flags s =
     (set_write (\<lambda>w. w\<lparr>wc_res := res, wc_flags := flags\<rparr>) s)\<lparr>cs_writes := cs_writes s - 1\<rparr>"

lemma write_delivered_write:
  "the_write (write_delivered res fl s) = (the_write s)\<lparr>wc_res := res, wc_flags := fl\<rparr>"
  by (simp add: write_delivered_def)

abbreviation batch_bytes :: "('r, 'cb, 'b, 'k) conn_sys \<Rightarrow> byte list" where
  "batch_bytes s \<equiv> concat (map iov_bytes (wc_temp (the_write s)))"

definition write_retry :: "int \<Rightarrow> bool" where
  "write_retry res \<longleftrightarrow> res = - EAGAIN \<or> res = - ENOBUFS \<or> res = - EINTR"

lemmas errno_defs = EINTR_def EBADF_def EAGAIN_def EPIPE_def ECONNRESET_def ENOBUFS_def ENOTCONN_def
  ECANCELED_def

lemma write_failure_ok:
  assumes laws: "uring_laws U queued handed n" and co: "resume_ok U B resume"
    and inv: "conn_inv False False wire s" and out: "0 < cs_writes s"
    and res: "res < 0" "\<not> write_retry res"
  shows "\<exists>s'. write_on_completion U resume (write_delivered res fl s) = Inr s' \<and>
    conn_inv False False wire s'"
proof -
  let ?d = "write_delivered res fl s"
  have snd: "wc_sending (the_write s)" "wc_holder (the_write s)" "cs_writes s = 1"
    using inv out by (auto simp: conn_inv_def write_inv_def split: if_splits)
  let ?s1 = "set_write (\<lambda>_. (the_write ?d)\<lparr>wc_error := True, wc_sending := False\<rparr>) ?d"
  have err: "write_handleError (the_write ?d) = (True, (the_write ?d)\<lparr>wc_error := True\<rparr>)"
    using res by (auto simp: write_handleError_def write_delivered_def write_retry_def Let_def)
  have "\<exists>xs k. sq_rep (wc_buffer (the_write s)) xs k"
    using inv unfolding conn_inv_def write_inv_def by blast
  then have "write_inv True wire ?s1"
    using inv snd by (simp add: conn_inv_def write_inv_def write_delivered_def)
  then have "conn_inv False True wire ?s1"
    using inv by (auto simp: conn_inv_def handle_inv_def write_delivered_def)
  from resume_failing_inv [OF laws co this, of "wc_handle (the_write ?s1)"]
  obtain s2 where s2: "(case wc_handle (the_write ?s1) of None \<Rightarrow> Inr ?s1 | Some h \<Rightarrow> co_resume resume h ?s1) = Inr s2"
    "conn_inv False True wire s2" by auto
  let ?s3 = "set_write (\<lambda>w. w\<lparr>wc_holder := False, wc_sending := False\<rparr>) (handleClose s2)"
  have "write_on_completion U resume ?d = Inr ?s3"
    using snd(2) res(1) err s2(1)
    by (simp add: write_on_completion_def) (simp add: write_delivered_def)
  moreover have "write_inv False wire ?s3"
    using handleClose_inv(1) [OF s2(2)] by (rule write_inv_recover)
  then have "conn_inv False False wire ?s3"
    using handleClose_inv [OF s2(2)] by (auto simp: conn_inv_def handle_inv_def)
  ultimately show ?thesis by blast
qed

lemma sent_prefix:
  assumes rep: "sq_rep q xs k" and "n \<le> length (sq_bytes_of q (take k xs))"
  shows "take n (sq_bytes_of q (take k xs)) = take n (sq_content q)"
proof -
  have "sq_content q = sq_bytes_of q (take k xs) @ sq_bytes_of q (drop k xs)"
    using sq_content_rep [OF rep] by (metis append_take_drop_id sq_bytes_of_simps(3))
  then show ?thesis using assms(2) by simp
qed

text \<open>The bytes the kernel took leave the queue.\<close>

lemma write_taken_ok:
  assumes inv: "write_inv False wire s" and out: "0 < cs_writes s"
    and res: "0 \<le> res" "res \<le> int (length (batch_bytes s))"
  shows "\<exists>q ys. sq_retrieve (of_int res) (wc_buffer (the_write s)) = Some (Inr q) \<and> sq_rep q ys 0 \<and>
    cs_accepted s = (wire @ take (nat res) (batch_bytes s)) @ sq_content q"
proof -
  let ?q = "wc_buffer (the_write s)"
  have snd: "wc_sending (the_write s)" "cs_accepted s = wire @ sq_content ?q"
    using inv out by (auto simp: write_inv_def split: if_splits)
  obtain xs k where rep: "sq_rep ?q xs k" and tmp: "batch_bytes s = sq_bytes_of ?q (take k xs)"
    using inv snd(1) unfolding write_inv_def by auto
  have tk: "take (nat res) (batch_bytes s) = take (nat res) (sq_content ?q)"
    using sent_prefix [OF rep, of "nat res"] res tmp by simp
  have "length (batch_bytes s) \<le> length (sq_content ?q)"
    unfolding tmp sq_content_rep [OF rep]
    by (metis append_take_drop_id le_add1 length_append sq_bytes_of_simps(3))
  moreover have "length (sq_content ?q) < 2 ^ 64"
    using rep unat_bound64 [of "sq_total_len ?q"] sq_content_rep [OF rep] by (simp add: sq_rep_def)
  ultimately have u: "unat (of_int res :: size_t) = nat res"
    using res by (intro unat_of_int_small) auto
  obtain q ys where q: "sq_retrieve (of_int res) ?q = Some (Inr q)" "sq_rep q ys 0"
    "sq_content q = drop (nat res) (sq_content ?q)"
    using sq_retrieve_ok [OF rep, of "of_int res"] sq_content_rep [OF rep] u by (metis sq_content_rep)
  with snd(2) tk show ?thesis by auto
qed

text \<open>After a completion, the next batch is sent, or the context lets go of the connection.\<close>

lemma write_next_ok:
  assumes laws: "uring_laws U queued handed n" and rep: "sq_rep (wc_buffer (the_write s)) ys 0"
    and acc: "cs_accepted s = wire @ sq_content (wc_buffer (the_write s))"
    and st: "wc_holder (the_write s)" "0 < wc_max_slices (the_write s)" "cs_writes s = 0"
    and rest: "read_inv False s" "handle_inv False s" "0 < lp_low_water (cs_loop s)"
  shows "\<exists>s'. (if 0 < sq_total_len (wc_buffer (the_write s)) then flush U s
      else Inr (set_write (\<lambda>w. w\<lparr>wc_sending := False, wc_holder := False\<rparr>) s)) = Inr s' \<and>
    conn_inv False False wire s'"
proof (cases "0 < sq_total_len (wc_buffer (the_write s))")
  case True
  then have "ys \<noteq> []" using rep by (auto simp: sq_rep_def word_greater_zero_iff unat_eq_zero)
  then obtain s' where "flush U s = Inr s'" "write_inv False wire s'" "write_frame s s'"
    using flush_ok [OF laws rest(3) rep _ st acc] by blast
  with True rest show ?thesis by (auto simp: conn_inv_def write_frame_inv)
next
  case False
  have "write_inv False wire (set_write (\<lambda>w. w\<lparr>wc_sending := False, wc_holder := False\<rparr>) s)"
    using rep acc st by (auto simp: write_inv_def)
  with False rest show ?thesis by (auto simp: conn_inv_def handle_inv_def)
qed

lemma write_success_ok:
  assumes laws: "uring_laws U queued handed n" and co: "resume_ok U B resume"
    and inv: "conn_inv False False wire s" and out: "0 < cs_writes s"
    and res: "0 \<le> res" "res \<le> int (length (batch_bytes s))"
  shows "\<exists>s'. write_on_completion U resume (write_delivered res fl s) = Inr s' \<and>
    conn_inv False False (wire @ take (nat res) (batch_bytes s)) s'"
proof -
  let ?d = "write_delivered res fl s" and ?wire = "wire @ take (nat res) (batch_bytes s)"
  have w: "write_inv False wire s" using inv by (simp add: conn_inv_def)
  obtain q ys where q: "sq_retrieve (of_int res) (wc_buffer (the_write s)) = Some (Inr q)" "sq_rep q ys 0"
    "cs_accepted s = ?wire @ sq_content q"
    using write_taken_ok [OF w out res] by blast
  have snd: "wc_holder (the_write s)" "cs_writes s = 1" "0 < wc_max_slices (the_write s)"
    using w out by (auto simp: write_inv_def split: if_splits)
  let ?s1 = "set_write (\<lambda>w. w\<lparr>wc_buffer := q\<rparr>) ?d"
  have "handle_inv False ?s1" "read_inv False ?s1" "0 < lp_low_water (cs_loop ?s1)"
    using inv by (auto simp: conn_inv_def handle_inv_def write_delivered_def)
  then obtain s2 where s2: "(if 0 < sq_total_len (wc_buffer (the_write ?s1)) then flush U ?s1
      else Inr (set_write (\<lambda>w. w\<lparr>wc_sending := False, wc_holder := False\<rparr>) ?s1)) = Inr s2"
    "conn_inv False False ?wire s2"
    using write_next_ok [OF laws, of ?s1 ys ?wire] q(2,3) snd by (auto simp: write_delivered_def)
  have "write_on_completion U resume ?d = wake_writer resume s2"
    using s2(1) snd(1) res(1) q(1)
    by (cases "0 < sq_total_len q") (simp_all add: write_on_completion_def write_delivered_write)
  with wake_writer_inv [OF laws co s2(2)] show ?thesis by simp
qed

section \<open>Completion of a receive\<close>

definition read_delivered ::
    "int \<Rightarrow> u32 \<Rightarrow> ('r, 'cb, 'b, 'k) conn_sys \<Rightarrow> ('r, 'cb, 'b, 'k) conn_sys" where
  "read_delivered res flags s =
     (set_read (\<lambda>r. r\<lparr>rc_res := res, rc_flags := flags\<rparr>) s)
       \<lparr>cs_reads := (if cqe_has_more flags then cs_reads s else cs_reads s - 1)\<rparr>"

lemma read_delivered_fields [simp]:
  "the_read (read_delivered res fl s) = (the_read s)\<lparr>rc_res := res, rc_flags := fl\<rparr>"
  "cs_reads (read_delivered res fl s) = (if cqe_has_more fl then cs_reads s else cs_reads s - 1)"
  "write_inv f wire (read_delivered res fl s) = write_inv f wire s"
  "handle_inv f (read_delivered res fl s) = handle_inv f s"
  "cs_loop (read_delivered res fl s) = cs_loop s" "cs_manager (read_delivered res fl s) = cs_manager s"
  by (simp_all add: read_delivered_def handle_inv_def)

text \<open>
  What the kernel reports for a receive that selects buffers: data comes with the buffer it is in,
  one of the pool's that no connection holds, and not more than fits; a completion without data is
  the last one of its request.
\<close>

definition receive_legal :: "int \<Rightarrow> u32 \<Rightarrow> ('r, 'cb, 'b, 'k) conn_sys \<Rightarrow> bool" where
  "receive_legal res flags s \<longleftrightarrow>
     (if 0 < res
      then cqe_has_buffer flags \<and> nat res \<le> unat (cm_chunk_size (cs_manager s)) \<and>
           unat (cqe_buffer flags) < length (cm_chunks_data (cs_manager s)) \<and>
           unat (cqe_buffer flags) \<notin> set (icb_chain (cs_manager s) (rc_buffer (the_read s))) \<and>
           fresh (cs_manager s) (unat (cqe_buffer flags))
      else \<not> cqe_has_more flags)"

text \<open>
  The state between the arrival of the data and the decision what to do next: the request is
  reading or being cancelled, and counted when more completions follow.
\<close>

definition read_mid :: "bool \<Rightarrow> ('r, 'cb, 'b, 'k) conn_sys \<Rightarrow> bool" where
  "read_mid going s \<longleftrightarrow>
     (\<exists>xs. icb_rep (cs_manager s) (rc_buffer (the_read s)) xs) \<and> rc_holder (the_read s) \<and>
     rc_status (the_read s) \<noteq> STOPED \<and> cs_reads s = (if going then 1 else 0)"

lemma read_mid_inv: "read_mid True s \<Longrightarrow> read_inv False s" "read_mid False s \<Longrightarrow> read_inv True s"
  by (auto simp: read_mid_def read_inv_def)

lemma read_data_ok:
  assumes laws: "uring_laws U queued handed n" and n: "0 < n"
    and mid: "read_mid (cqe_has_more (rc_flags (the_read s))) s" and legal: "receive_legal (rc_res (the_read s)) (rc_flags (the_read s)) s"
    and pos: "0 < rc_res (the_read s)"
  shows "\<exists>s'. read_data U s = Inr s' \<and> read_mid (cqe_has_more (rc_flags (the_read s))) s' \<and>
    read_frame s s' \<and> rc_flags (the_read s') = rc_flags (the_read s)"
proof -
  let ?m = "cs_manager s" and ?b = "rc_buffer (the_read s)" and ?i = "cqe_buffer (rc_flags (the_read s))"
  obtain xs where rep: "icb_rep ?m ?b xs" using mid by (auto simp: read_mid_def)
  have i: "unat ?i < length (cm_chunks_data ?m)" "unat ?i \<notin> set xs" "fresh ?m (unat ?i)"
    "nat (rc_res (the_read s)) \<le> unat (cm_chunk_size ?m)" "cqe_has_buffer (rc_flags (the_read s))"
    using legal pos icb_chain_rep [OF rep] by (auto simp: receive_legal_def)
  obtain m b where a: "icb_append ?m ?b ?i (rc_res (the_read s)) = Inr (m, b)" "icb_rep m b (xs @ [unat ?i])"
    using icb_append_ok [OF rep i(1-3) pos i(4), of "\<lambda>_. 0"] by blast
  let ?s1 = "set_read (\<lambda>r. r\<lparr>rc_buffer := b\<rparr>) (s\<lparr>cs_manager := m\<rparr>)"
  obtain l where l: "submitCancel U (ReadCtx (tc_number (cs_conn ?s1))) (cs_loop ?s1) = Inr l"
    "lp_low_water l = lp_low_water (cs_loop s)"
    using submit_cancel_ok [OF laws n, of "ReadCtx (tc_number (cs_conn ?s1))" "cs_loop ?s1"] by auto
  let ?over = "read_overLoad (the_read ?s1) \<and> rc_status (the_read ?s1) \<noteq> CANCELING"
  let ?s2 = "if ?over then set_read (\<lambda>r. r\<lparr>rc_status := CANCELING\<rparr>) (?s1\<lparr>cs_loop := l\<rparr>) else ?s1"
  have "read_data U s = Inr ?s2"
    using a(1) i(5) l(1) by (auto simp: read_data_def Let_def conn_submitCancel_def)
  moreover have "read_mid (cqe_has_more (rc_flags (the_read s))) ?s2"
    using mid a(2) by (auto simp: read_mid_def)
  moreover have "read_frame s ?s2" using l(2) by (simp add: read_frame_def)
  ultimately show ?thesis by (intro exI [of _ ?s2]) simp
qed

text \<open>What follows the last completion of a request that did not fail fatally.\<close>

definition read_ended ::
    "'r uring_api \<Rightarrow> ('k \<Rightarrow> ('r, 'cb, 'b, 'k) conn_sys \<Rightarrow> ('r, 'cb, 'b, 'k) conn_sys outcome) \<Rightarrow>
     ('r, 'cb, 'b, 'k) conn_sys \<Rightarrow> ('r, 'cb, 'b, 'k) conn_sys outcome" where
  "read_ended U resume s =
     (if rc_status (the_read s) = CANCELING
      then wake_reader resume (set_read (\<lambda>r. r\<lparr>rc_status := STOPED, rc_holder := False\<rparr>) s)
      else andThen (submitRead U s) (wake_reader resume))"

lemma read_ended_ok:
  assumes laws: "uring_laws U queued handed n" and co: "resume_ok U B resume"
    and mid: "read_mid False s" and rest: "write_inv False wire s" "handle_inv False s"
    "0 < lp_low_water (cs_loop s)"
  shows "\<exists>s'. read_ended U resume s = Inr s' \<and> conn_inv False False wire s'"
proof (cases "rc_status (the_read s) = CANCELING")
  case True
  let ?s = "set_read (\<lambda>r. r\<lparr>rc_status := STOPED, rc_holder := False\<rparr>) s"
  have "conn_inv False False wire ?s"
    using mid rest by (simp add: conn_inv_def read_mid_def read_inv_def handle_inv_def)
  with True wake_reader_inv [OF laws co] show ?thesis by (simp add: read_ended_def)
next
  case False
  obtain s1 where "submitRead U s = Inr s1" "read_inv False s1" "read_frame s s1"
    using submitRead_ok [OF laws rest(3)] mid by (auto simp: read_mid_def)
  with rest have "conn_inv False False wire s1" by (simp add: conn_inv_def read_frame_inv)
  with False \<open>submitRead U s = Inr s1\<close> wake_reader_inv [OF laws co] show ?thesis
    by (simp add: read_ended_def)
qed

lemma read_fatal_ok:
  assumes laws: "uring_laws U queued handed n" and co: "resume_ok U B resume"
    and mid: "read_mid False s" and rest: "write_inv False wire s" "handle_inv True s"
    "0 < lp_low_water (cs_loop s)"
  shows "\<exists>s1. (case rc_handle (the_read s) of None \<Rightarrow> Inr s | Some h \<Rightarrow> co_resume resume h s) = Inr s1 \<and>
    conn_inv False False wire
      (set_read (\<lambda>r. r\<lparr>rc_holder := False, rc_status := STOPED\<rparr>) (handleClose s1))"
proof -
  have "conn_inv True False wire s" using mid rest by (simp add: conn_inv_def read_mid_inv)
  from resume_failing_inv [OF laws co this, of "rc_handle (the_read s)"]
  obtain s1 where s1: "(case rc_handle (the_read s) of None \<Rightarrow> Inr s | Some h \<Rightarrow> co_resume resume h s) = Inr s1"
    "conn_inv True False wire s1" by auto
  have "read_inv False (set_read (\<lambda>r. r\<lparr>rc_holder := False, rc_status := STOPED\<rparr>) (handleClose s1))"
    using handleClose_inv(2) [OF s1(2)] by (rule read_inv_recover)
  with handleClose_inv [OF s1(2)] s1(1) show ?thesis
    by (auto simp: conn_inv_def handle_inv_def)
qed

lemma read_outstanding:
  assumes "conn_inv False False wire s" and "0 < cs_reads s"
  shows "rc_holder (the_read s)" "cs_reads s = 1" "rc_status (the_read s) \<noteq> STOPED"
    "rc_status (the_read s) = CANCELING \<or> rc_status (the_read s) = READING"
proof -
  show st: "rc_holder (the_read s)" "cs_reads s = 1" "rc_status (the_read s) \<noteq> STOPED"
    using assms by (auto simp: conn_inv_def read_inv_def split: if_splits)
  show "rc_status (the_read s) = CANCELING \<or> rc_status (the_read s) = READING"
    using st(3) by (cases "rc_status (the_read s)") simp_all
qed

text \<open>A completion of an outstanding receive, before it is looked at.\<close>

lemma read_delivered_ready:
  assumes "conn_inv False False wire s" and "0 < cs_reads s"
  shows "rc_holder (the_read (read_delivered res fl s))"
    and "rc_status (the_read (read_delivered res fl s)) = CANCELING \<or>
      rc_status (the_read (read_delivered res fl s)) = READING"
    and "write_inv False wire (read_delivered res fl s)" and "handle_inv False (read_delivered res fl s)"
    and "0 < lp_low_water (cs_loop (read_delivered res fl s))"
    and "read_mid (cqe_has_more fl) (read_delivered res fl s)"
  using read_outstanding [OF assms] assms(1)
  by (auto simp: conn_inv_def read_inv_def read_mid_def)

lemma read_data_completion_ok:
  assumes laws: "uring_laws U queued handed n" and n: "0 < n" and co: "resume_ok U B resume"
    and inv: "conn_inv False False wire s" and out: "0 < cs_reads s"
    and legal: "receive_legal res fl s" and pos: "0 < res"
  shows "\<exists>s'. read_on_completion U resume (read_delivered res fl s) = Inr s' \<and>
    conn_inv False False wire s'"
proof -
  let ?d = "read_delivered res fl s"
  note ok = read_delivered_ready [OF inv out, where res = res and fl = fl]
  have "receive_legal (rc_res (the_read ?d)) (rc_flags (the_read ?d)) ?d"
    using legal by (simp add: receive_legal_def)
  then obtain s1 where s1: "read_data U ?d = Inr s1" "read_mid (cqe_has_more fl) s1"
    "read_frame ?d s1" "rc_flags (the_read s1) = fl"
    using read_data_ok [OF laws n, of ?d] ok(6) pos by auto
  have rest1: "write_inv False wire s1" "handle_inv False s1" "0 < lp_low_water (cs_loop s1)"
    using ok(3-5) s1(3) by (simp_all add: read_frame_inv)
  show ?thesis
  proof (cases "cqe_has_more fl")
    case True
    then have "conn_inv False False wire s1" using s1(2) rest1 by (simp add: conn_inv_def read_mid_inv)
    from wake_reader_inv [OF laws co this] show ?thesis
      using ok(1,2) pos s1 True by (auto simp: read_on_completion_def)
  next
    case False
    then have "read_on_completion U resume ?d = read_ended U resume s1"
      using ok(1,2) pos s1 by (cases "rc_status (the_read s1)")
        (auto simp: read_on_completion_def read_ended_def read_mid_def)
    with read_ended_ok [OF laws co _ rest1] s1(2) False show ?thesis by simp
  qed
qed

lemma read_error_completion_ok:
  assumes laws: "uring_laws U queued handed n" and co: "resume_ok U B resume"
    and inv: "conn_inv False False wire s" and out: "0 < cs_reads s"
    and legal: "receive_legal res fl s" and neg: "\<not> 0 < res"
  shows "\<exists>s'. read_on_completion U resume (read_delivered res fl s) = Inr s' \<and>
    conn_inv False False wire s'"
proof -
  let ?d = "read_delivered res fl s"
  note ok = read_delivered_ready [OF inv out, where res = res and fl = fl]
  have nm: "\<not> cqe_has_more fl" using legal neg by (simp add: receive_legal_def)
  obtain close r where he: "read_handleError (the_read ?d) = (close, r)" by fastforce
  have r: "r = (if close then (the_read ?d)\<lparr>rc_error := True\<rparr> else the_read ?d)"
    using he neg by (auto simp: read_handleError_def Let_def split: if_splits)
  let ?s1 = "set_read (\<lambda>_. r) ?d"
  have mid1: "read_mid False ?s1" using ok(6) nm r by (simp add: read_mid_def)
  have w1: "write_inv False wire ?s1" "0 < lp_low_water (cs_loop ?s1)" using ok(3,5) by simp_all
  show ?thesis
  proof (cases close)
    case True
    have "handle_inv True ?s1" using ok(4) r True by (simp add: handle_inv_def)
    from read_fatal_ok [OF laws co mid1 w1(1) this w1(2)] show ?thesis
      using ok(1,2) neg he nm True r by (auto simp: read_on_completion_def)
  next
    case False
    then have "?s1 = ?d" using r by (simp add: set_read_def)
    then have "read_on_completion U resume ?d = read_ended U resume ?s1"
      using ok(1,2) neg he nm False by (auto simp: read_on_completion_def read_ended_def)
    moreover have "handle_inv False ?s1" using ok(4) r False by (simp add: handle_inv_def)
    ultimately show ?thesis using read_ended_ok [OF laws co mid1 w1(1) _ w1(2)] by simp
  qed
qed

lemma read_completion_ok:
  assumes "uring_laws U queued handed n" and "0 < n" and "resume_ok U B resume"
    and "conn_inv False False wire s" and "0 < cs_reads s" and "receive_legal res fl s"
  shows "\<exists>s'. read_on_completion U resume (read_delivered res fl s) = Inr s' \<and>
    conn_inv False False wire s'"
  using read_data_completion_ok [OF assms] read_error_completion_ok [OF assms(1,3-6)] by blast

end
