(* ===== verification/Connection_Runs.thy ===== *)
theory Connection_Runs
  imports Connection_Safety
begin

text \<open>
  The life of a connection as a sequence of steps: its start, completions of its requests, the
  functor that destroys its coroutine, and whatever other connections do to the loop and to the
  pool in between; the properties that hold in every state of it; and the runs that go wrong.
\<close>

section \<open>Reachable states\<close>

definition fresh_connection :: "('r, 'cb, 'b, 'k) conn_sys \<Rightarrow> bool" where
  "fresh_connection s \<longleftrightarrow>
     (\<exists>number name fd here peer a b c conn. TcpConnection number name fd here peer a b c = Inr conn \<and>
        cs_conn s = conn\<lparr>tc_close_callback := True\<rparr>) \<and>
     manager_wf (cs_manager s) \<and> 0 < lp_low_water (cs_loop s) \<and>
     cs_reads s = 0 \<and> cs_writes s = 0 \<and> cs_accepted s = []"

text \<open>
  What the kernel may report for a write: some prefix of the batch was taken, or an error. The three
  errors after which the code retries are left out; the section on failing runs shows why.
\<close>

definition write_legal :: "int \<Rightarrow> ('r, 'cb, 'b, 'k) conn_sys \<Rightarrow> bool" where
  "write_legal res s \<longleftrightarrow>
     (if res < 0 then \<not> write_retry res else res \<le> int (length (batch_bytes s)))"

text \<open>A functor has been taken from the front of the loop's queue; \<open>ts\<close> are the ones left.\<close>

definition task_taken ::
    "'k conn_task list \<Rightarrow> ('r, 'cb, 'b, 'k) conn_sys \<Rightarrow> ('r, 'cb, 'b, 'k) conn_sys" where
  "task_taken ts s = s\<lparr>cs_loop := (cs_loop s)\<lparr>lp_pending := ts\<rparr>\<rparr>"

text \<open>\<open>conn_reachable U B resume wire s\<close>: \<open>s\<close> is reached, and \<open>wire\<close> is what the kernel has taken.\<close>

inductive conn_reachable ::
    "'r uring_api \<Rightarrow> 'b buf_ring_api \<Rightarrow>
     ('k \<Rightarrow> ('r, 'cb, 'b, 'k) conn_sys \<Rightarrow> ('r, 'cb, 'b, 'k) conn_sys outcome) \<Rightarrow>
     byte list \<Rightarrow> ('r, 'cb, 'b, 'k) conn_sys \<Rightarrow> bool"
  for U B resume where
  start: "fresh_connection s \<Longrightarrow> Established resume h s = Inr s' \<Longrightarrow>
    conn_reachable U B resume [] s'"
| write_done: "conn_reachable U B resume wire s \<Longrightarrow> 0 < cs_writes s \<Longrightarrow> write_legal res s \<Longrightarrow>
    write_on_completion U resume (write_delivered res fl s) = Inr s' \<Longrightarrow>
    conn_reachable U B resume (wire @ take (nat res) (batch_bytes s)) s'"
| read_done: "conn_reachable U B resume wire s \<Longrightarrow> 0 < cs_reads s \<Longrightarrow> receive_legal res fl s \<Longrightarrow>
    read_on_completion U resume (read_delivered res fl s) = Inr s' \<Longrightarrow>
    conn_reachable U B resume wire s'"
| destroy: "conn_reachable U B resume wire s \<Longrightarrow> lp_pending (cs_loop s) = DestroyConnection # ts \<Longrightarrow>
    run_conn_task U resume DestroyConnection (task_taken ts s) = Inr s' \<Longrightarrow>
    conn_reachable U B resume wire s'"
| recv_functor: "conn_reachable U B resume wire s \<Longrightarrow> co_elsewhere s \<Longrightarrow>
    lp_pending (cs_loop s) = RecvSuspended h # ts \<Longrightarrow>
    run_conn_task U resume (RecvSuspended h) (task_taken ts s) = Inr s' \<Longrightarrow>
    conn_reachable U B resume wire s'"
| send_functor: "conn_reachable U B resume wire s \<Longrightarrow> co_elsewhere s \<Longrightarrow>
    lp_pending (cs_loop s) = SendSuspended data h # ts \<Longrightarrow> sq_admits data (wc_buffer (the_write s)) \<Longrightarrow>
    run_conn_task U resume (SendSuspended data h) (task_taken ts s) = Inr s' \<Longrightarrow>
    conn_reachable U B resume wire s'"
| other_loop: "conn_reachable U B resume wire s \<Longrightarrow> lp_low_water l = lp_low_water (cs_loop s) \<Longrightarrow>
    conn_reachable U B resume wire (s\<lparr>cs_loop := l\<rparr>)"
| other_pool: "conn_reachable U B resume wire s \<Longrightarrow>
    (\<And>xs. icb_rep (cs_manager s) (rc_buffer (the_read s)) xs \<Longrightarrow> icb_rep m (rc_buffer (the_read s)) xs) \<Longrightarrow>
    conn_reachable U B resume wire (s\<lparr>cs_manager := m\<rparr>)"

lemma fresh_connection_inv:
  assumes "fresh_connection s"
  shows "conn_inv False False [] (set_conn (\<lambda>c. c\<lparr>tc_task := True, tc_done := False\<rparr>) s)"
    (is "conn_inv _ _ _ ?s")
proof -
  obtain number name fd here peer a b c conn where c: "TcpConnection number name fd here peer a b c = Inr conn"
    "cs_conn s = conn\<lparr>tc_close_callback := True\<rparr>"
    using assms unfolding fresh_connection_def by blast
  have f: "the_write s = \<lparr>wc_res = 0, wc_flags = 0, wc_holder = False, wc_handle = None,
      wc_buffer = SendQueue, wc_high_water = c, wc_fd = fd, wc_sending = False, wc_error = False,
      wc_max_slices = 256, wc_temp = []\<rparr>" "the_read s = ReadContext a b fd"
    "tc_closing (cs_conn s) = False"
    using c by (auto simp: TcpConnection_def WriteContext_def outcome_iff)
  have "write_inv False [] ?s"
    using assms f sq_rep_new by (auto simp: write_inv_def fresh_connection_def)
  moreover have "read_inv False ?s"
    using assms f icb_rep_empty [of "cs_manager s"]
    by (auto simp: read_inv_def fresh_connection_def ReadContext_def)
  moreover have "handle_inv False ?s" using f by (simp add: handle_inv_def ReadContext_def)
  ultimately show ?thesis using assms by (simp add: conn_inv_def fresh_connection_def)
qed

lemma conn_inv_loop:
  "conn_inv f g wire s \<Longrightarrow> lp_low_water l = lp_low_water (cs_loop s) \<Longrightarrow>
   conn_inv f g wire (s\<lparr>cs_loop := l\<rparr>)"
  by (simp add: conn_inv_def handle_inv_def)

lemma task_taken_fields [simp]:
  "cs_conn (task_taken ts s) = cs_conn s" "cs_accepted (task_taken ts s) = cs_accepted s"
  "cs_reads (task_taken ts s) = cs_reads s" "cs_writes (task_taken ts s) = cs_writes s"
  "cs_manager (task_taken ts s) = cs_manager s" "co_elsewhere (task_taken ts s) = co_elsewhere s"
  by (simp_all add: task_taken_def co_elsewhere_def)

lemma task_taken_inv: "conn_inv f g wire s \<Longrightarrow> conn_inv f g wire (task_taken ts s)"
  unfolding task_taken_def by (rule conn_inv_loop) simp_all

lemma conn_inv_close: "conn_inv False False wire s \<Longrightarrow> conn_inv False False wire (handleClose s)"
  using handleClose_inv [of False False wire s] by (simp add: conn_inv_def)

lemma write_completion_ok:
  assumes "uring_laws U queued handed n" and "resume_ok U B resume" and "conn_inv False False wire s"
    and "0 < cs_writes s" and "write_legal res s"
  shows "\<exists>s'. write_on_completion U resume (write_delivered res fl s) = Inr s' \<and>
    conn_inv False False (wire @ take (nat res) (batch_bytes s)) s'"
  using write_failure_ok [OF assms(1-4), of res fl] write_success_ok [OF assms(1-4), of res fl] assms(5)
  by (cases "res < 0") (auto simp: write_legal_def)

lemma conn_reachable_inv:
  assumes laws: "uring_laws U queued handed n" and n: "0 < n" and co: "resume_ok U B resume"
    and "conn_reachable U B resume wire s"
  shows "conn_inv False False wire s"
  using assms(4)
proof induction
  case (start s h s')
  then show ?case
    using co_resume_inv [OF laws co fresh_connection_inv [OF start(1)], of h]
    by (auto simp: Established_def)
next
  case (write_done wire s res fl s')
  then show ?case using write_completion_ok [OF laws co write_done.IH write_done.hyps(2,3), of fl] by auto
next
  case (read_done wire s res fl s')
  then show ?case
    using read_completion_ok [OF laws n co read_done.IH read_done.hyps(2,3)] by auto
next
  case (destroy wire s ts s')
  from conn_inv_close [OF task_taken_inv [OF destroy.IH]] destroy.hyps(3) show ?case by auto
next
  case (recv_functor wire s h ts s')
  then show ?case
    using recv_functor_ok [OF laws co task_taken_inv [OF recv_functor.IH], of ts h] by auto
next
  case (send_functor wire s data h ts s')
  then show ?case
    using send_functor_ok [OF laws co task_taken_inv [OF send_functor.IH], of ts data h] by auto
next
  case (other_loop wire s l)
  then show ?case by (simp add: conn_inv_loop)
next
  case (other_pool wire s m)
  then show ?case by (auto simp: conn_inv_def read_inv_def handle_inv_def)
qed

section \<open>What holds in every state\<close>

text \<open>The write in flight carries a prefix of the queue.\<close>

lemma write_inv_batch:
  assumes inv: "write_inv False wire s" and out: "0 < cs_writes s"
  shows "\<exists>rest. sq_content (wc_buffer (the_write s)) = batch_bytes s @ rest"
proof -
  have "wc_sending (the_write s)" using inv out by (auto simp: write_inv_def split: if_splits)
  then obtain xs k where "sq_rep (wc_buffer (the_write s)) xs k"
    "batch_bytes s = sq_bytes_of (wc_buffer (the_write s)) (take k xs)"
    using inv unfolding write_inv_def by auto
  then show ?thesis by (metis append_take_drop_id sq_bytes_of_simps(3) sq_content_rep)
qed

text \<open>
  C9 Bytes are sent in order and none is lost or repeated: in every reachable state, what the
  coroutine has given to \<open>send\<close> is exactly what the kernel has taken followed by what the send queue
  still holds; and the write in flight, if there is one, carries a prefix of the queue.
\<close>

theorem sent_bytes_in_order:
  assumes "uring_laws U queued handed n" and "0 < n" and "resume_ok U B resume"
    and "conn_reachable U B resume wire s"
  shows "cs_accepted s = wire @ sq_content (wc_buffer (the_write s)) \<and>
    (0 < cs_writes s \<longrightarrow> (\<exists>rest. sq_content (wc_buffer (the_write s)) = batch_bytes s @ rest))"
  using conn_reachable_inv [OF assms] write_inv_batch [of wire s] by (auto simp: conn_inv_def write_inv_def)

text \<open>
  C13 A context keeps the connection alive exactly while the kernel may still report to it: in every
  reachable state there is at most one write and at most one receive outstanding, \<open>holder_\<close> is set in
  a context if and only if its request is outstanding, and \<open>is_sending_\<close> and the read status say so.
\<close>

theorem holder_iff_outstanding:
  assumes "uring_laws U queued handed n" and "0 < n" and "resume_ok U B resume"
    and "conn_reachable U B resume wire s"
  shows "cs_writes s \<le> 1 \<and> cs_reads s \<le> 1 \<and>
    (wc_holder (the_write s) \<longleftrightarrow> cs_writes s = 1) \<and> (wc_sending (the_write s) \<longleftrightarrow> cs_writes s = 1) \<and>
    (rc_holder (the_read s) \<longleftrightarrow> cs_reads s = 1) \<and>
    (rc_status (the_read s) = STOPED \<longleftrightarrow> cs_reads s = 0)"
  using conn_reachable_inv [OF assms] by (auto simp: conn_inv_def write_inv_def read_inv_def)


text \<open>
  A connection whose receive fails is closed: when a receive reports the end of the stream or a
  fatal error in a reachable state, the completion leaves the connection closing, with no waiting
  handle, no holder in the read context and no receive outstanding.
\<close>

theorem failed_receive_closes:
  assumes "uring_laws U queued handed n" and "0 < n" and "resume_ok U B resume"
    and "conn_reachable U B resume wire s" and "0 < cs_reads s" and "receive_legal res fl s"
    and "res = 0 \<or> res = - ECONNRESET \<or> res = - EPIPE \<or> res = - EBADF \<or> res = - ENOTCONN"
  shows "\<exists>s'. read_on_completion U resume (read_delivered res fl s) = Inr s' \<and>
    tc_closing (cs_conn s') \<and> rc_handle (the_read s') = None \<and> wc_handle (the_write s') = None \<and>
    \<not> rc_holder (the_read s') \<and> cs_reads s' = 0"
proof -
  note inv = conn_reachable_inv [OF assms(1-4)]
  obtain s' where s': "read_on_completion U resume (read_delivered res fl s) = Inr s'"
    "conn_inv False False wire s'"
    using read_completion_ok [OF assms(1-3) inv assms(5,6)] by blast
  let ?d = "read_delivered res fl s"
  let ?s1 = "set_read (\<lambda>_. (the_read s)\<lparr>rc_res := res, rc_flags := fl, rc_error := True\<rparr>) ?d"
  have err: "read_handleError (the_read ?d) =
      (True, (the_read s)\<lparr>rc_res := res, rc_flags := fl, rc_error := True\<rparr>)" "res \<le> 0"
    using assms(7) by (elim disjE; simp add: read_handleError_def errno_defs)+
  note st = read_outstanding(1,4) [OF inv assms(5)]
  have nm: "\<not> cqe_has_more fl" using assms(6) err(2) by (simp add: receive_legal_def)
  have "read_on_completion U resume ?d =
      andThen (case rc_handle (the_read ?s1) of None \<Rightarrow> Inr ?s1 | Some h \<Rightarrow> co_resume resume h ?s1)
        (\<lambda>s2. Inr (set_read (\<lambda>r. r\<lparr>rc_holder := False, rc_status := STOPED\<rparr>) (handleClose s2)))"
    using st err nm by (simp add: read_on_completion_def)
  with s'(1) obtain s2 where
    "s' = set_read (\<lambda>r. r\<lparr>rc_holder := False, rc_status := STOPED\<rparr>) (handleClose s2)"
    by (metis (no_types, lifting) andThen_Inr_iff Inr_inject)
  then have "tc_closing (cs_conn s') \<and> rc_status (the_read s') = STOPED" by simp
  with s'(2) show ?thesis
    using s'(1) by (auto simp: conn_inv_def read_inv_def handle_inv_def)
qed

section \<open>A concrete connection\<close>

text \<open>A coroutine that sends two bytes each time it is resumed and then waits for data.\<close>

definition demo_send :: "(slots, unit, 'b, nat) conn_sys \<Rightarrow> (slots, unit, 'b, nat) conn_sys" where
  "demo_send s =
     (if \<not> wc_error (the_write s) \<and> sq_admits [1, 2] (wc_buffer (the_write s))
      then (case send_await_ready slot_ring True [1, 2] s of Inr (_, s') \<Rightarrow> s' | Inl _ \<Rightarrow> s) else s)"

definition demo_recv :: "nat \<Rightarrow> (slots, unit, 'b, nat) conn_sys \<Rightarrow> (slots, unit, 'b, nat) conn_sys" where
  "demo_recv h s =
     (if \<not> recv_await_ready True s \<and> \<not> tc_done (cs_conn s) \<and> tc_task (cs_conn s)
      then (case recv_await_suspend slot_ring True h s of Inr s' \<Rightarrow> s' | Inl _ \<Rightarrow> s) else s)"

definition demo_resume ::
    "nat \<Rightarrow> (slots, unit, 'b, nat) conn_sys \<Rightarrow> (slots, unit, 'b, nat) conn_sys outcome" where
  "demo_resume h s = Inr (demo_recv h (demo_send s))"

lemma demo_send_step: "(user_step slot_ring B)\<^sup>*\<^sup>* s (demo_send s)"
  by (auto simp: demo_send_def split: sum.split intro!: r_into_rtranclp user_send)

lemma demo_recv_step: "(user_step slot_ring B)\<^sup>*\<^sup>* s (demo_recv h s)"
  by (auto simp: demo_recv_def split: sum.split intro!: r_into_rtranclp user_recv_suspend)

lemma demo_resume_ok: "resume_ok slot_ring B demo_resume"
  unfolding resume_ok_def demo_resume_def
  using demo_send_step demo_recv_step by (blast intro: rtranclp_trans)

definition demo_io :: "(slots, nat conn_task, unit) io_loop" where
  "demo_io =
     \<lparr>lp_ring = ([], []), lp_looping = True, lp_quit = False, lp_time_out = kPollTimeS,
      lp_low_water = 1, lp_bgid = 3, lp_pending = [], lp_calling = False, lp_wakeup_fd = 9,
      lp_eventfd = 0, lp_waiting = [], lp_timers = TimerQueue\<rparr>"

definition demo_addr :: sockaddr_in where
  "demo_addr = \<lparr>sin_family = AF_INET, sin_port = htons 80, sin_addr = 0x0100007F\<rparr>"

definition demo_sys :: "(slots, unit, list_ring_state, nat) conn_sys" where
  "demo_sys =
     \<lparr>cs_loop = demo_io, cs_manager = demo_manager,
      cs_conn = (case TcpConnection 7 ''echo-127.0.0.1:80#7'' 5 demo_addr demo_addr 1024 8 1024 of Inr c \<Rightarrow> c\<lparr>tc_close_callback := True\<rparr>),
      cs_reads = 0, cs_writes = 0, cs_accepted = []\<rparr>"

lemma demo_sys_fresh: "fresh_connection demo_sys"
proof -
  obtain conn :: "nat tcp_connection" where c: "TcpConnection 7 ''echo-127.0.0.1:80#7'' 5 demo_addr demo_addr 1024 8 1024 = Inr conn"
    by (simp add: TcpConnection_def WriteContext_def)
  then show ?thesis
    unfolding fresh_connection_def using demo_manager_wf
    by (intro conjI exI [where x = conn] exI)
      (simp_all add: demo_sys_def demo_io_def)
qed

definition demo_started :: "(slots, unit, list_ring_state, nat) conn_sys" where
  "demo_started = (case Established demo_resume 0 demo_sys of Inr s \<Rightarrow> s)"

lemma demo_started_reachable: "conn_reachable slot_ring list_ring demo_resume [] demo_started"
proof -
  have "Established demo_resume 0 demo_sys = Inr demo_started"
    by (simp add: demo_started_def Established_def co_resume_def demo_resume_def)
  with demo_sys_fresh show ?thesis by (rule conn_reachable.start)
qed

text \<open>The first send of a connection carries the data as its batch.\<close>

lemma sendInLoop_batch:
  assumes "sendInLoop U data s = Inr s'" and "wc_buffer (the_write s) = SendQueue"
    and "\<not> wc_sending (the_write s)" and "0 < wc_max_slices (the_write s)" and "length data < 2 ^ 64"
  shows "batch_bytes s' = data"
proof -
  let ?a = "sq_unused SendQueue" and ?m = "wc_max_slices (the_write s)"
  obtain q where q: "sq_append data SendQueue = Inr q" "sq_rep q [?a] 0" "sq_bytes_of q [?a] = data"
    using sq_append_ok [OF sq_rep_new, of data] assms(5) by auto
  have "0 < unat ?m" using assms(4) by (simp add: unat_gt_0)
  then have "take (unat ?m) [?a] = [?a]" by (cases "unat ?m") simp_all
  then obtain q' where b: "getBatchFragment [] ?m q = Inr ([frag_iovec q ?a], q')"
    using getBatchFragment_rep(1) [OF q(2), of ?m] by auto
  have "concat (map iov_bytes [frag_iovec q ?a]) = data"
    using frag_iovecs_bytes [of q "[?a]" "[?a]"] q(2,3) by (simp add: sq_rep_def)
  moreover have "wc_temp (the_write s') = [frag_iovec q ?a]"
    using assms(1-3) q(1) b by (auto simp: sendInLoop_def flush_def submitWrite_def outcome_iff Let_def)
  ultimately show ?thesis by simp
qed

lemma demo_started_fields:
  "cs_writes demo_started = 1" "cs_reads demo_started = 1" "cs_accepted demo_started = [1, 2]"
  "rc_handle (the_read demo_started) = Some 0" "wc_handle (the_write demo_started) = None"
  "batch_bytes demo_started = [1, 2]"
proof -
  let ?s = "set_conn (\<lambda>c. c\<lparr>tc_task := True, tc_done := False\<rparr>) demo_sys"
  have w: "the_write demo_sys = \<lparr>wc_res = 0, wc_flags = 0, wc_holder = False, wc_handle = None,
      wc_buffer = SendQueue, wc_high_water = 1024, wc_fd = 5, wc_sending = False, wc_error = False,
      wc_max_slices = 256, wc_temp = []\<rparr>" "the_read demo_sys = ReadContext 1024 8 5"
    "\<not> tc_closing (cs_conn demo_sys)" "cs_accepted demo_sys = []"
    by (simp_all add: demo_sys_def TcpConnection_def WriteContext_def)
  have inv: "write_inv False [] ?s" "read_inv False ?s" "0 < lp_low_water (cs_loop ?s)"
    using fresh_connection_inv [OF demo_sys_fresh] by (simp_all add: conn_inv_def)
  have adm: "sq_admits [1, 2] (wc_buffer (the_write ?s))" using w(1) by (simp add: sq_admits_def)
  obtain s1 where s1: "sendInLoop slot_ring [1, 2] ?s = Inr s1" "write_inv False [] s1"
    "write_frame ?s s1" "cs_accepted s1 = [1, 2]" "wc_sending (the_write s1)"
    using sendInLoop_ok [OF slot_ring_laws inv(1) _ inv(3) adm] w by auto
  then have ds: "demo_send ?s = s1" using adm w by (simp add: demo_send_def send_await_ready_def)
  let ?s1 = "set_read (\<lambda>r. r\<lparr>rc_handle := Some 0\<rparr>) s1"
  have f1: "the_read s1 = ReadContext 1024 8 5" "\<not> tc_closing (cs_conn s1)" "tc_task (cs_conn s1)"
    "\<not> tc_done (cs_conn s1)" "0 < lp_low_water (cs_loop s1)" "read_inv False s1"
    using s1(3) w inv(2,3) write_frame_inv [OF s1(3)] by (simp_all add: write_frame_def)
  have r0: "cs_reads s1 = 0" "\<exists>xs. icb_rep (cs_manager ?s1) (rc_buffer (the_read ?s1)) xs"
    using f1(1,6) by (simp_all add: read_inv_def ReadContext_def)
  obtain s2 where s2: "submitRead slot_ring ?s1 = Inr s2" "read_inv False s2" "read_frame ?s1 s2"
    "rc_status (the_read s2) = READING"
    using submitRead_ok [OF slot_ring_laws, of ?s1] f1(5) r0 by auto
  have "demo_recv 0 s1 = s2"
    using f1 s2(1) by (simp add: demo_recv_def recv_await_ready_def recv_await_suspend_def
        read_isEmpty_def ReadContext_def InputChainBuffer_def Let_def)
  then have st: "demo_started = s2"
    using ds by (simp add: demo_started_def Established_def co_resume_def demo_resume_def)
  have "cs_writes s1 = 1" using s1(2,5) by (simp add: write_inv_def)
  then show "cs_writes demo_started = 1" "cs_accepted demo_started = [1, 2]"
    using s2(3) s1(4) st by (simp_all add: read_frame_def)
  show "cs_reads demo_started = 1" using s2(2,4) st by (simp add: read_inv_def)
  show "wc_handle (the_write demo_started) = None"
    using sendInLoop_handle [OF s1(1)] w(1) s2(3) st by (simp add: read_frame_def)
  show "rc_handle (the_read demo_started) = Some 0" using s2(3) st by (simp add: read_frame_def)
  show "batch_bytes demo_started = [1, 2]"
    using sendInLoop_batch [OF s1(1)] w(1) s2(3) st by (simp add: read_frame_def)
qed

lemmas demo_run = slot_ring_laws zero_less_numeral [of "num.Bit0 num.One"] demo_resume_ok
  demo_started_reachable

theorem sent_bytes_in_order_witness:
  "\<exists>rest. [1, 2] = sq_content (wc_buffer (the_write demo_started)) \<and>
     sq_content (wc_buffer (the_write demo_started)) = batch_bytes demo_started @ rest"
  using sent_bytes_in_order [OF demo_run] by (simp add: demo_started_fields)

theorem holder_iff_outstanding_witness:
  "wc_holder (the_write demo_started) \<and> rc_holder (the_read demo_started)"
  using holder_iff_outstanding [OF demo_run] by (simp add: demo_started_fields)

text \<open>A coroutine that moves to a worker thread as soon as it is resumed.\<close>

definition away_resume ::
    "nat \<Rightarrow> (slots, unit, 'b, nat) conn_sys \<Rightarrow> (slots, unit, 'b, nat) conn_sys outcome" where
  "away_resume h s = Inr s"

definition away_started :: "(slots, unit, list_ring_state, nat) conn_sys" where
  "away_started = set_conn (\<lambda>c. c\<lparr>tc_task := True, tc_done := False\<rparr>) demo_sys"

lemma away_resume_ok: "resume_ok slot_ring B away_resume"
  by (simp add: resume_ok_def away_resume_def)

lemma away_started_reachable: "conn_reachable slot_ring list_ring away_resume [] away_started"
proof -
  have "Established away_resume 0 demo_sys = Inr away_started"
    by (simp add: away_started_def Established_def co_resume_def away_resume_def)
  with demo_sys_fresh show ?thesis by (rule conn_reachable.start)
qed

lemma away_started_elsewhere:
  "co_elsewhere away_started" "sq_admits [1, 2] (wc_buffer (the_write away_started))"
  by (simp_all add: away_started_def co_elsewhere_def demo_sys_def TcpConnection_def WriteContext_def
      ReadContext_def sq_admits_def)

lemmas away_run = slot_ring_laws zero_less_numeral [of "num.Bit0 num.One"] away_resume_ok
  away_started_reachable


theorem failed_receive_closes_witness:
  "\<exists>s'. read_on_completion slot_ring demo_resume (read_delivered 0 0 demo_started) = Inr s' \<and>
     tc_closing (cs_conn s') \<and> cs_reads s' = 0"
proof -
  have "receive_legal 0 0 demo_started" by (simp add: receive_legal_def cqe_has_more_def)
  with failed_receive_closes [OF demo_run _ this] show ?thesis
    by (auto simp: demo_started_fields)
qed

end
