(* ===== verification/Connection_Findings.thy ===== *)
theory Connection_Findings
  imports Connection_Runs
begin

text \<open>
  Runs of a connection that go wrong, each reproduced on the model of the code: the retry of a write
  starts behind the fragments it should send again, requests are submitted on a socket that is
  already closed, a send after a failed one leaves a request without its holder, and empty
  fragments at the front of the queue keep the data behind them from ever being sent.
\<close>

section \<open>Flushing from anywhere in the queue\<close>

lemma flush_from:
  assumes laws: "uring_laws U queued handed n" and low: "0 < lp_low_water (cs_loop s)"
    and rep: "sq_rep (wc_buffer (the_write s)) xs k" and ne: "k < length xs"
    and hold: "wc_holder (the_write s)" and mx: "0 < wc_max_slices (the_write s)"
  shows "\<exists>s' l vs. flush U s = Inr s' \<and>
    submitWriteMsg U (wc_fd (the_write s)) vs (WriteCtx (tc_number (cs_conn s))) (cs_loop s) = Inr l \<and>
    s' = set_write (\<lambda>w. w\<lparr>wc_buffer := (wc_buffer w)\<lparr>sq_curr := cursor xs (min (k + unat (wc_max_slices w)) (length xs))\<rparr>,
           wc_temp := vs, wc_sending := True\<rparr>) (s\<lparr>cs_loop := l, cs_writes := cs_writes s + 1\<rparr>) \<and>
    vs = map (frag_iovec (wc_buffer (the_write s))) (take (unat (wc_max_slices (the_write s))) (drop k xs)) \<and>
    concat (map iov_bytes vs) =
      sq_bytes_of (wc_buffer (the_write s)) (take (unat (wc_max_slices (the_write s))) (drop k xs))"
proof -
  let ?q = "wc_buffer (the_write s)" and ?m = "unat (wc_max_slices (the_write s))"
  let ?vs = "map (frag_iovec ?q) (take ?m (drop k xs))"
  let ?q1 = "?q\<lparr>sq_curr := cursor xs (min (k + ?m) (length xs))\<rparr>"
  have b: "getBatchFragment [] (wc_max_slices (the_write s)) ?q = Inr (?vs, ?q1)"
    using getBatchFragment_rep(1) [OF rep] .
  have "0 < ?m" using mx by (simp add: unat_gt_0)
  then have vs: "?vs \<noteq> []" using ne by simp
  obtain l where l: "submitWriteMsg U (wc_fd (the_write s)) ?vs (WriteCtx (tc_number (cs_conn s))) (cs_loop s) = Inr l"
    using submit_write_ok [OF laws low] by blast
  have "flush U s = Inr (set_write (\<lambda>w. w\<lparr>wc_buffer := ?q1, wc_temp := ?vs, wc_sending := True\<rparr>)
      (s\<lparr>cs_loop := l, cs_writes := cs_writes s + 1\<rparr>))"
    using b vs hold l by (simp add: flush_def submitWrite_def Let_def) (simp add: set_write_def)
  moreover have "concat (map iov_bytes ?vs) = sq_bytes_of ?q (take ?m (drop k xs))"
    using rep by (intro frag_iovecs_bytes) (auto simp: sq_rep_def dest: in_set_takeD in_set_dropD)
  ultimately show ?thesis using l by (intro exI [of _ l] exI [of _ ?vs] exI) (auto simp: set_write_def)
qed

section \<open>The retry of a write\<close>

text \<open>
  C39 The retry of a write loses its place: after \<open>EAGAIN\<close>, \<open>ENOBUFS\<close> or \<open>EINTR\<close> the next batch starts
  behind the fragments of the failed one, because \<open>curr_\<close> was moved on and is not set back. When the
  failed batch was the whole queue, the assertion that there is something to send fails.
\<close>

theorem write_retry_loses_place:
  assumes "uring_laws U queued handed n" and "0 < lp_low_water (cs_loop s)"
    and "sq_rep (wc_buffer (the_write s)) xs k" and "sq_content (wc_buffer (the_write s)) \<noteq> []"
    and "wc_holder (the_write s)" and "0 < wc_max_slices (the_write s)"
    and "wc_handle (the_write s) = None" and "wc_res (the_write s) = - EAGAIN"
  shows "(k = length xs \<longrightarrow> write_on_completion U resume s = Inl AssertFailed) \<and>
    (k < length xs \<longrightarrow> (\<exists>s'. write_on_completion U resume s = Inr s' \<and>
       batch_bytes s' = sq_bytes_of (wc_buffer (the_write s))
         (take (unat (wc_max_slices (the_write s))) (drop k xs))))"
proof -
  let ?q = "wc_buffer (the_write s)"
  let ?s = "set_write (\<lambda>_. (the_write s)\<lparr>wc_sending := False\<rparr>) s"
  have he: "write_handleError (the_write s) = (False, the_write s)"
    using assms(8) by (simp add: write_handleError_def errno_defs)
  have "unat (sq_total_len ?q) \<noteq> 0"
    using assms(3,4) sq_content_rep [OF assms(3)] by (simp add: sq_rep_def)
  then have "0 < sq_total_len ?q" by (simp add: word_greater_zero_iff unat_eq_zero)
  then have wc: "write_on_completion U resume s = andThen (flush U ?s) (wake_writer resume)"
    using assms(5,8) he by (simp add: write_on_completion_def errno_defs)
  have "flush U ?s = Inl AssertFailed" if "k = length xs"
    using getBatchFragment_rep(1) [OF assms(3), of "wc_max_slices (the_write s)"] that
    by (simp add: flush_def Let_def)
  moreover have "\<exists>s'. andThen (flush U ?s) (wake_writer resume) = Inr s' \<and>
      batch_bytes s' = sq_bytes_of ?q (take (unat (wc_max_slices (the_write s))) (drop k xs))"
    if "k < length xs"
    using flush_from [OF assms(1), of ?s xs k] assms that by (fastforce simp: wake_writer_def)
  ultimately show ?thesis using wc by auto
qed

section \<open>Requests on a closed socket\<close>

text \<open>
  A write can be submitted after the socket was closed: when the connection has been closed, by
  the read side for example, while a write was in flight, the completion of that write submits the
  rest of the queue on the same descriptor number, which the kernel may have given to another
  connection by then.
\<close>

theorem write_after_close:
  assumes "uring_laws U queued handed n" and "0 < lp_low_water (cs_loop s)"
    and "sq_inv (wc_buffer (the_write s))" and "wc_holder (the_write s)"
    and "0 < wc_max_slices (the_write s)" and "wc_handle (the_write s) = None"
    and "tc_sock_closed (cs_conn s)" and "0 \<le> wc_res (the_write s)"
    and "wc_res (the_write s) < int (length (sq_content (wc_buffer (the_write s))))"
  shows "\<exists>s' vs. write_on_completion U resume s = Inr s' \<and> tc_sock_closed (cs_conn s') \<and>
    submitWriteMsg U (wc_fd (the_write s)) vs (WriteCtx (tc_number (cs_conn s))) (cs_loop s) =
      Inr (cs_loop s') \<and>
    cs_writes s' = cs_writes s + 1"
proof -
  let ?q = "wc_buffer (the_write s)" and ?res = "wc_res (the_write s)"
  obtain xs k where rep: "sq_rep ?q xs k" using assms(3) by (auto simp: sq_inv_def)
  have c: "length (sq_content ?q) < 2 ^ 64"
    using rep unat_bound64 [of "sq_total_len ?q"] sq_content_rep [OF rep] by (simp add: sq_rep_def)
  then have u: "unat (of_int ?res :: size_t) = nat ?res"
    using assms(8,9) by (intro unat_of_int_small) auto
  obtain q ys where q: "sq_retrieve (of_int ?res) ?q = Some (Inr q)" "sq_rep q ys 0"
    "sq_bytes_of q ys = drop (nat ?res) (sq_content ?q)"
    using sq_retrieve_ok [OF rep, of "of_int ?res"] sq_content_rep [OF rep] u by metis
  have ne: "sq_bytes_of q ys \<noteq> []" using q(3) assms(8,9) by simp
  then have ys: "ys \<noteq> []" by auto
  have "unat (sq_total_len q) \<noteq> 0" using q(2) ne by (simp add: sq_rep_def)
  then have tot: "0 < sq_total_len q" by (simp add: word_greater_zero_iff unat_eq_zero)
  let ?s = "set_write (\<lambda>w. w\<lparr>wc_buffer := q\<rparr>) s"
  have "write_on_completion U resume s = andThen (flush U ?s) (wake_writer resume)"
    using assms(4,8) q(1) tot by (simp add: write_on_completion_def)
  moreover obtain s' l vs where "flush U ?s = Inr s'"
    "submitWriteMsg U (wc_fd (the_write ?s)) vs (WriteCtx (tc_number (cs_conn ?s))) (cs_loop ?s) = Inr l"
    "s' = set_write (\<lambda>w. w\<lparr>wc_buffer := (wc_buffer w)\<lparr>sq_curr := cursor ys (min (0 + unat (wc_max_slices w)) (length ys))\<rparr>,
           wc_temp := vs, wc_sending := True\<rparr>) (?s\<lparr>cs_loop := l, cs_writes := cs_writes ?s + 1\<rparr>)"
    using flush_from [OF assms(1), of ?s ys 0] assms q(2) ys by auto
  ultimately show ?thesis
    using assms(6,7) by (intro exI [of _ s'] exI [of _ vs]) (simp add: wake_writer_def)
qed

text \<open>
  A receive can be submitted after the socket was closed: the functor a coroutine on another
  thread queues to wait for data does not look at \<open>closing_\<close>, so when it runs after the connection was
  closed it arms a receive on the closed descriptor number.
\<close>

theorem receive_after_close:
  assumes "uring_laws U queued handed n" and "0 < lp_low_water (cs_loop s)"
    and "tc_sock_closed (cs_conn s)" and "read_isEmpty (the_read s)" and "rc_status (the_read s) = STOPED"
  shows "\<exists>s'. run_conn_task U resume (RecvSuspended h) s = Inr s' \<and> tc_sock_closed (cs_conn s') \<and>
    submitReadMultishut U (rc_fd (the_read s)) (ReadCtx (tc_number (cs_conn s))) (cs_loop s) =
      Inr (cs_loop s') \<and>
    cs_reads s' = cs_reads s + 1 \<and> rc_handle (the_read s') = Some h"
  using assms submit_read_ok [OF assms(1,2), of "rc_fd (the_read s)" "ReadCtx (tc_number (cs_conn s))"]
  by (auto simp: submitRead_def Let_def)

section \<open>A send after a failed send\<close>

text \<open>
  A coroutine that sends again after a failed write breaks the life time of the connection: the
  second write is submitted, and then \<open>holder_\<close> is cleared and \<open>is_sending_\<close> reset, so a request of the
  context is outstanding while nothing keeps the connection alive; its completion fails the
  assertion on \<open>holder_\<close>.
\<close>

theorem send_after_error_unheld:
  assumes "uring_laws U queued handed n" and "conn_inv False False wire s" and "0 < cs_writes s"
    and "wc_handle (the_write s) = Some h" and "sq_admits data (wc_buffer (the_write s))"
    and "\<And>k t. resume k t = sendInLoop U data t"
  shows "\<exists>s'. write_on_completion U resume (write_delivered (- EPIPE) fl s) = Inr s' \<and>
    cs_writes s' = 1 \<and> \<not> wc_holder (the_write s') \<and>
    write_on_completion U resume s' = Inl AssertFailed"
proof -
  have w: "write_inv False wire s" "0 < lp_low_water (cs_loop s)" "tc_task (cs_conn s)"
    using assms(2,4) by (auto simp: conn_inv_def handle_inv_def)
  have snd: "wc_holder (the_write s)" "cs_writes s = 1" "0 < wc_max_slices (the_write s)"
    using w(1) assms(3) by (auto simp: write_inv_def split: if_splits)
  obtain xs k where rep: "sq_rep (wc_buffer (the_write s)) xs k" using w(1) by (auto simp: write_inv_def)
  let ?d = "write_delivered (- EPIPE) fl s"
  let ?s1 = "set_write (\<lambda>_. (the_write ?d)\<lparr>wc_error := True, wc_sending := False\<rparr>) ?d"
  have "length (sq_bytes_of (wc_buffer (the_write s)) xs) + length data < 2 ^ 64"
    using assms(5) sq_content_rep [OF rep] by (simp add: sq_admits_def)
  then obtain q where q: "sq_append data (wc_buffer (the_write s)) = Inr q"
    "sq_rep q (xs @ [sq_unused (wc_buffer (the_write s))]) k"
    using sq_append_ok [OF rep] by blast
  have kl: "k < length (xs @ [sq_unused (wc_buffer (the_write s))])" using rep by (simp add: sq_rep_def)
  let ?s2 = "set_write (\<lambda>w. w\<lparr>wc_holder := True\<rparr>)
    ((set_write (\<lambda>w. w\<lparr>wc_buffer := q\<rparr>) ?s1)\<lparr>cs_accepted := cs_accepted ?s1 @ data\<rparr>)"
  have f2: "wc_buffer (the_write ?s2) = q" "wc_holder (the_write ?s2)" "cs_writes ?s2 = 0"
    "0 < lp_low_water (cs_loop ?s2)" "0 < wc_max_slices (the_write ?s2)"
    using w(2) snd by (simp_all add: write_delivered_def)
  obtain s3 where s3: "flush U ?s2 = Inr s3" "cs_writes s3 = 1"
    using flush_from [OF assms(1) f2(4), of _ k] q(2) kl f2 by fastforce
  let ?s4 = "set_write (\<lambda>w. w\<lparr>wc_sending := True\<rparr>) s3"
  let ?s5 = "set_write (\<lambda>w. w\<lparr>wc_holder := False, wc_sending := False\<rparr>) (handleClose ?s4)"
  have snd1: "sendInLoop U data ?s1 = Inr ?s4"
    using q(1) s3(1) by (simp add: sendInLoop_def Let_def write_delivered_write)
  have err: "write_handleError (the_write ?d) = (True, (the_write ?d)\<lparr>wc_error := True\<rparr>)"
    by (simp add: write_handleError_def write_delivered_write errno_defs)
  have t: "tc_task (cs_conn ?s1)" "wc_handle (the_write ?s1) = Some h"
    using w(3) assms(4) by (simp_all add: write_delivered_def)
  have "write_on_completion U resume ?d = Inr ?s5"
    using snd(1) err snd1 t assms(6)
    by (simp add: write_on_completion_def co_resume_def) (simp add: write_delivered_write EPIPE_def)
  moreover have "cs_writes ?s5 = 1" using s3(2) by (simp add: handleClose_def Let_def)
  moreover have "write_on_completion U resume ?s5 = Inl AssertFailed"
    by (simp add: write_on_completion_def)
  ultimately show ?thesis by (intro exI [of _ ?s5]) simp
qed

section \<open>Empty fragments\<close>

text \<open>
  \<open>stuck s\<close>: a write is in flight, there is data in the queue, and the first \<open>max_slices_\<close> fragments
  are empty.
\<close>

definition stuck :: "('r, 'cb, 'b, 'k) conn_sys \<Rightarrow> bool" where
  "stuck s \<longleftrightarrow>
     (\<exists>xs k. sq_rep (wc_buffer (the_write s)) xs k \<and>
        unat (wc_max_slices (the_write s)) \<le> length xs \<and>
        sq_bytes_of (wc_buffer (the_write s)) (take (unat (wc_max_slices (the_write s))) xs) = []) \<and>
     sq_content (wc_buffer (the_write s)) \<noteq> [] \<and> 0 < wc_max_slices (the_write s) \<and>
     wc_holder (the_write s) \<and> wc_handle (the_write s) = None \<and> 0 < cs_writes s \<and>
     0 < lp_low_water (cs_loop s)"

lemma sq_retrieve_0:
  assumes "sq_rep q xs k"
  shows "sq_retrieve 0 q = Some (Inr (q\<lparr>sq_curr := sq_head q\<rparr>))" "sq_rep (q\<lparr>sq_curr := sq_head q\<rparr>) xs 0"
proof -
  have "sq_retrieve_loop 0 q 0 = Some (Inr (q, 0))" by (subst sq_retrieve_loop.simps) simp
  then show "sq_retrieve 0 q = Some (Inr (q\<lparr>sq_curr := sq_head q\<rparr>))" by (simp add: sq_retrieve_def)
  have "sq_head q = cursor xs 0"
    using assms by (cases xs) (auto simp: sq_rep_def sq_links_def cursor_def)
  then show "sq_rep (q\<lparr>sq_curr := sq_head q\<rparr>) xs 0" using assms by (simp add: sq_rep_def)
qed

text \<open>
  Empty fragments can block a connection for ever: when \<open>max_slices_\<close> empty fragments stand at the
  front of the queue, the completion of a write with 0 bytes leaves them there, because \<open>retrieve (0)\<close>
  pops nothing, and submits a batch of empty slices again; the data behind them is never sent.
\<close>

theorem empty_fragments_block:
  assumes "uring_laws U queued handed n" and "stuck s"
  shows "\<exists>s'. write_on_completion U resume (write_delivered 0 fl s) = Inr s' \<and> stuck s' \<and>
    batch_bytes s' = [] \<and>
    sq_content (wc_buffer (the_write s')) = sq_content (wc_buffer (the_write s))"
proof -
  let ?q = "wc_buffer (the_write s)" and ?m = "unat (wc_max_slices (the_write s))"
  let ?d = "write_delivered 0 fl s" and ?qh = "?q\<lparr>sq_curr := sq_head ?q\<rparr>"
  obtain xs k where rep: "sq_rep ?q xs k" and m: "?m \<le> length xs" "sq_bytes_of ?q (take ?m xs) = []"
    using assms(2) unfolding stuck_def by blast
  have st: "sq_content ?q \<noteq> []" "0 < wc_max_slices (the_write s)" "wc_holder (the_write s)"
    "wc_handle (the_write s) = None" "0 < lp_low_water (cs_loop s)"
    using assms(2) by (auto simp: stuck_def)
  note r0 = sq_retrieve_0 [OF rep]
  have "unat (sq_total_len ?q) \<noteq> 0"
    using rep st(1) sq_content_rep [OF rep] by (simp add: sq_rep_def)
  then have tot: "0 < sq_total_len ?q" by (simp add: word_greater_zero_iff unat_eq_zero)
  have ne: "0 < length xs" using st(1) sq_content_rep [OF rep] by auto
  let ?s = "set_write (\<lambda>w. w\<lparr>wc_buffer := ?qh\<rparr>) ?d"
  obtain s' l vs where fl: "flush U ?s = Inr s'" "concat (map iov_bytes vs) = sq_bytes_of ?qh (take ?m xs)"
    "s' = set_write (\<lambda>w. w\<lparr>wc_buffer := (wc_buffer w)\<lparr>sq_curr := cursor xs (min (0 + unat (wc_max_slices w)) (length xs))\<rparr>,
           wc_temp := vs, wc_sending := True\<rparr>) (?s\<lparr>cs_loop := l, cs_writes := cs_writes ?s + 1\<rparr>)"
    "submitWriteMsg U (wc_fd (the_write ?s)) vs (WriteCtx (tc_number (cs_conn ?s))) (cs_loop ?s) = Inr l"
    using flush_from [OF assms(1), of ?s xs 0] r0(2) st ne by (auto simp: write_delivered_def)
  have low: "0 < lp_low_water l"
  proof -
    have "lp_low_water (cs_loop ?s) = lp_low_water (cs_loop s)" by (simp add: write_delivered_def)
    with submit_write_ok [OF assms(1), of "cs_loop ?s" "wc_fd (the_write ?s)" vs
        "WriteCtx (tc_number (cs_conn ?s))"] fl(4) st(5)
    show ?thesis by auto
  qed
  let ?q1 = "?qh\<lparr>sq_curr := cursor xs (min ?m (length xs))\<rparr>"
  have q1: "sq_rep ?q1 xs (min ?m (length xs))"
    using getBatchFragment_rep(2) [OF r0(2), of "wc_max_slices (the_write s)"] by simp
  have q': "wc_buffer (the_write s') = ?q1" "batch_bytes s' = []" "wc_handle (the_write s') = None"
    using fl(2,3) m(2) st(4) by (simp_all add: write_delivered_def)
  have "sq_content ?q1 = sq_content ?q" using sq_content_rep [OF q1] sq_content_rep [OF rep] by simp
  moreover have "stuck s'"
    unfolding stuck_def using q1 m st q' low fl(3) calculation
    by (auto simp: write_delivered_def intro!: exI [of _ xs] exI [of _ "min ?m (length xs)"])
  moreover have "write_on_completion U resume ?d = Inr s'"
    using st(3) r0(1) tot fl(1) q'(3)
    by (simp add: write_on_completion_def write_delivered_write wake_writer_def)
  ultimately show ?thesis using q' by (intro exI [of _ s']) simp
qed

section \<open>Exhausted buffers\<close>

text \<open>
  Running out of receive buffers does not pause a connection: when a receive ends with \<open>ENOBUFS\<close>
  while it is being read, the receive is submitted again at once, although no buffer has been
  given back; it is paused only when a cancellation was already under way.
\<close>

theorem enobufs_resubmits:
  assumes "uring_laws U queued handed n" and "0 < lp_low_water (cs_loop s)"
    and "rc_holder (the_read s)" and "rc_status (the_read s) = READING"
    and "rc_handle (the_read s) = None" and "rc_res (the_read s) = - ENOBUFS"
    and "\<not> cqe_has_more (rc_flags (the_read s))"
  shows "\<exists>s'. read_on_completion U resume s = Inr s' \<and> rc_status (the_read s') = READING \<and>
    cs_reads s' = cs_reads s + 1 \<and> cs_manager s' = cs_manager s \<and>
    submitReadMultishut U (rc_fd (the_read s)) (ReadCtx (tc_number (cs_conn s))) (cs_loop s) =
      Inr (cs_loop s')"
proof -
  have he: "read_handleError (the_read s) = (False, the_read s)"
    using assms(6) by (simp add: read_handleError_def errno_defs)
  have id: "set_read (\<lambda>_. the_read s) s = s" by (simp add: set_read_def)
  obtain l where "submitReadMultishut U (rc_fd (the_read s)) (ReadCtx (tc_number (cs_conn s))) (cs_loop s) = Inr l"
    using submit_read_ok [OF assms(1,2)] by blast
  with assms he id show ?thesis
    by (simp add: read_on_completion_def submitRead_def wake_reader_def errno_defs)
qed

section \<open>Concrete runs\<close>

lemma demo_started_inv: "conn_inv False False [] demo_started"
  using conn_reachable_inv [OF demo_run] .

lemma demo_started_write:
  "wc_holder (the_write demo_started)" "0 < lp_low_water (cs_loop demo_started)"
  "0 < wc_max_slices (the_write demo_started)" "sq_inv (wc_buffer (the_write demo_started))"
  "sq_content (wc_buffer (the_write demo_started)) = [1, 2]"
  using demo_started_inv demo_started_fields
  by (auto simp: conn_inv_def write_inv_def sq_inv_def)


text \<open>A queue of two fragments, of which the first \<open>n\<close> have been handed to the kernel.\<close>

definition demo_queue :: "byte list \<Rightarrow> byte list \<Rightarrow> size_t \<Rightarrow> send_queue" where
  "demo_queue a b n =
     (case andThen (sq_append a SendQueue) (sq_append b) of
        Inr q \<Rightarrow> (case getBatchFragment [] n q of Inr (_, q') \<Rightarrow> q'))"

lemma demo_queue_rep:
  assumes "length a + length b < 2 ^ 64"
  shows "\<exists>x y. sq_rep (demo_queue a b n) [x, y] (min (unat n) 2) \<and>
    sq_bytes_of (demo_queue a b n) [x] = a \<and> sq_bytes_of (demo_queue a b n) [y] = b"
proof -
  obtain q where q: "sq_append a SendQueue = Inr q" "sq_rep q [sq_unused SendQueue] 0"
    "sq_bytes_of q [sq_unused SendQueue] = a"
    using sq_append_ok [OF sq_rep_new, of a] assms by auto
  obtain r where r: "sq_append b q = Inr r" "sq_rep r [sq_unused SendQueue, sq_unused q] 0"
    "sq_bytes_of r [sq_unused SendQueue, sq_unused q] = a @ b"
    "sq_bytes_of r [sq_unused SendQueue] = a"
    using sq_append_ok [OF q(2), of b] assms q(3) by (auto simp: sq_bytes_of_def)
  then have "sq_bytes_of r [sq_unused q] = b" by (simp add: sq_bytes_of_def)
  with r q(1) getBatchFragment_rep [OF r(2), of n] show ?thesis
    by (intro exI [where x = "sq_unused SendQueue", OF exI [where x = "sq_unused q"]])
      (simp add: demo_queue_def numeral_2_eq_2)
qed

definition demo_writing :: "send_queue \<Rightarrow> int \<Rightarrow> (slots, unit, list_ring_state, nat) conn_sys" where
  "demo_writing q r =
     set_write (\<lambda>w. w\<lparr>wc_buffer := q, wc_res := r, wc_handle := None, wc_max_slices := 1\<rparr>) demo_started"

lemma demo_writing_fields [simp]:
  "wc_buffer (the_write (demo_writing q r)) = q" "wc_res (the_write (demo_writing q r)) = r"
  "wc_handle (the_write (demo_writing q r)) = None" "wc_max_slices (the_write (demo_writing q r)) = 1"
  "wc_holder (the_write (demo_writing q r))" "0 < lp_low_water (cs_loop (demo_writing q r))"
  "cs_writes (demo_writing q r) = 1"
  using demo_started_write demo_started_fields by (simp_all add: demo_writing_def)

text \<open>Of the two bytes 1 and 2 the retry sends only the second; after both it aborts.\<close>

theorem write_retry_loses_place_witness:
  "(\<exists>s'. write_on_completion slot_ring demo_resume (demo_writing (demo_queue [1] [2] 1) (- EAGAIN)) = Inr s' \<and>
      batch_bytes s' = [2]) \<and>
   write_on_completion slot_ring demo_resume (demo_writing (demo_queue [1] [2] 2) (- EAGAIN)) = Inl AssertFailed"
proof -
  obtain x y where q: "sq_rep (demo_queue [1] [2] 1) [x, y] 1" "sq_bytes_of (demo_queue [1] [2] 1) [x] = [1]"
    "sq_bytes_of (demo_queue [1] [2] 1) [y] = [2]"
    using demo_queue_rep [of "[1]" "[2]" 1] by auto
  obtain u v where r: "sq_rep (demo_queue [1] [2] 2) [u, v] 2" "sq_bytes_of (demo_queue [1] [2] 2) [u] = [1]"
    using demo_queue_rep [of "[1]" "[2]" 2] by auto
  have c: "sq_content (demo_queue [1] [2] 1) \<noteq> []" "sq_content (demo_queue [1] [2] 2) \<noteq> []"
    using sq_content_rep [OF q(1)] sq_content_rep [OF r(1)] q(2) r(2) by (auto simp: sq_bytes_of_def)
  show ?thesis
    using write_retry_loses_place [OF slot_ring_laws, of "demo_writing (demo_queue [1] [2] 1) (- EAGAIN)"
        "[x, y]" 1 demo_resume]
      write_retry_loses_place [OF slot_ring_laws, of "demo_writing (demo_queue [1] [2] 2) (- EAGAIN)"
        "[u, v]" 2 demo_resume] q r c
    by simp
qed

definition demo_closed :: "(slots, unit, list_ring_state, nat) conn_sys" where
  "demo_closed =
     set_conn (\<lambda>c. c\<lparr>tc_sock_closed := True\<rparr>)
       (set_write (\<lambda>w. w\<lparr>wc_res := 1, wc_handle := None\<rparr>) demo_started)"

theorem write_after_close_witness:
  "\<exists>s'. write_on_completion slot_ring demo_resume demo_closed = Inr s' \<and> tc_sock_closed (cs_conn s') \<and>
     cs_writes s' = 2"
  using write_after_close [OF slot_ring_laws, of demo_closed demo_resume] demo_started_write
    demo_started_fields(1)
  by (auto simp: demo_closed_def)

theorem receive_after_close_witness:
  "\<exists>s'. run_conn_task slot_ring demo_resume (RecvSuspended 4)
       (set_conn (\<lambda>c. c\<lparr>tc_sock_closed := True\<rparr>) demo_sys) = Inr s' \<and>
     tc_sock_closed (cs_conn s') \<and> cs_reads s' = 1"
proof -
  have "the_read demo_sys = ReadContext 1024 8 5"
    by (simp add: demo_sys_def TcpConnection_def WriteContext_def)
  then show ?thesis
    using receive_after_close [OF slot_ring_laws, of "set_conn (\<lambda>c. c\<lparr>tc_sock_closed := True\<rparr>) demo_sys"
        demo_resume 4]
    by (auto simp: demo_sys_def demo_io_def read_isEmpty_def ReadContext_def InputChainBuffer_def)
qed

theorem send_after_error_unheld_witness:
  "\<exists>s'. write_on_completion slot_ring (\<lambda>_. sendInLoop slot_ring [9])
       (write_delivered (- EPIPE) 0 (set_write (\<lambda>w. w\<lparr>wc_handle := Some 0\<rparr>) demo_started)) = Inr s' \<and>
     cs_writes s' = 1 \<and> \<not> wc_holder (the_write s')"
proof -
  let ?s = "set_write (\<lambda>w. w\<lparr>wc_handle := Some 0\<rparr>) demo_started"
  have "conn_inv False False [] ?s"
    using demo_started_inv demo_started_fields(4) by (auto simp: conn_inv_def handle_inv_def)
  then show ?thesis
    using send_after_error_unheld [OF slot_ring_laws, of "[]" ?s 0 "[9]" "\<lambda>_. sendInLoop slot_ring [9]" 0]
      demo_started_fields(1) demo_started_write(5) by (auto simp: sq_admits_def)
qed

theorem empty_fragments_block_witness:
  "\<exists>s'. write_on_completion slot_ring demo_resume
       (write_delivered 0 0 (demo_writing (demo_queue [] [7] 1) 0)) = Inr s' \<and>
     stuck s' \<and> batch_bytes s' = [] \<and> sq_content (wc_buffer (the_write s')) = [7]"
proof -
  let ?q = "demo_queue [] [7] 1"
  obtain x y where q: "sq_rep ?q [x, y] 1" "sq_bytes_of ?q [x] = []" "sq_bytes_of ?q [y] = [7]"
    using demo_queue_rep [of "[]" "[7]" 1] by auto
  then have c: "sq_content ?q = [7]" using sq_content_rep [OF q(1)] by (simp add: sq_bytes_of_def)
  then have "stuck (demo_writing ?q 0)"
    unfolding stuck_def using q by (intro conjI exI [of _ "[x, y]"] exI [of _ 1]) auto
  from empty_fragments_block [OF slot_ring_laws this, of demo_resume 0] show ?thesis using c by simp
qed

theorem enobufs_resubmits_witness:
  "\<exists>s'. read_on_completion slot_ring demo_resume
       (set_read (\<lambda>r. r\<lparr>rc_status := READING, rc_handle := None, rc_res := - ENOBUFS, rc_flags := 0\<rparr>)
          demo_started) = Inr s' \<and>
     rc_status (the_read s') = READING \<and> cs_reads s' = 2"
proof -
  let ?s = "set_read (\<lambda>r. r\<lparr>rc_status := READING, rc_handle := None, rc_res := - ENOBUFS, rc_flags := 0\<rparr>)
    demo_started"
  have "read_inv False demo_started" using demo_started_inv by (simp only: conn_inv_def)
  then have "rc_holder (the_read demo_started)"
    using demo_started_fields(2)
    by (cases "rc_status (the_read demo_started) = STOPED") (simp_all add: read_inv_def)
  then have "rc_holder (the_read ?s)" "0 < lp_low_water (cs_loop ?s)" "rc_status (the_read ?s) = READING"
    "rc_handle (the_read ?s) = None" "rc_res (the_read ?s) = - ENOBUFS"
    "\<not> cqe_has_more (rc_flags (the_read ?s))"
    using demo_started_write(2) by (simp_all add: cqe_has_more_def)
  from enobufs_resubmits [OF slot_ring_laws this(2,1,3-6), of demo_resume]
  obtain s' where "read_on_completion slot_ring demo_resume ?s = Inr s'"
    "rc_status (the_read s') = READING" "cs_reads s' = cs_reads ?s + 1" by blast
  then show ?thesis using demo_started_fields(2) by simp
qed

end
