(* ===== verification/Connection_Relation.thy ===== *)
theory Connection_Relation
  imports Connection_Runs
begin

text \<open>
  What the handlers of a connection, with everything a resumed coroutine does, do to the rest of the
  program: a relation between the states before and after that every elementary operation keeps is
  kept by the handlers. The sending side (Connection_Stream) and the event loop that hosts many
  connections (Loop_System) use it with different relations.
\<close>

section \<open>The part of the receive handler behind the result\<close>

definition read_tail ::
    "'r uring_api \<Rightarrow> ('k \<Rightarrow> ('r, 'cb, 'b, 'k) conn_sys \<Rightarrow> ('r, 'cb, 'b, 'k) conn_sys outcome) \<Rightarrow> bool \<Rightarrow>
     ('r, 'cb, 'b, 'k) conn_sys \<Rightarrow> ('r, 'cb, 'b, 'k) conn_sys outcome" where
  "read_tail U resume close s1 =
     (if \<not> cqe_has_more (rc_flags (the_read s1)) then
         (if rc_status (the_read s1) = CANCELING \<and> \<not> close
          then wake_reader resume (set_read (\<lambda>r. r\<lparr>rc_status := STOPED, rc_holder := False\<rparr>) s1)
          else if rc_status (the_read s1) = READING \<and> \<not> close
          then andThen (submitRead U s1) (wake_reader resume)
          else andThen (case rc_handle (the_read s1) of
                          None \<Rightarrow> Inr s1 | Some h \<Rightarrow> co_resume resume h s1) (\<lambda>s2.
                 Inr (set_read (\<lambda>r. r\<lparr>rc_holder := False, rc_status := STOPED\<rparr>) (handleClose s2))))
       else wake_reader resume s1)"

text \<open>The state the rest of the handler starts from.\<close>

definition read_arrived ::
    "'r uring_api \<Rightarrow> ('r, 'cb, 'b, 'k) conn_sys \<Rightarrow> ('r, 'cb, 'b, 'k) conn_sys \<Rightarrow> bool" where
  "read_arrived U s s1 \<longleftrightarrow>
     (if rc_res (the_read s) \<le> 0 then s1 = set_read (\<lambda>_. snd (read_handleError (the_read s))) s
      else read_data U s = Inr s1)"

lemma read_on_completion_tail:
  assumes "read_on_completion U resume s = Inr s'"
  shows "\<exists>close s1. read_arrived U s s1 \<and> read_tail U resume close s1 = Inr s'"
proof (cases "rc_res (the_read s) \<le> 0")
  case True
  obtain close r where r: "read_handleError (the_read s) = (close, r)" by fastforce
  have "read_tail U resume close (set_read (\<lambda>_. r) s) = Inr s'"
    using assms True r unfolding read_on_completion_def read_tail_def by (simp add: outcome_iff)
  then show ?thesis using True r by (intro exI [of _ close] exI) (auto simp: read_arrived_def)
next
  case False
  then obtain s1 where s1: "read_data U s = Inr s1" using assms by (auto simp: read_on_completion_def outcome_iff)
  have "read_tail U resume False s1 = Inr s'"
    using assms False s1 unfolding read_on_completion_def read_tail_def by (simp add: outcome_iff)
  then show ?thesis using False s1 by (intro exI [of _ False] exI [of _ s1]) (simp add: read_arrived_def)
qed

lemma read_handleError_buffer [simp]: "rc_buffer (snd (read_handleError r)) = rc_buffer r"
  by (simp add: read_handleError_def Let_def)

section \<open>Relations kept by the elementary operations\<close>

text \<open>
  \<open>R\<close> may look at the loop, the chunk pool, the input buffer, the bytes sent and the number of requests;
  everything else a handler may change freely.
\<close>

locale conn_relation =
  fixes R :: "('r, 'cb, 'b, 'k) conn_sys \<Rightarrow> ('r, 'cb, 'b, 'k) conn_sys \<Rightarrow> bool"
    and U :: "'r uring_api" and B :: "'b buf_ring_api"
  assumes R_trans: "R s t \<Longrightarrow> R t u \<Longrightarrow> R s u"
    and R_quiet: "cs_loop s' = cs_loop s \<Longrightarrow> cs_manager s' = cs_manager s \<Longrightarrow>
      rc_buffer (the_read s') = rc_buffer (the_read s) \<Longrightarrow> cs_accepted s' = cs_accepted s \<Longrightarrow>
      cs_reads s' = cs_reads s \<Longrightarrow> cs_writes s' = cs_writes s \<Longrightarrow>
      tc_number (cs_conn s') = tc_number (cs_conn s) \<Longrightarrow> R s s'"
    and R_accept: "R s (s\<lparr>cs_accepted := cs_accepted s @ d\<rparr>)"
    and R_queue: "R s (queue_task in_loop task s)"
    and R_submitWrite: "submitWrite U s = Inr s' \<Longrightarrow> R s s'"
    and R_submitRead: "submitRead U s = Inr s' \<Longrightarrow> R s s'"
    and R_retrieve: "conn_retrieve B n s = Inr s' \<Longrightarrow> R s s'"
    and R_read: "conn_read mem B n s = Inr (str, s') \<Longrightarrow> R s s'"
begin

lemma R_refl: "R s s"
  by (rule R_quiet) simp_all

lemma R_set_write: "R s (set_write f s)"
  by (rule R_quiet) simp_all

lemma R_set_conn: "R s (set_conn (\<lambda>c. c\<lparr>tc_done := b\<rparr>) s)"
  by (rule R_quiet) simp_all

lemma R_set_read: "rc_buffer (f (the_read s)) = rc_buffer (the_read s) \<Longrightarrow> R s (set_read f s)"
  by (rule R_quiet) simp_all

lemma R_close: "R s (handleClose s)"
  by (rule R_quiet) (simp_all add: handleClose_def Let_def)

lemma R_flush:
  assumes "flush U s = Inr s'"
  shows "R s s'"
proof -
  obtain s1 s2 where "R s s1" "submitWrite U s1 = Inr s2" "s' = set_write (\<lambda>w. w\<lparr>wc_sending := True\<rparr>) s2"
    using assms R_set_write by (auto simp: flush_def outcome_iff Let_def)
  then show ?thesis using R_trans [OF R_trans [OF _ R_submitWrite] R_set_write] by blast
qed

lemma R_send:
  assumes "sendInLoop U data s = Inr s'"
  shows "R s s'"
proof -
  obtain q where q: "sq_append data (wc_buffer (the_write s)) = Inr q"
    using assms by (auto simp: sendInLoop_def outcome_iff)
  let ?s0 = "set_write (\<lambda>w. w\<lparr>wc_buffer := q\<rparr>) s"
  let ?s1 = "?s0\<lparr>cs_accepted := cs_accepted ?s0 @ data\<rparr>"
  have s1: "R s ?s1" by (rule R_trans [OF R_set_write R_accept])
  show ?thesis
  proof (cases "wc_sending (the_write s)")
    case True
    then show ?thesis using assms q s1 by (auto simp: sendInLoop_def Let_def)
  next
    case False
    then obtain s2 where "flush U (set_write (\<lambda>w. w\<lparr>wc_holder := True\<rparr>) ?s1) = Inr s2"
      "s' = set_write (\<lambda>w. w\<lparr>wc_sending := True\<rparr>) s2"
      using assms q by (auto simp: sendInLoop_def Let_def outcome_iff)
    then show ?thesis using R_trans [OF R_trans [OF R_trans [OF s1 R_set_write] R_flush] R_set_write] by blast
  qed
qed

lemma R_recv_suspend:
  assumes "recv_await_suspend U True h s = Inr s'"
  shows "R s s'"
proof -
  let ?s1 = "set_read (\<lambda>r. r\<lparr>rc_handle := Some h\<rparr>) s"
  have "R s ?s1" by (rule R_set_read) simp
  moreover have "R ?s1 s'"
    using assms R_submitRead R_refl by (auto simp: recv_await_suspend_def Let_def split: if_splits)
  ultimately show ?thesis by (rule R_trans)
qed

lemma R_user_step: "user_step U B s s' \<Longrightarrow> R s s'"
proof (induction rule: user_step.induct)
  case (user_send s data ready s')
  then show ?case by (auto simp: send_await_ready_def outcome_iff R_refl dest: R_send split: if_splits)
next
  case (user_send_suspend s data h)
  show ?case by (simp add: send_await_suspend_def R_set_write)
qed (auto simp: R_retrieve R_read R_recv_suspend R_set_conn R_refl R_queue send_await_resume_def recv_await_resume_def)

lemma R_user_steps: "(user_step U B)\<^sup>*\<^sup>* s s' \<Longrightarrow> R s s'"
  by (induction rule: rtranclp_induct) (auto intro: R_trans R_user_step R_refl)

lemma R_resume:
  assumes "resume_ok U B resume" and "co_resume resume h s = Inr s'"
  shows "R s s'"
proof -
  obtain s1 where "resume h s = Inr s1" "(user_step U B)\<^sup>*\<^sup>* s s1" using assms(1) unfolding resume_ok_def by blast
  then show ?thesis using assms(2) by (auto simp: co_resume_def outcome_iff R_user_steps)
qed

lemma R_resume_opt:
  assumes "resume_ok U B resume"
    and "(case h of None \<Rightarrow> Inr s | Some k \<Rightarrow> co_resume resume k s) = Inr s'"
  shows "R s s'"
  using assms(2) R_refl R_resume [OF assms(1)] by (auto split: option.splits)

lemma R_wakes:
  assumes "resume_ok U B resume"
  shows R_wake_writer: "wake_writer resume s = Inr s' \<Longrightarrow> R s s'"
    and R_wake_reader: "wake_reader resume s = Inr s' \<Longrightarrow> R s s'"
proof -
  have w: "R s s'" if "co_resume resume h (set_write (\<lambda>w. w\<lparr>wc_handle := None\<rparr>) s) = Inr s'" for h
    using R_trans [OF R_set_write R_resume [OF assms that]] .
  have r: "R s s'" if "co_resume resume h (set_read (\<lambda>r. r\<lparr>rc_handle := None\<rparr>) s) = Inr s'" for h
    using R_trans [OF R_set_read R_resume [OF assms that]] by simp
  show "wake_writer resume s = Inr s' \<Longrightarrow> R s s'"
    using w R_refl by (auto simp: wake_writer_def outcome_iff split: option.splits if_splits)
  show "wake_reader resume s = Inr s' \<Longrightarrow> R s s'"
    using r R_refl by (auto simp: wake_reader_def outcome_iff split: option.splits)
qed

lemma R_write_next:
  assumes "resume_ok U B resume"
    and "andThen (if 0 < sq_total_len (wc_buffer (the_write s)) then flush U s
      else Inr (set_write (\<lambda>w. w\<lparr>wc_sending := False, wc_holder := False\<rparr>) s)) (wake_writer resume) = Inr s'"
  shows "R s s'"
proof -
  obtain s1 where s1: "(if 0 < sq_total_len (wc_buffer (the_write s)) then flush U s
      else Inr (set_write (\<lambda>w. w\<lparr>wc_sending := False, wc_holder := False\<rparr>) s)) = Inr s1"
    "wake_writer resume s1 = Inr s'"
    using assms(2) by (auto simp: outcome_iff)
  have "R s s1" using s1(1) R_flush R_set_write by (auto split: if_splits)
  then show ?thesis using R_wake_writer [OF assms(1) s1(2)] R_trans by blast
qed

lemma R_write_completion:
  assumes co: "resume_ok U B resume" and "write_on_completion U resume s = Inr s'"
  shows "R s s'"
proof (cases "wc_res (the_write s) < 0 \<and> fst (write_handleError (the_write s))")
  case True
  obtain w where w: "write_handleError (the_write s) = (True, w)" using True by (metis prod.collapse)
  let ?s1 = "set_write (\<lambda>_. w\<lparr>wc_sending := False\<rparr>) s"
  obtain s2 where s2: "(case wc_handle (the_write ?s1) of None \<Rightarrow> Inr ?s1 | Some h \<Rightarrow> co_resume resume h ?s1) = Inr s2"
    "s' = set_write (\<lambda>w. w\<lparr>wc_holder := False, wc_sending := False\<rparr>) (handleClose s2)"
    using assms(2) True w by (auto simp: write_on_completion_def outcome_iff)
  show ?thesis
    unfolding s2(2)
    by (rule R_trans [OF R_trans [OF R_trans [OF R_set_write R_resume_opt [OF co s2(1)]] R_close] R_set_write])
next
  case False
  show ?thesis
  proof (cases "wc_res (the_write s) < 0")
    case neg: True
    obtain w where "write_handleError (the_write s) = (False, w)" using False neg by (metis prod.collapse)
    then have "R (set_write (\<lambda>_. w\<lparr>wc_sending := False\<rparr>) s) s'"
      using assms(2) neg by (intro R_write_next [OF co]) (auto simp: write_on_completion_def outcome_iff)
    then show ?thesis using R_set_write R_trans by blast
  next
    case pos: False
    then obtain q where "finished (sq_retrieve (of_int (wc_res (the_write s))) (wc_buffer (the_write s))) = Inr q"
      using assms(2) by (auto simp: write_on_completion_def outcome_iff)
    then have "R (set_write (\<lambda>w. w\<lparr>wc_buffer := q\<rparr>) s) s'"
      using assms(2) pos
      by (intro R_write_next [OF co]) (auto simp: write_on_completion_def check_def split: if_splits)
    then show ?thesis using R_set_write R_trans by blast
  qed
qed

lemma R_read_tail:
  assumes co: "resume_ok U B resume" and "read_tail U resume close s = Inr s'"
  shows "R s s'"
proof -
  have wake: "R s s'" if "wake_reader resume s = Inr s'" for s using R_wake_reader [OF co that] .
  have stop: "R s s'" if "wake_reader resume (set_read (\<lambda>r. r\<lparr>rc_status := STOPED, rc_holder := False\<rparr>) s) = Inr s'"
    using R_trans [OF R_set_read wake [OF that]] by simp
  have again: "R s s'" if "andThen (submitRead U s) (wake_reader resume) = Inr s'"
    using that wake R_submitRead R_trans by (auto simp: outcome_iff) blast
  have close: "R s s'"
    if e: "andThen (case rc_handle (the_read s) of None \<Rightarrow> Inr s | Some h \<Rightarrow> co_resume resume h s) (\<lambda>s2.
        Inr (set_read (\<lambda>r. r\<lparr>rc_holder := False, rc_status := STOPED\<rparr>) (handleClose s2))) = Inr s'"
  proof -
    obtain s2 where s2: "(case rc_handle (the_read s) of None \<Rightarrow> Inr s | Some h \<Rightarrow> co_resume resume h s) = Inr s2"
      "s' = set_read (\<lambda>r. r\<lparr>rc_holder := False, rc_status := STOPED\<rparr>) (handleClose s2)"
      using e by (auto simp: outcome_iff)
    have "R (handleClose s2) s'" unfolding s2(2) by (rule R_set_read) simp
    then show ?thesis using R_resume_opt [OF co s2(1)] R_close R_trans by blast
  qed
  show ?thesis
    using assms(2) wake stop again close unfolding read_tail_def by (auto simp only: split: if_splits)
qed

text \<open>A functor of the connection.\<close>

lemma R_conn_task:
  assumes co: "resume_ok U B resume" and "run_conn_task U resume t s = Inr s'"
  shows "R s s'"
proof (cases t)
  case (RecvSuspended h)
  then have "co_resume resume h s = Inr s' \<or> recv_await_suspend U True h s = Inr s'"
    using assms(2) by (auto simp: recv_await_suspend_def Let_def split: if_splits)
  then show ?thesis using R_resume [OF co] R_recv_suspend by blast
next
  case (SendSuspended data h)
  then obtain s1 where s1: "sendInLoop U data s = Inr s1"
    "(if \<not> write_overLoad (the_write s1) then co_resume resume h s1
      else Inr (set_write (\<lambda>w. w\<lparr>wc_handle := Some h\<rparr>) s1)) = Inr s'"
    using assms(2) by (auto simp: outcome_iff)
  have "R s1 s'" using s1(2) R_resume [OF co] R_set_write by (auto split: if_splits)
  then show ?thesis using R_send [OF s1(1)] R_trans by blast
qed (use assms(2) R_close in auto)

end

end
