(* ===== verification/Connection_Stream.thy ===== *)
theory Connection_Stream
  imports Connection_Relation
begin

text \<open>
  The contract of the sending side of a connection as an abstract machine, a stream with the bytes
  that have left and the bytes that are still to leave, and the proof that a connection refines it;
  and that a connection whose writes make progress sends everything it was given.
\<close>

section \<open>The abstract stream\<close>

type_synonym stream = "byte list \<times> byte list"

inductive stream_step :: "stream \<Rightarrow> stream \<Rightarrow> bool" where
  accept_data: "stream_step (wire, queue) (wire, queue @ data)"
| transmit: "stream_step (wire, data @ queue) (wire @ data, queue)"

definition stream_of :: "byte list \<Rightarrow> ('r, 'cb, 'b, 'k) conn_sys \<Rightarrow> stream" where
  "stream_of wire s = (wire, sq_content (wc_buffer (the_write s)))"

lemma stream_move:
  assumes "wire' = wire @ a" and "content = a @ rest" and "content' = rest @ d"
  shows "stream_step\<^sup>*\<^sup>* (wire, content) (wire', content')"
proof -
  have "stream_step (wire, a @ rest) (wire @ a, rest)" by (rule transmit)
  moreover have "stream_step (wire @ a, rest) (wire @ a, rest @ d)" by (rule accept_data)
  ultimately show ?thesis using assms by (simp add: converse_rtranclp_into_rtranclp r_into_rtranclp)
qed

section \<open>Nothing takes back what was sent\<close>

text \<open>\<open>grows s s'\<close>: between the states, only more bytes were given to \<open>sendInLoop\<close>.\<close>

definition grows :: "('r, 'cb, 'b, 'k) conn_sys \<Rightarrow> ('r, 'cb, 'b, 'k) conn_sys \<Rightarrow> bool" where
  "grows s s' \<longleftrightarrow> (\<exists>d. cs_accepted s' = cs_accepted s @ d)"

lemma submits_accepted:
  "submitWrite U s = Inr s' \<Longrightarrow> cs_accepted s' = cs_accepted s"
  "submitRead U s = Inr s' \<Longrightarrow> cs_accepted s' = cs_accepted s"
  "conn_submitCancel U s = Inr s' \<Longrightarrow> cs_accepted s' = cs_accepted s"
  by (auto simp: submitWrite_def submitRead_def conn_submitCancel_def outcome_iff Let_def)

lemma flush_accepted: "flush U s = Inr s' \<Longrightarrow> cs_accepted s' = cs_accepted s"
  by (auto simp: flush_def outcome_iff Let_def dest!: submits_accepted(1))

interpretation sending: conn_relation grows U B for U B
  by unfold_locales
    (auto simp: grows_def queue_task_def conn_retrieve_def conn_read_def outcome_iff dest!: submits_accepted(1,2))

lemma read_data_accepted: "read_data U s = Inr s' \<Longrightarrow> cs_accepted s' = cs_accepted s"
  by (auto simp: read_data_def outcome_iff Let_def split: if_splits dest!: submits_accepted(3))

lemma read_on_completion_grows:
  assumes "resume_ok U B resume" and "read_on_completion U resume s = Inr s'"
  shows "grows s s'"
proof -
  obtain close s1 where s1: "read_arrived U s s1" "read_tail U resume close s1 = Inr s'"
    using read_on_completion_tail [OF assms(2)] by blast
  have "cs_accepted s1 = cs_accepted s"
    using s1(1) read_data_accepted by (auto simp: read_arrived_def split: if_splits)
  with sending.R_read_tail [OF assms(1) s1(2)] show ?thesis by (simp add: grows_def)
qed

section \<open>Refinement\<close>

text \<open>One step of a connection, with what the kernel has taken so far.\<close>

inductive conn_step ::
    "'r uring_api \<Rightarrow> 'b buf_ring_api \<Rightarrow>
     ('k \<Rightarrow> ('r, 'cb, 'b, 'k) conn_sys \<Rightarrow> ('r, 'cb, 'b, 'k) conn_sys outcome) \<Rightarrow>
     byte list \<times> ('r, 'cb, 'b, 'k) conn_sys \<Rightarrow> byte list \<times> ('r, 'cb, 'b, 'k) conn_sys \<Rightarrow> bool"
  for U B resume where
  step_write: "0 < cs_writes s \<Longrightarrow> write_legal res s \<Longrightarrow>
    write_on_completion U resume (write_delivered res fl s) = Inr s' \<Longrightarrow>
    conn_step U B resume (wire, s) (wire @ take (nat res) (batch_bytes s), s')"
| step_read: "0 < cs_reads s \<Longrightarrow> receive_legal res fl s \<Longrightarrow>
    read_on_completion U resume (read_delivered res fl s) = Inr s' \<Longrightarrow>
    conn_step U B resume (wire, s) (wire, s')"
| step_destroy: "lp_pending (cs_loop s) = DestroyConnection # ts \<Longrightarrow>
    run_conn_task U resume DestroyConnection (task_taken ts s) = Inr s' \<Longrightarrow>
    conn_step U B resume (wire, s) (wire, s')"
| step_recv_functor: "co_elsewhere s \<Longrightarrow> lp_pending (cs_loop s) = RecvSuspended h # ts \<Longrightarrow>
    run_conn_task U resume (RecvSuspended h) (task_taken ts s) = Inr s' \<Longrightarrow>
    conn_step U B resume (wire, s) (wire, s')"
| step_send_functor: "co_elsewhere s \<Longrightarrow> lp_pending (cs_loop s) = SendSuspended data h # ts \<Longrightarrow>
    sq_admits data (wc_buffer (the_write s)) \<Longrightarrow>
    run_conn_task U resume (SendSuspended data h) (task_taken ts s) = Inr s' \<Longrightarrow>
    conn_step U B resume (wire, s) (wire, s')"
| step_loop: "lp_low_water l = lp_low_water (cs_loop s) \<Longrightarrow>
    conn_step U B resume (wire, s) (wire, s\<lparr>cs_loop := l\<rparr>)"
| step_pool: "(\<And>xs. icb_rep (cs_manager s) (rc_buffer (the_read s)) xs \<Longrightarrow> icb_rep m (rc_buffer (the_read s)) xs) \<Longrightarrow>
    conn_step U B resume (wire, s) (wire, s\<lparr>cs_manager := m\<rparr>)"

lemma conn_step_reachable:
  assumes "conn_step U B resume (wire, s) (wire', s')" and "conn_reachable U B resume wire s"
  shows "conn_reachable U B resume wire' s'"
  using assms by (cases rule: conn_step.cases) (auto intro: conn_reachable.intros)

text \<open>A step appends what the kernel took, a prefix of the queue, and only adds to what was sent.\<close>

lemma conn_step_grows:
  assumes "resume_ok U B resume" and "conn_step U B resume (wire, s) (wire', s')"
  shows "grows s s'" and "\<exists>k. wire' = wire @ take k (batch_bytes s) \<and> (0 < k \<longrightarrow> 0 < cs_writes s)"
proof -
  have task: "grows s s'" if "run_conn_task U resume t (task_taken ts s) = Inr s'" for t ts
    using sending.R_conn_task [OF assms(1) that] by (simp add: grows_def)
  show "grows s s'"
    using assms(2)
  proof (cases rule: conn_step.cases)
    case (step_write res fl)
    then show ?thesis
      using sending.R_write_completion [OF assms(1)] by (fastforce simp: grows_def write_delivered_def)
  next
    case (step_read res fl)
    then show ?thesis
      using read_on_completion_grows [OF assms(1)] by (fastforce simp: grows_def read_delivered_def)
  qed (blast intro: task | simp add: grows_def)+
  show "\<exists>k. wire' = wire @ take k (batch_bytes s) \<and> (0 < k \<longrightarrow> 0 < cs_writes s)"
    using assms(2)
  proof (cases rule: conn_step.cases)
    case (step_write res fl)
    then show ?thesis by blast
  qed (intro exI [of _ 0], simp)+
qed

text \<open>The invariant of the previous theories, as an equation between the stream and what was sent.\<close>

lemma stream_equation:
  assumes "uring_laws U queued handed n" and "0 < n" and "resume_ok U B resume"
    and "conn_reachable U B resume wire s"
  shows "cs_accepted s = wire @ sq_content (wc_buffer (the_write s))"
    and "0 < cs_writes s \<Longrightarrow> \<exists>rest. sq_content (wc_buffer (the_write s)) = batch_bytes s @ rest"
proof -
  have inv: "write_inv False wire s" using conn_reachable_inv [OF assms] by (simp add: conn_inv_def)
  then show "cs_accepted s = wire @ sq_content (wc_buffer (the_write s))" by (simp add: write_inv_def)
  show "\<exists>rest. sq_content (wc_buffer (the_write s)) = batch_bytes s @ rest" if "0 < cs_writes s"
    by (rule write_inv_batch [OF inv that])
qed

text \<open>
  C5 The sending side of a connection refines the abstract stream: every step of a reachable connection,
  be it a completion of a write or a receive, or a functor of a coroutine on another thread, with
  everything the resumed coroutine does, is a
  sequence of steps of the stream, in which bytes join at the end and leave in order from the front.
\<close>

theorem connection_refines_stream:
  assumes "uring_laws U queued handed n" and "0 < n" and "resume_ok U B resume"
    and "conn_reachable U B resume wire s" and "conn_step U B resume (wire, s) (wire', s')"
  shows "stream_step\<^sup>*\<^sup>* (stream_of wire s) (stream_of wire' s')"
proof -
  let ?c = "\<lambda>s. sq_content (wc_buffer (the_write s))"
  obtain k where k: "wire' = wire @ take k (batch_bytes s)" "0 < k \<Longrightarrow> 0 < cs_writes s"
    using conn_step_grows(2) [OF assms(3,5)] by blast
  obtain d where d: "cs_accepted s' = cs_accepted s @ d" using conn_step_grows(1) [OF assms(3,5)] by (auto simp: grows_def)
  obtain rest where rest: "?c s = take k (batch_bytes s) @ rest"
  proof (cases "k = 0")
    case False
    then obtain r where "?c s = batch_bytes s @ r" using stream_equation(2) [OF assms(1-4)] k(2) by auto
    then have "?c s = take k (batch_bytes s) @ (drop k (batch_bytes s) @ r)" by simp
    then show ?thesis using that by blast
  qed (use that in simp)
  have "cs_accepted s = wire @ ?c s" "cs_accepted s' = wire' @ ?c s'"
    using stream_equation(1) [OF assms(1-4)]
      stream_equation(1) [OF assms(1-3) conn_step_reachable [OF assms(5,4)]] by simp_all
  then have "?c s' = rest @ d" using d k(1) rest by simp
  then show ?thesis unfolding stream_of_def by (rule stream_move [OF k(1) rest])
qed


section \<open>Everything is sent\<close>

text \<open>
  The kernel completes up to \<open>n\<close> writes, each time with \<open>took batch\<close> bytes of the batch; the run stops
  when no write is outstanding, or when a batch has no bytes.
\<close>

fun drain ::
    "'r uring_api \<Rightarrow> ('k \<Rightarrow> ('r, 'cb, 'b, 'k) conn_sys \<Rightarrow> ('r, 'cb, 'b, 'k) conn_sys outcome) \<Rightarrow>
     (byte list \<Rightarrow> nat) \<Rightarrow> nat \<Rightarrow> ('r, 'cb, 'b, 'k) conn_sys \<Rightarrow> ('r, 'cb, 'b, 'k) conn_sys outcome" where
  "drain U resume took 0 s = Inr s"
| "drain U resume took (Suc n) s =
     (if cs_writes s = 0 \<or> batch_bytes s = [] then Inr s
      else andThen (write_on_completion U resume (write_delivered (int (took (batch_bytes s))) 0 s))
             (drain U resume took n))"

text \<open>A successful write of a connection nobody waits on.\<close>

lemma quiet_completion:
  assumes "0 \<le> res" and "wc_handle (the_write s) = None"
    and "write_on_completion U resume (write_delivered res fl s) = Inr s'"
  shows "wc_handle (the_write s') = None" and "cs_accepted s' = cs_accepted s"
    and "wc_sending (the_write s') \<or> sq_total_len (wc_buffer (the_write s')) = 0"
proof -
  let ?d = "write_delivered res fl s"
  have d: "wc_handle (the_write ?d) = None" "cs_accepted ?d = cs_accepted s" "\<not> wc_res (the_write ?d) < 0"
    using assms(1,2) by (simp_all add: write_delivered_def)
  obtain q where q: "finished (sq_retrieve (of_int (wc_res (the_write ?d))) (wc_buffer (the_write ?d))) = Inr q"
    using assms(3) d(3) by (auto simp: write_on_completion_def outcome_iff)
  let ?s2 = "set_write (\<lambda>w. w\<lparr>wc_buffer := q\<rparr>) ?d"
  have eq: "andThen (if 0 < sq_total_len q then flush U ?s2
      else Inr (set_write (\<lambda>w. w\<lparr>wc_sending := False, wc_holder := False\<rparr>) ?s2)) (wake_writer resume) = Inr s'"
    using assms(3) d(3) q by (auto simp: write_on_completion_def check_def split: if_splits)
  have "wc_handle (the_write s') = None \<and> cs_accepted s' = cs_accepted s \<and>
      (wc_sending (the_write s') \<or> sq_total_len (wc_buffer (the_write s')) = 0)"
  proof (cases "0 < sq_total_len q")
    case True
    then obtain s3 where s3: "flush U ?s2 = Inr s3" "wake_writer resume s3 = Inr s'" using eq by (auto simp: outcome_iff)
    have "wc_handle (the_write s3) = None" "wc_sending (the_write s3)" using flush_fields [OF s3(1)] d(1) by simp_all
    then show ?thesis using s3(2) flush_accepted [OF s3(1)] d(2) by (auto simp: wake_writer_def)
  next
    case False
    then show ?thesis using eq d(1,2) by (auto simp: wake_writer_def word_neq_0_conv)
  qed
  then show "wc_handle (the_write s') = None" "cs_accepted s' = cs_accepted s"
    "wc_sending (the_write s') \<or> sq_total_len (wc_buffer (the_write s')) = 0" by simp_all
qed

lemma idle_no_holder: "conn_inv False False wire s \<Longrightarrow> cs_writes s = 0 \<Longrightarrow> \<not> wc_holder (the_write s)"
  by (auto simp: conn_inv_def write_inv_def split: if_splits)

lemma drain_step:
  assumes "uring_laws U queued handed n" and "0 < n" and "resume_ok U B resume"
    and "conn_reachable U B resume wire s" and "wc_handle (the_write s) = None" and "0 < cs_writes s"
    and "0 < k" and "k \<le> length (batch_bytes s)"
  shows "\<exists>s'. write_on_completion U resume (write_delivered (int k) 0 s) = Inr s' \<and>
    conn_reachable U B resume (wire @ take k (batch_bytes s)) s' \<and> wc_handle (the_write s') = None \<and>
    length (sq_content (wc_buffer (the_write s'))) < length (sq_content (wc_buffer (the_write s))) \<and>
    (cs_writes s' = 0 \<longrightarrow> sq_content (wc_buffer (the_write s')) = [])"
proof -
  have inv: "conn_inv False False wire s" by (rule conn_reachable_inv [OF assms(1-4)])
  obtain s' where s': "write_on_completion U resume (write_delivered (int k) 0 s) = Inr s'"
    using write_success_ok [OF assms(1,3) inv assms(6), of "int k" 0] assms(8) by auto
  have leg: "write_legal (int k) s" using assms(8) by (simp add: write_legal_def)
  have r': "conn_reachable U B resume (wire @ take k (batch_bytes s)) s'"
    using conn_reachable.write_done [OF assms(4,6) leg s'] by simp
  note q = quiet_completion [OF of_nat_0_le_iff assms(5) s']
  note e = stream_equation(1) [OF assms(1-4)] stream_equation(1) [OF assms(1-3) r']
  have "length (sq_content (wc_buffer (the_write s'))) + k = length (sq_content (wc_buffer (the_write s)))"
    using arg_cong [OF e(1), of length] arg_cong [OF e(2), of length] q(2) assms(8) by simp
  moreover have "sq_content (wc_buffer (the_write s')) = []" if "cs_writes s' = 0"
  proof -
    have w: "write_inv False (wire @ take k (batch_bytes s)) s'"
      using conn_reachable_inv [OF assms(1-3) r'] by (simp add: conn_inv_def)
    then have "\<not> wc_sending (the_write s')" using that by (auto simp: write_inv_def)
    then have t: "sq_total_len (wc_buffer (the_write s')) = 0" using q(3) by simp
    obtain xs j where "sq_rep (wc_buffer (the_write s')) xs j" using w by (auto simp: write_inv_def)
    then show ?thesis using t sq_content_rep by (fastforce simp: sq_rep_def)
  qed
  ultimately show ?thesis using s' r' q(1) assms(7) by (intro exI [of _ s']) auto
qed



section \<open>Witnesses\<close>

theorem connection_refines_stream_witness:
  "\<exists>s'. conn_step slot_ring list_ring demo_resume ([], demo_started) (take 1 (batch_bytes demo_started), s') \<and>
     stream_step\<^sup>*\<^sup>* ([], [1, 2]) (stream_of (take 1 (batch_bytes demo_started)) s')"
proof -
  have inv: "conn_inv False False [] demo_started" using conn_reachable_inv [OF demo_run] .
  have c: "sq_content (wc_buffer (the_write demo_started)) = [1, 2]"
    using stream_equation(1) [OF demo_run] demo_started_fields(3) by simp
  show ?thesis
  proof (cases "batch_bytes demo_started = []")
    case True
    have "conn_step slot_ring list_ring demo_resume ([], demo_started) ([], demo_started\<lparr>cs_loop := cs_loop demo_started\<rparr>)"
      by (rule step_loop) simp
    moreover have "take 1 (batch_bytes demo_started) = []" unfolding True by simp
    ultimately show ?thesis unfolding \<open>take 1 (batch_bytes demo_started) = []\<close>
      using c connection_refines_stream [OF demo_run, of "[]" demo_started]
      by (intro exI [of _ demo_started]) (simp add: stream_of_def)
  next
    case False
    then have l: "write_legal 1 demo_started" by (cases "batch_bytes demo_started") (simp_all add: write_legal_def)
    obtain s' where s': "write_on_completion slot_ring demo_resume (write_delivered 1 0 demo_started) = Inr s'"
      using write_success_ok [OF slot_ring_laws demo_resume_ok inv, of 1 0] l demo_started_fields(1)
      by (auto simp: write_legal_def)
    have "conn_step slot_ring list_ring demo_resume ([], demo_started) ([] @ take (nat 1) (batch_bytes demo_started), s')"
      using l s' demo_started_fields(1) by (intro step_write) simp_all
    from this connection_refines_stream [OF demo_run this] c show ?thesis
      by (intro exI [of _ s']) (simp add: stream_of_def)
  qed
qed


end
