(* ===== verification/Net_Socket.thy ===== *)
theory Net_Socket
  imports Inet_Address
begin

text \<open>
  \<open>Socket\<close> (src/Socket.cc, include/Socket.h). The kernel is a parameter: a function from a system call
  and the kernel's state to the reply and the new state. \<open>os_calls\<close> records the calls made so far; no
  operation reads it.
\<close>

section \<open>System calls\<close>

datatype sock_option = TCP_NODELAY | SO_REUSEADDR | SO_REUSEPORT | SO_KEEPALIVE

datatype syscall =
    SysSocket
  | SysListen int int
  | SysBind int sockaddr_in
  | SysAccept4 int
  | SysShutdownWrite int
  | SysClose int
  | SysSetsockopt int sock_option int
  | SysGetpeername int
  | SysGetsockname int

text \<open>The return value of a call and what it leaves in its address argument.\<close>

record reply =
  rp_res :: int
  rp_addr :: sockaddr_in

record 'k os =
  os_kernel :: 'k
  os_calls :: "syscall list"

type_synonym 'k kernel = "syscall \<Rightarrow> 'k \<Rightarrow> reply \<times> 'k"

definition sys :: "'k kernel \<Rightarrow> syscall \<Rightarrow> 'k os \<Rightarrow> reply \<times> 'k os" where
  "sys K c w = (case K c (os_kernel w) of (r, k) \<Rightarrow> (r, \<lparr>os_kernel = k, os_calls = os_calls w @ [c]\<rparr>))"

lemma sys_calls [simp]: "os_calls (snd (sys K c w)) = os_calls w @ [c]"
  by (simp add: sys_def split: prod.split)

section \<open>Sockets\<close>

record socket =
  sk_fd :: int
  sk_closed :: bool

definition Socket :: "int \<Rightarrow> socket" where
  "Socket socketfd = \<lparr>sk_fd = socketfd, sk_closed = False\<rparr>"

definition sock_close :: "'k kernel \<Rightarrow> socket \<Rightarrow> 'k os \<Rightarrow> socket \<times> 'k os" where
  "sock_close K s w =
     (if \<not> sk_closed s then (s\<lparr>sk_closed := True\<rparr>, snd (sys K (SysClose (sk_fd s)) w)) else (s, w))"

definition sock_destroy :: "'k kernel \<Rightarrow> socket \<Rightarrow> 'k os \<Rightarrow> 'k os" where
  "sock_destroy K s w = snd (sock_close K s w)"

text \<open>\<open>LOG_FATAL\<close> ends the process with \<open>exit (-1)\<close>.\<close>

definition sock_listen :: "'k kernel \<Rightarrow> socket \<Rightarrow> 'k os \<Rightarrow> 'k os outcome" where
  "sock_listen K s w =
     (case sys K (SysListen (sk_fd s) (1024 * 16)) w of (r, w1) \<Rightarrow>
        if rp_res r \<noteq> 0 then Inl (Exit (- 1)) else Inr w1)"

definition bindAddress :: "'k kernel \<Rightarrow> socket \<Rightarrow> sockaddr_in \<Rightarrow> 'k os \<Rightarrow> 'k os outcome" where
  "bindAddress K s addr w =
     (case sys K (SysBind (sk_fd s) addr) w of (r, w1) \<Rightarrow>
        if rp_res r < 0 then Inl (Exit (- 1)) else Inr w1)"

definition sock_accept :: "'k kernel \<Rightarrow> socket \<Rightarrow> sockaddr_in \<Rightarrow> 'k os \<Rightarrow> int \<times> sockaddr_in \<times> 'k os" where
  "sock_accept K s peer_addr w =
     (case sys K (SysAccept4 (sk_fd s)) w of (r, w1) \<Rightarrow>
        if 0 \<le> rp_res r then (rp_res r, setSockAddr (rp_addr r) peer_addr, w1)
        else (rp_res r, peer_addr, w1))"

definition shutDownWrite :: "'k kernel \<Rightarrow> socket \<Rightarrow> 'k os \<Rightarrow> 'k os" where
  "shutDownWrite K s w = snd (sys K (SysShutdownWrite (sk_fd s)) w)"

definition setTcpNoDelay :: "'k kernel \<Rightarrow> bool \<Rightarrow> socket \<Rightarrow> 'k os \<Rightarrow> 'k os" where
  "setTcpNoDelay K on s w = snd (sys K (SysSetsockopt (sk_fd s) TCP_NODELAY (if on then 1 else 0)) w)"

definition setReuseAddr :: "'k kernel \<Rightarrow> bool \<Rightarrow> socket \<Rightarrow> 'k os \<Rightarrow> 'k os" where
  "setReuseAddr K on s w = snd (sys K (SysSetsockopt (sk_fd s) SO_REUSEADDR (if on then 1 else 0)) w)"

definition setReusePort :: "'k kernel \<Rightarrow> bool \<Rightarrow> socket \<Rightarrow> 'k os \<Rightarrow> 'k os" where
  "setReusePort K on s w = snd (sys K (SysSetsockopt (sk_fd s) SO_REUSEPORT (if on then 1 else 0)) w)"

definition setKeepAlive :: "'k kernel \<Rightarrow> bool \<Rightarrow> socket \<Rightarrow> 'k os \<Rightarrow> 'k os" where
  "setKeepAlive K on s w = snd (sys K (SysSetsockopt (sk_fd s) SO_KEEPALIVE (if on then 1 else 0)) w)"

section \<open>The life of a socket\<close>

text \<open>The operations the owner of a socket may call before its destructor runs.\<close>

datatype sock_op = Listen | Bind sockaddr_in | Accept | ShutDownWrite | Close | SetOption sock_option bool

fun sock_run :: "'k kernel \<Rightarrow> sock_op list \<Rightarrow> socket \<times> 'k os \<Rightarrow> (socket \<times> 'k os) outcome" where
  "sock_run K [] (s, w) = Inr (s, w)"
| "sock_run K (Listen # ops) (s, w) = andThen (sock_listen K s w) (\<lambda>w1. sock_run K ops (s, w1))"
| "sock_run K (Bind a # ops) (s, w) = andThen (bindAddress K s a w) (\<lambda>w1. sock_run K ops (s, w1))"
| "sock_run K (Accept # ops) (s, w) =
     (case sock_accept K s \<lparr>sin_family = 0, sin_port = 0, sin_addr = 0\<rparr> w of (_, _, w1) \<Rightarrow>
        sock_run K ops (s, w1))"
| "sock_run K (ShutDownWrite # ops) (s, w) = sock_run K ops (s, shutDownWrite K s w)"
| "sock_run K (Close # ops) (s, w) = sock_run K ops (sock_close K s w)"
| "sock_run K (SetOption TCP_NODELAY b # ops) (s, w) = sock_run K ops (s, setTcpNoDelay K b s w)"
| "sock_run K (SetOption SO_REUSEADDR b # ops) (s, w) = sock_run K ops (s, setReuseAddr K b s w)"
| "sock_run K (SetOption SO_REUSEPORT b # ops) (s, w) = sock_run K ops (s, setReusePort K b s w)"
| "sock_run K (SetOption SO_KEEPALIVE b # ops) (s, w) = sock_run K ops (s, setKeepAlive K b s w)"

abbreviation closes :: "int \<Rightarrow> 'k os \<Rightarrow> nat" where
  "closes fd w \<equiv> count_list (os_calls w) (SysClose fd)"

lemma sys_closes:
  "closes fd (snd (sys K c w)) = closes fd w + (if c = SysClose fd then 1 else 0)"
  by simp

lemma sys_closes_eq: "sys K c w = (r, w1) \<Longrightarrow> closes fd w1 = closes fd w + (if c = SysClose fd then 1 else 0)"
  using sys_closes [of K c w fd] by simp

lemmas socket_defs = sock_close_def sock_listen_def bindAddress_def sock_accept_def shutDownWrite_def
  setTcpNoDelay_def setReuseAddr_def setReusePort_def setKeepAlive_def

text \<open>Operations keep the descriptor and \<open>closed_\<close> counts the \<open>close\<close> of it.\<close>

lemma sock_run_closes:
  assumes "sock_run K ops (s, w) = Inr (s', w')"
  shows "sk_fd s' = sk_fd s" and
    "closes (sk_fd s) w' + (if sk_closed s then 1 else 0) = closes (sk_fd s) w + (if sk_closed s' then 1 else 0)"
  using assms
  by (induction K ops "(s, w)" arbitrary: s w rule: sock_run.induct)
    (auto simp: socket_defs outcome_iff sys_closes_eq split: if_splits prod.splits)

text \<open>
  C31 The descriptor of a socket is closed exactly once: whatever operations its owner calls, also when
  \<open>close\<close> is called several times or not at all, the run of the destructor brings the number of
  \<open>close\<close> calls on the descriptor to one more than before the socket was made.
\<close>

theorem socket_closed_once:
  assumes "sock_run K ops (Socket fd, w) = Inr (s, w1)"
  shows "closes fd (sock_destroy K s w1) = closes fd w + 1"
  using sock_run_closes [OF assms] by (auto simp: Socket_def sock_destroy_def sock_close_def)

text \<open>A kernel on which every call succeeds.\<close>

definition demo_kernel :: "nat kernel" where
  "demo_kernel c k =
     (\<lparr>rp_res = (case c of SysSocket \<Rightarrow> int k + 3 | SysAccept4 _ \<Rightarrow> int k + 3 | _ \<Rightarrow> 0),
       rp_addr = \<lparr>sin_family = AF_INET, sin_port = 0x901F, sin_addr = 0x0100007F\<rparr>\<rparr>, k + 1)"

definition demo_os :: "nat os" where
  "demo_os = \<lparr>os_kernel = 0, os_calls = []\<rparr>"

theorem socket_closed_once_witness:
  "\<exists>s w. sock_run demo_kernel [Listen, Close, SetOption SO_KEEPALIVE True, Close] (Socket 5, demo_os) = Inr (s, w) \<and>
     closes 5 (sock_destroy demo_kernel s w) = 1"
proof -
  obtain s w where "sock_run demo_kernel [Listen, Close, SetOption SO_KEEPALIVE True, Close] (Socket 5, demo_os) = Inr (s, w)"
    by (simp add: socket_defs sys_def demo_kernel_def Socket_def)
  from this socket_closed_once [OF this] show ?thesis by (simp add: demo_os_def)
qed

end
