(* ===== verification/Accept_Path.thy ===== *)
theory Accept_Path
  imports Connection_Safety Net_Socket
begin

text \<open>
  \<open>Acceptor\<close> and \<open>AcceptContext\<close> (src/Acceptor.cc, src/AcceptContext.cc and their headers). The state
  is an extensible record, so that the server built on top of the acceptor can add its own; the
  \<open>connection_callback_\<close> is a parameter that acts on the whole state.
\<close>

section \<open>The acceptor\<close>

record accept_context =
  ac_res :: int
  ac_flags :: u32
  ac_addr :: sockaddr_in
  ac_fd :: int
  ac_error :: bool
  ac_accepting :: bool
  ac_acceptor :: bool

text \<open>\<open>ac_acceptor\<close>: \<open>acceptor_\<close> points to the acceptor.\<close>

definition AcceptContext :: "sockaddr_in \<Rightarrow> int \<Rightarrow> accept_context outcome" where
  "AcceptContext addr fd =
     andThen (check (fd \<noteq> 0) AssertFailed) (\<lambda>_.
       Inr \<lparr>ac_res = 0, ac_flags = 0, ac_addr = addr, ac_fd = fd, ac_error = False,
            ac_accepting = False, ac_acceptor = False\<rparr>)"

record acceptor =
  ap_socket :: socket
  ap_listening :: bool
  ap_callback :: bool
  ap_context :: accept_context

text \<open>\<open>as_accepts\<close> counts the accept requests that have not ended; no operation reads it.\<close>

record ('r, 'f, 'cb, 'k) accept_sys =
  as_loop :: "('r, 'f, 'cb) io_loop"
  as_os :: "'k os"
  as_acceptor :: acceptor
  as_accepts :: nat

abbreviation the_accept :: "('r, 'f, 'cb, 'k, 'z) accept_sys_scheme \<Rightarrow> accept_context" where
  "the_accept s \<equiv> ap_context (as_acceptor s)"

definition set_accept ::
    "(accept_context \<Rightarrow> accept_context) \<Rightarrow> ('r, 'f, 'cb, 'k, 'z) accept_sys_scheme \<Rightarrow>
     ('r, 'f, 'cb, 'k, 'z) accept_sys_scheme" where
  "set_accept f s = s\<lparr>as_acceptor := (as_acceptor s)\<lparr>ap_context := f (the_accept s)\<rparr>\<rparr>"

definition createNonBlocking :: "'k kernel \<Rightarrow> 'k os \<Rightarrow> (int \<times> 'k os) outcome" where
  "createNonBlocking K w =
     (case sys K SysSocket w of (r, w1) \<Rightarrow>
        if rp_res r < 0 then Inl (Exit (- 1)) else Inr (rp_res r, w1))"

definition Acceptor :: "'k kernel \<Rightarrow> sockaddr_in \<Rightarrow> bool \<Rightarrow> 'k os \<Rightarrow> (acceptor \<times> 'k os) outcome" where
  "Acceptor K addr reuse w =
     andThen (createNonBlocking K w) (\<lambda>(fd, w1).
     andThen (AcceptContext addr fd) (\<lambda>ctx.
       let sock = Socket fd;
           w2 = setReuseAddr K True sock w1;
           w3 = setReusePort K reuse sock w2
       in andThen (bindAddress K sock addr w3) (\<lambda>w4.
            Inr (\<lparr>ap_socket = sock, ap_listening = False, ap_callback = False, ap_context = ctx\<rparr>, w4))))"

definition submitAccept ::
    "'r uring_api \<Rightarrow> ('r, 'f, 'cb, 'k, 'z) accept_sys_scheme \<Rightarrow>
     ('r, 'f, 'cb, 'k, 'z) accept_sys_scheme outcome" where
  "submitAccept U s =
     andThen (submitAcceptMultishut U (ac_fd (the_accept s)) (AcceptCtx 0) (as_loop s)) (\<lambda>l.
       Inr (s\<lparr>as_loop := l, as_accepts := as_accepts s + 1\<rparr>))"

definition acceptor_listen ::
    "'r uring_api \<Rightarrow> 'k kernel \<Rightarrow> ('r, 'f, 'cb, 'k, 'z) accept_sys_scheme \<Rightarrow>
     ('r, 'f, 'cb, 'k, 'z) accept_sys_scheme outcome" where
  "acceptor_listen U K s =
     (let s1 = s\<lparr>as_acceptor := (as_acceptor s)\<lparr>ap_listening := True\<rparr>\<rparr>
      in andThen (sock_listen K (ap_socket (as_acceptor s1)) (as_os s1)) (\<lambda>w.
           submitAccept U (set_accept (\<lambda>c. c\<lparr>ac_acceptor := True, ac_accepting := True\<rparr>) (s1\<lparr>as_os := w\<rparr>))))"

section \<open>Completions\<close>

text \<open>\<open>Acceptor::handleRead\<close>; the errors of its last branch are only logged.\<close>

definition acceptor_handleRead ::
    "'k kernel \<Rightarrow>
     (int \<Rightarrow> sockaddr_in \<Rightarrow> ('r, 'f, 'cb, 'k, 'z) accept_sys_scheme \<Rightarrow>
       ('r, 'f, 'cb, 'k, 'z) accept_sys_scheme outcome) \<Rightarrow>
     int \<Rightarrow> ('r, 'f, 'cb, 'k, 'z) accept_sys_scheme \<Rightarrow>
     ('r, 'f, 'cb, 'k, 'z) accept_sys_scheme outcome" where
  "acceptor_handleRead K connection_callback connfd s =
     (if 0 < connfd then
        (case sys K (SysGetpeername connfd) (as_os s) of (r, w) \<Rightarrow>
           let s1 = s\<lparr>as_os := w\<rparr>
           in if ap_callback (as_acceptor s1) then connection_callback connfd (rp_addr r) s1
              else Inr (s1\<lparr>as_os := snd (sys K (SysClose connfd) (as_os s1))\<rparr>))
      else Inr s)"

definition EMFILE :: int where "EMFILE = 24"
definition ENFILE :: int where "ENFILE = 23"

definition accept_handleError :: "accept_context \<Rightarrow> bool \<times> accept_context" where
  "accept_handleError c =
     (if ac_res c < 0 then
        (let err = - ac_res c
         in if err = ECANCELED then (True, c)
            else if err = EMFILE \<or> err = ENFILE then (True, c\<lparr>ac_error := True\<rparr>)
            else (True, c\<lparr>ac_error := True\<rparr>))
      else (False, c))"

definition accept_on_completion ::
    "'r uring_api \<Rightarrow> 'k kernel \<Rightarrow>
     (int \<Rightarrow> sockaddr_in \<Rightarrow> ('r, 'f, 'cb, 'k, 'z) accept_sys_scheme \<Rightarrow>
       ('r, 'f, 'cb, 'k, 'z) accept_sys_scheme outcome) \<Rightarrow>
     ('r, 'f, 'cb, 'k, 'z) accept_sys_scheme \<Rightarrow>
     ('r, 'f, 'cb, 'k, 'z) accept_sys_scheme outcome" where
  "accept_on_completion U K connection_callback s =
     andThen (check (ac_accepting (the_accept s)) AssertFailed) (\<lambda>_.
     andThen (if ac_res (the_accept s) < 0
              then (let (close, c) = accept_handleError (the_accept s) in Inr (close, set_accept (\<lambda>_. c) s))
              else andThen (check (ac_acceptor (the_accept s)) NullDeref) (\<lambda>_.
                   andThen (acceptor_handleRead K connection_callback (ac_res (the_accept s)) s)
                     (\<lambda>s1. Inr (False, s1)))) (\<lambda>(need_close, s1).
       if \<not> cqe_has_more (ac_flags (the_accept s1)) then
         (if \<not> need_close
          then andThen (check (ac_acceptor (the_accept s1)) NullDeref) (\<lambda>_. submitAccept U s1)
          else Inr (set_accept (\<lambda>c. c\<lparr>ac_accepting := False\<rparr>) s1))
       else Inr s1))"

text \<open>
  The loop stores the result in the context before it calls \<open>on_completion\<close>; a completion without
  \<open>IORING_CQE_F_MORE\<close> is the last one of its request.
\<close>

definition accept_delivered ::
    "int \<Rightarrow> u32 \<Rightarrow> ('r, 'f, 'cb, 'k, 'z) accept_sys_scheme \<Rightarrow>
     ('r, 'f, 'cb, 'k, 'z) accept_sys_scheme" where
  "accept_delivered res fl s =
     (set_accept (\<lambda>c. c\<lparr>ac_res := res, ac_flags := fl\<rparr>) s)
       \<lparr>as_accepts := (if cqe_has_more fl then as_accepts s else as_accepts s - 1)\<rparr>"

section \<open>The invariant of the acceptor\<close>

lemma set_accept_fields [simp]:
  "as_loop (set_accept f s) = as_loop s" "as_os (set_accept f s) = as_os s"
  "as_accepts (set_accept f s) = as_accepts s" "the_accept (set_accept f s) = f (the_accept s)"
  "ap_socket (as_acceptor (set_accept f s)) = ap_socket (as_acceptor s)"
  "ap_callback (as_acceptor (set_accept f s)) = ap_callback (as_acceptor s)"
  by (simp_all add: set_accept_def)

definition accept_inv :: "('r, 'f, 'cb, 'k, 'z) accept_sys_scheme \<Rightarrow> bool" where
  "accept_inv s \<longleftrightarrow>
     as_accepts s = (if ac_accepting (the_accept s) then 1 else 0) \<and>
     (ac_accepting (the_accept s) \<longrightarrow> ac_acceptor (the_accept s)) \<and>
     0 < lp_low_water (as_loop s)"

text \<open>
  What the acceptor relies on in its callback: it returns, it leaves the acceptor, its request and
  the low-water mark of the loop alone, and it keeps the invariant \<open>ok\<close> of its owner, which does not
  depend on the acceptor, the kernel or what the loop does besides its functors.
\<close>

definition accept_frame ::
    "('r, 'f, 'cb, 'k, 'z) accept_sys_scheme \<Rightarrow> ('r, 'f, 'cb, 'k, 'z) accept_sys_scheme \<Rightarrow> bool" where
  "accept_frame s s' \<longleftrightarrow>
     as_acceptor s' = as_acceptor s \<and> as_accepts s' = as_accepts s \<and>
     lp_low_water (as_loop s') = lp_low_water (as_loop s)"

lemma submit_accept_pending:
  "submitAcceptMultishut U fd ctx l = Inr l' \<Longrightarrow> lp_pending l' = lp_pending l"
  by (auto simp: submitAcceptMultishut_def submitAcceptMultishut_now_def submit_sqe_low_water split: if_splits)

lemma submitAccept_ok:
  assumes "uring_laws U queued handed n" and "0 < lp_low_water (as_loop s)"
  shows "\<exists>l. submitAccept U s = Inr (s\<lparr>as_loop := l, as_accepts := as_accepts s + 1\<rparr>) \<and>
    lp_low_water l = lp_low_water (as_loop s) \<and> lp_pending l = lp_pending (as_loop s)"
  using submit_accept_ok [OF assms, of "ac_fd (the_accept s)" "AcceptCtx 0"]
  by (auto simp: submitAccept_def dest: submit_accept_pending)


text \<open>Every error of an accept request is fatal.\<close>

lemma accept_handleError_fatal:
  assumes "ac_res c < 0"
  shows "\<exists>b. accept_handleError c = (True, c\<lparr>ac_error := b\<rparr>)"
proof (cases "- ac_res c = ECANCELED")
  case True
  then show ?thesis using assms by (intro exI [of _ "ac_error c"]) (simp add: accept_handleError_def)
next
  case False
  then show ?thesis using assms by (intro exI [of _ True]) (simp add: accept_handleError_def Let_def)
qed

locale connection_handler =
  fixes K :: "'k kernel"
    and ok :: "('r, 'f, 'cb, 'k, 'z) accept_sys_scheme \<Rightarrow> bool"
    and callback :: "int \<Rightarrow> sockaddr_in \<Rightarrow> ('r, 'f, 'cb, 'k, 'z) accept_sys_scheme \<Rightarrow>
      ('r, 'f, 'cb, 'k, 'z) accept_sys_scheme outcome"
  assumes callback_ok: "0 < fd \<Longrightarrow> ok s \<Longrightarrow> \<exists>s'. callback fd a s = Inr s' \<and> accept_frame s s' \<and> ok s'"
    and ok_acceptor: "ok (s\<lparr>as_acceptor := c\<rparr>) = ok s" "ok (s\<lparr>as_accepts := k\<rparr>) = ok s"
    and ok_os: "ok (s\<lparr>as_os := w\<rparr>) = ok s"
    and ok_loop: "lp_pending l = lp_pending (as_loop s) \<Longrightarrow> ok (s\<lparr>as_loop := l\<rparr>) = ok s"
begin

lemma ok_set_accept: "ok (set_accept f s) = ok s"
  by (simp add: set_accept_def ok_acceptor)

lemma ok_delivered: "ok (accept_delivered res fl s) = ok s"
  by (simp add: accept_delivered_def ok_acceptor ok_set_accept)

text \<open>An accepted descriptor goes to the callback or is closed.\<close>

lemma handleRead_frame:
  assumes "ok s"
  shows "\<exists>s'. acceptor_handleRead K callback fd s = Inr s' \<and> accept_frame s s' \<and> ok s'"
proof (cases "0 < fd \<and> ap_callback (as_acceptor s)")
  case True
  obtain r w where r: "sys K (SysGetpeername fd) (as_os s) = (r, w)" by fastforce
  from callback_ok [of fd "s\<lparr>as_os := w\<rparr>" "rp_addr r"] True r assms show ?thesis
    by (auto simp: acceptor_handleRead_def accept_frame_def ok_os)
next
  case False
  then show ?thesis
    using assms by (auto simp: acceptor_handleRead_def accept_frame_def ok_os split: prod.split)
qed

text \<open>A completion that is not an error keeps a request outstanding.\<close>

lemma completion_success:
  assumes laws: "uring_laws U queued handed n"
    and "accept_inv s" and "ok s" and "0 < as_accepts s" and "0 \<le> res"
  shows "\<exists>s'. accept_on_completion U K callback (accept_delivered res fl s) = Inr s' \<and> accept_inv s' \<and>
    ok s' \<and> as_accepts s' = 1"
proof -
  let ?d = "accept_delivered res fl s"
  have d: "ac_accepting (the_accept ?d)" "ac_acceptor (the_accept ?d)" "ac_res (the_accept ?d) = res"
    "ac_flags (the_accept ?d) = fl" "as_accepts ?d = (if cqe_has_more fl then 1 else 0)"
    "0 < lp_low_water (as_loop ?d)"
    using assms by (auto simp: accept_delivered_def accept_inv_def split: if_splits)
  obtain s1 where s1: "acceptor_handleRead K callback res ?d = Inr s1" "accept_frame ?d s1" "ok s1"
    using handleRead_frame assms(3) ok_delivered by blast
  have f: "the_accept s1 = the_accept ?d" "as_accepts s1 = as_accepts ?d" "0 < lp_low_water (as_loop s1)"
    using s1(2) d(6) by (auto simp: accept_frame_def)
  show ?thesis
  proof (cases "cqe_has_more fl")
    case True
    then have "accept_on_completion U K callback ?d = Inr s1"
      using d f s1(1) assms(5) by (simp add: accept_on_completion_def)
    then show ?thesis using True d f s1(3) by (simp add: accept_inv_def)
  next
    case False
    obtain l where l: "submitAccept U s1 = Inr (s1\<lparr>as_loop := l, as_accepts := as_accepts s1 + 1\<rparr>)"
      "lp_low_water l = lp_low_water (as_loop s1)" "lp_pending l = lp_pending (as_loop s1)"
      using submitAccept_ok [OF laws f(3)] by blast
    then have "accept_on_completion U K callback ?d = Inr (s1\<lparr>as_loop := l, as_accepts := as_accepts s1 + 1\<rparr>)"
      using False d f s1(1) assms(5) by (simp add: accept_on_completion_def)
    moreover have "ok (s1\<lparr>as_loop := l, as_accepts := as_accepts s1 + 1\<rparr>)"
      using s1(3) l(3) by (simp add: ok_acceptor(2) ok_loop)
    ultimately show ?thesis using False d f l(2) by (simp add: accept_inv_def)
  qed
qed

text \<open>A failed completion leaves everything but the context alone.\<close>

lemma completion_failure:
  assumes "accept_inv s" and "ok s" and "0 < as_accepts s" and "res < 0"
  shows "\<exists>s'. accept_on_completion U K callback (accept_delivered res fl s) = Inr s' \<and> accept_inv s' \<and>
    ok s' \<and> as_accepts s' = (if cqe_has_more fl then 1 else 0)"
proof -
  let ?d = "accept_delivered res fl s"
  have d: "ac_accepting (the_accept ?d)" "ac_acceptor (the_accept ?d)" "ac_res (the_accept ?d) = res"
    "ac_flags (the_accept ?d) = fl" "as_accepts ?d = (if cqe_has_more fl then 1 else 0)"
    "0 < lp_low_water (as_loop ?d)" "ok ?d"
    using assms by (auto simp: accept_delivered_def accept_inv_def ok_acceptor ok_set_accept split: if_splits)
  obtain b where "accept_handleError (the_accept ?d) = (True, (the_accept ?d)\<lparr>ac_error := b\<rparr>)"
    using accept_handleError_fatal [of "the_accept ?d"] assms(4) d(3) by auto
  then show ?thesis using assms(4) d by (auto simp: accept_on_completion_def accept_inv_def ok_set_accept)
qed

lemma completion_ok:
  assumes laws: "uring_laws U queued handed n"
    and inv: "accept_inv s" "ok s" "0 < as_accepts s"
  shows "\<exists>s'. accept_on_completion U K callback (accept_delivered res fl s) = Inr s' \<and>
    accept_inv s' \<and> ok s'"
proof (cases "0 \<le> res")
  case True
  from completion_success [OF laws inv True, of fl] show ?thesis by blast
next
  case False
  then have "res < 0" by simp
  from completion_failure [OF inv this, of U fl] show ?thesis by blast
qed

end

end
