(* ===== verification/Loop_Pool.thy ===== *)
theory Loop_Pool
  imports Text_Format
begin

text \<open>
  \<open>IoUringLoopThreadPool\<close> (src/IoUringLoopThreadPool.cc, include/IoUringLoopThreadPool.h): the loops
  connections are spread over. A pointer to a loop is a value of the type \<open>'l\<close>, and starting a loop
  thread is a parameter that maps the thread's name to the loop it runs, acting on the program's
  state \<open>'s\<close>.
\<close>

record 'l loop_pool =
  pl_base :: 'l
  pl_name :: string
  pl_started :: bool
  pl_next :: int
  pl_num_threads :: int
  pl_threads :: "string list"
  pl_loops :: "'l list"

definition IoUringLoopThreadPool :: "'l \<Rightarrow> string \<Rightarrow> 'l loop_pool" where
  "IoUringLoopThreadPool base_loop name =
     \<lparr>pl_base = base_loop, pl_name = name, pl_started = False, pl_next = 0, pl_num_threads = 0,
      pl_threads = [], pl_loops = []\<rparr>"

definition setNumThreads :: "int \<Rightarrow> 'l loop_pool \<Rightarrow> 'l loop_pool outcome" where
  "setNumThreads num_threads p =
     andThen (check (\<not> pl_started p) AssertFailed) (\<lambda>_. Inr (p\<lparr>pl_num_threads := num_threads\<rparr>))"

function start_threads ::
    "(string \<Rightarrow> 's \<Rightarrow> 'l \<times> 's) \<Rightarrow> int \<Rightarrow> 'l loop_pool \<Rightarrow> 's \<Rightarrow> 'l loop_pool \<times> 's" where
  "start_threads startLoop i p s =
     (if i < pl_num_threads p then
        (let buf = pl_name p @ dec_int i
         in case startLoop buf s of (l, s1) \<Rightarrow>
              start_threads startLoop (i + 1)
                (p\<lparr>pl_threads := pl_threads p @ [buf], pl_loops := pl_loops p @ [l]\<rparr>) s1)
      else (p, s))"
  by pat_completeness auto
termination by (relation "measure (\<lambda>(f, i, p, s). nat (pl_num_threads p - i))") auto

declare start_threads.simps [simp del]

definition pool_start ::
    "(string \<Rightarrow> 's \<Rightarrow> 'l \<times> 's) \<Rightarrow> ('l \<Rightarrow> 's \<Rightarrow> 's) option \<Rightarrow> 'l loop_pool \<Rightarrow> 's \<Rightarrow> 'l loop_pool \<times> 's" where
  "pool_start startLoop cb p s =
     (case start_threads startLoop 0 (p\<lparr>pl_started := True\<rparr>) s of (p1, s1) \<Rightarrow>
        (case cb of
           Some f \<Rightarrow> if pl_num_threads p1 = 0 then (p1, f (pl_base p1) s1) else (p1, s1)
         | None \<Rightarrow> (p1, s1)))"

text \<open>An index outside the vector is an access out of bounds; so is a remainder by zero a fault.\<close>

definition getNextLoop :: "'l loop_pool \<Rightarrow> ('l \<times> 'l loop_pool) outcome" where
  "getNextLoop p =
     (if pl_loops p \<noteq> [] then
        andThen (check (0 \<le> pl_next p \<and> nat (pl_next p) < length (pl_loops p)) OutOfBounds) (\<lambda>_.
        andThen (check (pl_num_threads p \<noteq> 0) OutOfBounds) (\<lambda>_.
          Inr (pl_loops p ! nat (pl_next p), p\<lparr>pl_next := (pl_next p + 1) mod pl_num_threads p\<rparr>)))
      else Inr (pl_base p, p))"

definition getAllLoops :: "'l loop_pool \<Rightarrow> 'l list" where
  "getAllLoops p = (if pl_loops p \<noteq> [] then pl_loops p else [pl_base p])"

section \<open>Starting\<close>

lemma start_threads_ok:
  assumes "start_threads f i p s = (p', s')" and "0 \<le> i" and "length (pl_loops p) = nat i"
    and "i \<le> pl_num_threads p \<or> i = 0"
  shows "length (pl_loops p') = nat (pl_num_threads p) \<and> pl_num_threads p' = pl_num_threads p \<and>
    pl_base p' = pl_base p \<and> pl_next p' = pl_next p \<and> pl_started p' = pl_started p"
  using assms
proof (induction f i p s rule: start_threads.induct)
  case (1 f i p s)
  show ?case
  proof (cases "i < pl_num_threads p")
    case True
    obtain l s1 where l: "f (pl_name p @ dec_int i) s = (l, s1)" by fastforce
    let ?p = "p\<lparr>pl_threads := pl_threads p @ [pl_name p @ dec_int i], pl_loops := pl_loops p @ [l]\<rparr>"
    have "start_threads f (i + 1) ?p s1 = (p', s')"
      using "1.prems"(1) True l by (subst (asm) start_threads.simps) simp
    from "1.IH" [OF True refl l [symmetric] this] show ?thesis
      using True "1.prems"(2,3) by (simp add: nat_add_distrib)
  next
    case False
    then have "p' = p" using "1.prems"(1) by (simp add: start_threads.simps)
    then show ?thesis using False "1.prems" by auto
  qed
qed

text \<open>A pool that was started once: a loop per thread, and \<open>next_\<close> is one of them.\<close>

definition pool_inv :: "'l loop_pool \<Rightarrow> bool" where
  "pool_inv p \<longleftrightarrow>
     pl_started p \<and> length (pl_loops p) = nat (pl_num_threads p) \<and>
     0 \<le> pl_next p \<and> (0 < pl_num_threads p \<longrightarrow> pl_next p < pl_num_threads p)"

lemma pool_start_inv:
  assumes "setNumThreads num (IoUringLoopThreadPool base name) = Inr p"
    and "pool_start f cb p s = (p', s')"
  shows "pool_inv p'" and "pl_next p' = 0" and "pl_num_threads p' = num" and "pl_base p' = base"
proof -
  have p: "p = (IoUringLoopThreadPool base name)\<lparr>pl_num_threads := num\<rparr>"
    using assms(1) by (simp add: setNumThreads_def IoUringLoopThreadPool_def)
  obtain p1 s1 where p1: "start_threads f 0 (p\<lparr>pl_started := True\<rparr>) s = (p1, s1)" by fastforce
  have "p' = p1" using assms(2) p1 by (auto simp: pool_start_def split: option.splits if_splits)
  with start_threads_ok [OF p1] p
  show "pool_inv p'" "pl_next p' = 0" "pl_num_threads p' = num" "pl_base p' = base"
    by (simp_all add: pool_inv_def IoUringLoopThreadPool_def)
qed

section \<open>Round robin\<close>

lemma getNextLoop_ok:
  assumes "pool_inv p"
  shows "\<exists>p'. getNextLoop p =
      Inr (if 0 < pl_num_threads p then pl_loops p ! nat (pl_next p) else pl_base p, p') \<and>
    pool_inv p' \<and> pl_loops p' = pl_loops p \<and> pl_num_threads p' = pl_num_threads p \<and>
    pl_base p' = pl_base p \<and>
    (0 < pl_num_threads p \<longrightarrow> pl_next p' = (pl_next p + 1) mod pl_num_threads p)"
proof (cases "0 < pl_num_threads p")
  case True
  then have "pl_loops p \<noteq> []" "nat (pl_next p) < length (pl_loops p)"
    using assms by (auto simp: pool_inv_def)
  then show ?thesis using True assms by (simp add: getNextLoop_def pool_inv_def)
next
  case False
  then have "pl_loops p = []" using assms by (simp add: pool_inv_def)
  then show ?thesis using False assms by (simp add: getNextLoop_def)
qed

text \<open>The loops handed out by \<open>k\<close> calls of \<open>getNextLoop\<close>.\<close>

fun next_loops :: "nat \<Rightarrow> 'l loop_pool \<Rightarrow> ('l list \<times> 'l loop_pool) outcome" where
  "next_loops 0 p = Inr ([], p)"
| "next_loops (Suc k) p =
     andThen (getNextLoop p) (\<lambda>(l, p1). andThen (next_loops k p1) (\<lambda>(ls, p2). Inr (l # ls, p2)))"

lemma next_loops_from:
  assumes "pool_inv p"
  shows "\<exists>p'. next_loops k p =
      Inr (map (\<lambda>i. if 0 < pl_num_threads p
                    then pl_loops p ! (nat ((pl_next p + int i) mod pl_num_threads p)) else pl_base p) [0..<k], p')"
  using assms
proof (induction k arbitrary: p)
  case (Suc k)
  let ?pick = "\<lambda>p i. if 0 < pl_num_threads p
    then pl_loops p ! nat ((pl_next p + int i) mod pl_num_threads p) else pl_base p"
  obtain p1 where p1: "getNextLoop p =
      Inr (if 0 < pl_num_threads p then pl_loops p ! nat (pl_next p) else pl_base p, p1)" "pool_inv p1"
    "pl_loops p1 = pl_loops p" "pl_num_threads p1 = pl_num_threads p" "pl_base p1 = pl_base p"
    "0 < pl_num_threads p \<longrightarrow> pl_next p1 = (pl_next p + 1) mod pl_num_threads p"
    using getNextLoop_ok [OF Suc.prems] by blast
  obtain p2 where "next_loops k p1 = Inr (map (?pick p1) [0..<k], p2)" using Suc.IH [OF p1(2)] by auto
  then have "next_loops (Suc k) p = Inr (?pick p 0 # map (?pick p1) [0..<k], p2)"
    using p1(1) Suc.prems by (simp add: pool_inv_def)
  moreover have "?pick p1 i = ?pick p (Suc i)" for i
    using p1(3-6) by (simp add: mod_simps ac_simps)
  ultimately have "next_loops (Suc k) p = Inr (map (?pick p) (0 # map Suc [0..<k]), p2)" by (simp add: comp_def)
  then show ?case by (metis map_Suc_upt upt_conv_Cons zero_less_Suc)
qed simp

text \<open>
  Connections are spread round robin: after \<open>setThreadNum\<close> and one start, the \<open>i\<close>-th connection goes
  to the loop of thread \<open>i mod n\<close>, or to the base loop when there are no threads; no index is ever
  out of bounds, and the pool has exactly one loop per thread.
\<close>

theorem round_robin:
  assumes "setNumThreads num (IoUringLoopThreadPool base name) = Inr p"
    and "pool_start f cb p s = (p', s')"
  shows "length (pl_loops p') = nat num \<and>
    (\<exists>p''. next_loops k p' =
      Inr (map (\<lambda>i. if 0 < num then pl_loops p' ! (i mod nat num) else base) [0..<k], p''))"
proof
  note st = pool_start_inv [OF assms]
  have "nat ((0 + int i) mod num) = i mod nat num" if "0 < num" for i
    using that by (simp add: nat_mod_distrib)
  with next_loops_from [OF st(1), of k] st(2-4) show "\<exists>p''. next_loops k p' =
      Inr (map (\<lambda>i. if 0 < num then pl_loops p' ! (i mod nat num) else base) [0..<k], p'')"
    by (simp cong: if_cong)
  show "length (pl_loops p') = nat num" using st by (simp add: pool_inv_def)
qed

text \<open>Three threads whose loops are numbered from 10.\<close>

theorem round_robin_witness:
  "\<exists>p q. setNumThreads 3 (IoUringLoopThreadPool (0::nat) ''loop'') = Inr p \<and>
     next_loops 5 (fst (pool_start (\<lambda>name k. (k, k + 1)) None p 10)) = Inr ([10, 11, 12, 10, 11], q)"
proof -
  let ?f = "\<lambda>(name::string) (k::nat). (k, k + 1)"
  obtain p where p: "setNumThreads 3 (IoUringLoopThreadPool (0::nat) ''loop'') = Inr p"
    by (simp add: setNumThreads_def IoUringLoopThreadPool_def)
  obtain p' s' where s: "pool_start ?f None p 10 = (p', s')" by fastforce
  have "pl_loops p' = [10, 11, 12]"
    using p s by (auto simp: setNumThreads_def IoUringLoopThreadPool_def pool_start_def start_threads.simps)
  moreover have "[0..<5] = [0, 1, 2, 3, 4::nat]" by (simp add: upt_rec)
  ultimately show ?thesis using p s round_robin [OF p s, of 5] by auto
qed

end
