(* ===== verification/Tcp_Server.thy ===== *)
theory Tcp_Server
  imports Accept_Path Loop_Pool "HOL-Library.AList"
begin

text \<open>
  \<open>TcpServer\<close> (src/TcpServer.cc, include/TcpServer.h) with its acceptor on the base loop, the pool of
  sub-loops and the connections it has made. A \<open>TcpConnectionPtr\<close> is the number of the connection,
  its position among all connections made so far; \<open>connection_map_\<close> is an association list. The
  state extends the record of the acceptor.
\<close>

datatype loop_ref = BaseLoop | SubLoop nat

text \<open>The functors the server queues on its loops.\<close>

datatype server_task =
    StartListening
  | EstablishConnection nat
  | RemoveConnection nat
  | DestroyedConnection nat

record tcp_server =
  sv_ip_port :: string
  sv_name :: string
  sv_pool :: "loop_ref loop_pool"
  sv_map :: "(string \<times> nat) list"
  sv_num_threads :: int
  sv_started :: int
  sv_next_conn_id :: "32 word"

record ('r, 'cb, 'k, 'h) server_sys = "('r, server_task, 'cb, 'k) accept_sys" +
  ss_server :: tcp_server
  ss_loops :: "('r, server_task, 'cb) io_loop list"
  ss_conns :: "'h tcp_connection list"
  ss_conn_loops :: "loop_ref list"

type_synonym ('r, 'cb) server_loop = "('r, server_task, 'cb) io_loop"

definition TcpServer ::
    "'k kernel \<Rightarrow> ('r, 'cb) server_loop \<Rightarrow> sockaddr_in \<Rightarrow> string \<Rightarrow> bool \<Rightarrow> 'k os \<Rightarrow>
     ('r, 'cb, 'k, 'h) server_sys outcome" where
  "TcpServer K base_loop bind_addr name reuse_port w =
     andThen (Acceptor K bind_addr reuse_port w) (\<lambda>(a, w1).
       Inr \<lparr>as_loop = base_loop, as_os = w1, as_acceptor = a\<lparr>ap_callback := True\<rparr>, as_accepts = 0,
            ss_server = \<lparr>sv_ip_port = toIpPort bind_addr, sv_name = name,
                         sv_pool = IoUringLoopThreadPool BaseLoop name, sv_map = [],
                         sv_num_threads = 0, sv_started = 0, sv_next_conn_id = 1\<rparr>,
            ss_loops = [], ss_conns = [], ss_conn_loops = []\<rparr>)"

text \<open>
  \<open>queueInLoop\<close> on a loop given by its pointer, called on the thread of the loop \<open>caller\<close>, or on
  another thread.
\<close>

definition queue_on ::
    "loop_ref option \<Rightarrow> loop_ref \<Rightarrow> server_task \<Rightarrow> ('r, 'cb, 'k, 'h) server_sys \<Rightarrow>
     ('r, 'cb, 'k, 'h) server_sys" where
  "queue_on caller ref t s =
     (case ref of
        BaseLoop \<Rightarrow> s\<lparr>as_loop := queueInLoop (caller = Some BaseLoop) t (as_loop s)\<rparr>
      | SubLoop i \<Rightarrow>
          s\<lparr>ss_loops := (ss_loops s)[i := queueInLoop (caller = Some (SubLoop i)) t (ss_loops s ! i)]\<rparr>)"

definition setThreadNum ::
    "int \<Rightarrow> ('r, 'cb, 'k, 'h) server_sys \<Rightarrow> ('r, 'cb, 'k, 'h) server_sys outcome" where
  "setThreadNum thread_num s =
     andThen (check (sv_started (ss_server s) = 0) AssertFailed) (\<lambda>_.
     andThen (setNumThreads thread_num (sv_pool (ss_server s))) (\<lambda>p.
       Inr (s\<lparr>ss_server := (ss_server s)\<lparr>sv_num_threads := thread_num, sv_pool := p\<rparr>\<rparr>)))"

text \<open>Starting a loop thread: \<open>new_loop\<close> is the loop its constructor makes.\<close>

definition start_sub_loop ::
    "('r, 'cb) server_loop \<Rightarrow> string \<Rightarrow> ('r, 'cb, 'k, 'h) server_sys \<Rightarrow>
     loop_ref \<times> ('r, 'cb, 'k, 'h) server_sys" where
  "start_sub_loop new_loop name s = (SubLoop (length (ss_loops s)), s\<lparr>ss_loops := ss_loops s @ [new_loop]\<rparr>)"

section \<open>Connections\<close>

text \<open>\<open>newConnection\<close>, the callback of the acceptor, on the thread of the base loop.\<close>

definition conn_suffix :: "tcp_server \<Rightarrow> string" where
  "conn_suffix sv =
     snprintf_buf 64 (CHR ''-'' # sv_ip_port sv @ CHR ''#'' # dec_int (sint (sv_next_conn_id sv)))"

definition newConnection ::
    "'k kernel \<Rightarrow> int \<Rightarrow> sockaddr_in \<Rightarrow> ('r, 'cb, 'k, 'h) server_sys \<Rightarrow>
     ('r, 'cb, 'k, 'h) server_sys outcome" where
  "newConnection K sock_fd peer_addr s =
     (let sv = ss_server s
      in andThen (getNextLoop (sv_pool sv)) (\<lambda>(ioloop, p).
         let conn_name = sv_name sv @ conn_suffix sv;
             sv1 = sv\<lparr>sv_pool := p, sv_next_conn_id := sv_next_conn_id sv + 1\<rparr>;
             number = length (ss_conns s)
         in case sys K (SysGetsockname sock_fd) (as_os s) of (r, w) \<Rightarrow>
            andThen (TcpConnection number conn_name sock_fd (rp_addr r) peer_addr (4096 * 16) 16 (4096 * 16))
              (\<lambda>new_conn.
                Inr (queue_on (Some BaseLoop) ioloop (EstablishConnection number)
                  (s\<lparr>as_os := setKeepAlive K True (Socket sock_fd) w,
                     ss_server := sv1\<lparr>sv_map := AList.update conn_name number (sv_map sv1)\<rparr>,
                     ss_conns := ss_conns s @ [new_conn\<lparr>tc_close_callback := True\<rparr>],
                     ss_conn_loops := ss_conn_loops s @ [ioloop]\<rparr>)))))"

definition removeConnectionInLoop ::
    "nat \<Rightarrow> ('r, 'cb, 'k, 'h) server_sys \<Rightarrow> ('r, 'cb, 'k, 'h) server_sys" where
  "removeConnectionInLoop c s =
     s\<lparr>ss_server := (ss_server s)\<lparr>sv_map := AList.delete (tc_name (ss_conns s ! c)) (sv_map (ss_server s))\<rparr>\<rparr>"

text \<open>\<open>removeConnection\<close>, the close callback of a connection, called on the thread of its loop.\<close>

definition removeConnection ::
    "loop_ref option \<Rightarrow> nat \<Rightarrow> ('r, 'cb, 'k, 'h) server_sys \<Rightarrow> ('r, 'cb, 'k, 'h) server_sys" where
  "removeConnection caller c s =
     (if caller = Some BaseLoop then removeConnectionInLoop c s
      else queue_on caller BaseLoop (RemoveConnection c) s)"

text \<open>The destructor: every connection of the map is told to close itself on its own loop.\<close>

definition server_destroy ::
    "loop_ref option \<Rightarrow> ('r, 'cb, 'k, 'h) server_sys \<Rightarrow> ('r, 'cb, 'k, 'h) server_sys" where
  "server_destroy caller s =
     foldl (\<lambda>t (_, c). queue_on caller (ss_conn_loops t ! c) (DestroyedConnection c) t) s
       (sv_map (ss_server s))"

section \<open>Starting\<close>

definition server_start ::
    "'r uring_api \<Rightarrow> 'k kernel \<Rightarrow> ('r, 'cb) server_loop \<Rightarrow>
     (loop_ref \<Rightarrow> ('r, 'cb, 'k, 'h) server_sys \<Rightarrow> ('r, 'cb, 'k, 'h) server_sys) option \<Rightarrow>
     loop_ref option \<Rightarrow> ('r, 'cb, 'k, 'h) server_sys \<Rightarrow> ('r, 'cb, 'k, 'h) server_sys outcome" where
  "server_start U K new_loop thread_init_callback caller s =
     (let was = sv_started (ss_server s);
          s1 = s\<lparr>ss_server := (ss_server s)\<lparr>sv_started := was + 1\<rparr>\<rparr>
      in if was = 0 then
           (case pool_start (start_sub_loop new_loop) thread_init_callback (sv_pool (ss_server s1)) s1 of
              (p, s2) \<Rightarrow>
                let s3 = s2\<lparr>ss_server := (ss_server s2)\<lparr>sv_pool := p\<rparr>\<rparr>
                in if caller = Some BaseLoop then acceptor_listen U K s3
                   else Inr (queue_on caller BaseLoop StartListening s3))
         else Inr s1)"

section \<open>Closing a connection, seen from the server\<close>

text \<open>
  \<open>TcpConnection::handleClose\<close> on the bare connection, and with the close callback that
  \<open>newConnection\<close> has installed.
\<close>

definition close_conn :: "'h tcp_connection \<Rightarrow> 'h tcp_connection" where
  "close_conn c =
     (if \<not> tc_closing c then
        (let c1 = c\<lparr>tc_closing := True, tc_sock_closed := True\<rparr>;
             c2 = (if rc_handle (tc_read c1) \<noteq> None \<or> wc_handle (tc_write c1) \<noteq> None
                   then c1\<lparr>tc_task := False\<rparr> else c1);
             c3 = c2\<lparr>tc_read := (tc_read c2)\<lparr>rc_handle := None\<rparr>, tc_write := (tc_write c2)\<lparr>wc_handle := None\<rparr>\<rparr>
         in if tc_close_callback c3 then c3\<lparr>tc_closed_events := tc_closed_events c3 + 1\<rparr> else c3)
      else c\<lparr>tc_task := False\<rparr>)"

lemma handleClose_conn: "handleClose s = set_conn close_conn s"
  by (simp add: handleClose_def close_conn_def set_conn_def set_read_def set_write_def Let_def)

definition server_handleClose ::
    "loop_ref option \<Rightarrow> nat \<Rightarrow> ('r, 'cb, 'k, 'h) server_sys \<Rightarrow> ('r, 'cb, 'k, 'h) server_sys" where
  "server_handleClose caller c s =
     (let conn = ss_conns s ! c;
          s1 = s\<lparr>ss_conns := (ss_conns s)[c := close_conn conn]\<rparr>
      in if \<not> tc_closing conn \<and> tc_close_callback conn then removeConnection caller c s1 else s1)"

text \<open>
  The functors, on the threads of their loops. \<open>Established\<close> hands the coroutine to the connection;
  what the coroutine does then is the business of the connection.
\<close>

fun run_server_task ::
    "'r uring_api \<Rightarrow> 'k kernel \<Rightarrow> loop_ref \<Rightarrow> server_task \<Rightarrow> ('r, 'cb, 'k, 'h) server_sys \<Rightarrow>
     ('r, 'cb, 'k, 'h) server_sys outcome" where
  "run_server_task U K here StartListening s = acceptor_listen U K s"
| "run_server_task U K here (EstablishConnection c) s =
     Inr (s\<lparr>ss_conns := (ss_conns s)[c := (ss_conns s ! c)\<lparr>tc_task := True, tc_done := False\<rparr>]\<rparr>)"
| "run_server_task U K here (RemoveConnection c) s = Inr (removeConnectionInLoop c s)"
| "run_server_task U K here (DestroyedConnection c) s = Inr (server_handleClose (Some here) c s)"

end
