(* ===== verification/Server_Correctness.thy ===== *)
theory Server_Correctness
  imports Tcp_Server
begin

text \<open>
  What the server keeps in order, whatever its clients, its connections and the kernel do: the
  accept request, the names of the connections, the table of open connections and the loops they
  run on.
\<close>

section \<open>The runs of a server\<close>

text \<open>What happens inside a connection leaves its identity and its closing alone.\<close>

definition conn_keeps :: "'h tcp_connection \<Rightarrow> 'h tcp_connection \<Rightarrow> bool" where
  "conn_keeps c c' \<longleftrightarrow>
     tc_number c' = tc_number c \<and> tc_name c' = tc_name c \<and> tc_closing c' = tc_closing c \<and>
     tc_close_callback c' = tc_close_callback c"

text \<open>
  The steps: an accept completion, a functor of the base loop or of a sub-loop, an action inside a
  connection, the closing of a connection on its loop, and other activity of the loops and the
  kernel.
\<close>

inductive server_step ::
    "'r uring_api \<Rightarrow> 'k kernel \<Rightarrow> ('r, 'cb, 'k, 'h) server_sys \<Rightarrow> ('r, 'cb, 'k, 'h) server_sys \<Rightarrow> bool"
  for U K where
  accept: "0 < as_accepts s \<Longrightarrow>
    accept_on_completion U K (newConnection K) (accept_delivered res fl s) = Inr s' \<Longrightarrow>
    server_step U K s s'"
| base_task: "lp_pending (as_loop s) = t # ts \<Longrightarrow>
    run_server_task U K BaseLoop t (s\<lparr>as_loop := (as_loop s)\<lparr>lp_pending := ts\<rparr>\<rparr>) = Inr s' \<Longrightarrow>
    server_step U K s s'"
| sub_task: "i < length (ss_loops s) \<Longrightarrow> lp_pending (ss_loops s ! i) = t # ts \<Longrightarrow>
    run_server_task U K (SubLoop i) t
      (s\<lparr>ss_loops := (ss_loops s)[i := (ss_loops s ! i)\<lparr>lp_pending := ts\<rparr>]\<rparr>) = Inr s' \<Longrightarrow>
    server_step U K s s'"
| connection: "c < length (ss_conns s) \<Longrightarrow> conn_keeps (ss_conns s ! c) conn \<Longrightarrow>
    server_step U K s (s\<lparr>ss_conns := (ss_conns s)[c := conn]\<rparr>)"
| close: "c < length (ss_conns s) \<Longrightarrow>
    server_step U K s (server_handleClose (Some (ss_conn_loops s ! c)) c s)"
| base_loop: "lp_pending l = lp_pending (as_loop s) \<Longrightarrow> lp_low_water l = lp_low_water (as_loop s) \<Longrightarrow>
    server_step U K s (s\<lparr>as_loop := l\<rparr>)"
| sub_loop: "i < length (ss_loops s) \<Longrightarrow> lp_pending l = lp_pending (ss_loops s ! i) \<Longrightarrow>
    server_step U K s (s\<lparr>ss_loops := (ss_loops s)[i := l]\<rparr>)"
| kernel: "server_step U K s (s\<lparr>as_os := w\<rparr>)"

section \<open>The invariant\<close>

text \<open>The name of the \<open>n\<close>-th connection.\<close>

definition nth_conn_name :: "tcp_server \<Rightarrow> nat \<Rightarrow> string" where
  "nth_conn_name sv n =
     sv_name sv @ CHR ''-'' # sv_ip_port sv @ CHR ''#'' # dec_int (sint (of_nat (n + 1) :: 32 word))"

definition names_inv :: "('r, 'cb, 'k, 'h) server_sys \<Rightarrow> bool" where
  "names_inv s \<longleftrightarrow>
     length (sv_ip_port (ss_server s)) \<le> 21 \<and>
     sv_next_conn_id (ss_server s) = of_nat (length (ss_conns s) + 1) \<and>
     (\<forall>c < length (ss_conns s).
        tc_name (ss_conns s ! c) = nth_conn_name (ss_server s) c \<and> tc_close_callback (ss_conns s ! c))"

text \<open>
  The table: a connection is in it under its name unless it has been closed and the functor that
  removes it has run.
\<close>

definition table_inv :: "('r, 'cb, 'k, 'h) server_sys \<Rightarrow> bool" where
  "table_inv s \<longleftrightarrow>
     distinct (map fst (sv_map (ss_server s))) \<and>
     (\<forall>(nm, c) \<in> set (sv_map (ss_server s)).
        c < length (ss_conns s) \<and> nm = tc_name (ss_conns s ! c) \<and>
        (tc_closing (ss_conns s ! c) \<longrightarrow> RemoveConnection c \<in> set (lp_pending (as_loop s)))) \<and>
     (\<forall>c < length (ss_conns s). \<not> tc_closing (ss_conns s ! c) \<longrightarrow>
        (tc_name (ss_conns s ! c), c) \<in> set (sv_map (ss_server s))) \<and>
     (\<forall>c. RemoveConnection c \<in> set (lp_pending (as_loop s)) \<longrightarrow>
        c < length (ss_conns s) \<and> tc_closing (ss_conns s ! c))"

definition loops_inv :: "('r, 'cb, 'k, 'h) server_sys \<Rightarrow> bool" where
  "loops_inv s \<longleftrightarrow>
     pool_inv (sv_pool (ss_server s)) \<and> pl_base (sv_pool (ss_server s)) = BaseLoop \<and>
     pl_loops (sv_pool (ss_server s)) = map SubLoop [0..<length (ss_loops s)] \<and>
     length (ss_conn_loops s) = length (ss_conns s)"

text \<open>
  The functors: they name connections that exist, and only the base loop listens and removes.
\<close>

fun task_conn :: "server_task \<Rightarrow> nat option" where
  "task_conn StartListening = None"
| "task_conn (EstablishConnection c) = Some c"
| "task_conn (RemoveConnection c) = Some c"
| "task_conn (DestroyedConnection c) = Some c"

definition task_ok :: "nat \<Rightarrow> server_task \<Rightarrow> bool" where
  "task_ok k t \<longleftrightarrow> (case task_conn t of None \<Rightarrow> True | Some c \<Rightarrow> c < k)"

definition sub_task_ok :: "nat \<Rightarrow> server_task \<Rightarrow> bool" where
  "sub_task_ok k t \<longleftrightarrow> task_ok k t \<and> t \<noteq> StartListening \<and> (\<forall>c. t \<noteq> RemoveConnection c)"

definition tasks_ok :: "('r, 'cb, 'k, 'h) server_sys \<Rightarrow> bool" where
  "tasks_ok s \<longleftrightarrow>
     (\<forall>t \<in> set (lp_pending (as_loop s)). task_ok (length (ss_conns s)) t) \<and>
     (\<forall>l \<in> set (ss_loops s). \<forall>t \<in> set (lp_pending l). sub_task_ok (length (ss_conns s)) t)"

section \<open>Names\<close>

lemma sint32_inj: "sint (a :: 32 word) = sint b \<longleftrightarrow> a = b"
  by (metis signed_word_eqI)

lemma dec_int_eq: "dec_int i = dec_int j \<longleftrightarrow> i = j"
proof -
  have d: "dec m \<noteq> CHR ''-'' # dec n" for m n
    using dec_punctuation(4) [of m] by (metis list.set_intros(1))
  show ?thesis
    using d [of "nat i" "nat (- j)"] d [of "nat j" "nat (- i)"]
    by (auto simp: dec_int_def dec_inj nat_eq_iff)
qed

lemma nth_conn_name_inj:
  assumes "m < 2 ^ 32 - 1" and "n < 2 ^ 32 - 1"
  shows "nth_conn_name sv m = nth_conn_name sv n \<longleftrightarrow> m = n"
proof -
  have "(of_nat (m + 1) :: 32 word) = of_nat (n + 1) \<longleftrightarrow> m + 1 = n + 1"
    using assms by (intro of_nat_inj_small) simp_all
  then show ?thesis by (simp add: nth_conn_name_def dec_int_eq sint32_inj)
qed

lemma dec_int_length: "length (dec_int (sint (x :: 32 word))) \<le> 11"
proof -
  have b: "- (2 ^ 31) \<le> sint x" "sint x < 2 ^ 31"
    using sint_greater_eq [of x] sint_less [of x] by simp_all
  then have "nat (sint x) < 10 ^ Suc 9" "nat (- sint x) < 10 ^ Suc 9" by simp_all
  then show ?thesis using length_dec [of "nat (sint x)" 9] length_dec [of "nat (- sint x)" 9]
    by (simp add: dec_int_def)
qed

lemma conn_suffix_full:
  assumes "length (sv_ip_port sv) \<le> 21"
  shows "conn_suffix sv = CHR ''-'' # sv_ip_port sv @ CHR ''#'' # dec_int (sint (sv_next_conn_id sv))"
  using assms dec_int_length [of "sv_next_conn_id sv"] by (simp add: conn_suffix_def)


section \<open>Queueing on a loop\<close>

lemma queueInLoop_fields [simp]:
  "lp_pending (queueInLoop b f l) = lp_pending l @ [f]" "lp_low_water (queueInLoop b f l) = lp_low_water l"
  by (simp_all add: queueInLoop_def queue_wake_def queue_push_def wakeUp_def)

lemma queue_on_fields [simp]:
  "ss_server (queue_on caller ref t s) = ss_server s" "ss_conns (queue_on caller ref t s) = ss_conns s"
  "ss_conn_loops (queue_on caller ref t s) = ss_conn_loops s"
  "as_acceptor (queue_on caller ref t s) = as_acceptor s" "as_os (queue_on caller ref t s) = as_os s"
  "as_accepts (queue_on caller ref t s) = as_accepts s"
  "length (ss_loops (queue_on caller ref t s)) = length (ss_loops s)"
  "lp_low_water (as_loop (queue_on caller ref t s)) = lp_low_water (as_loop s)"
  by (simp_all add: queue_on_def split: loop_ref.split)

lemma queue_on_pending [simp]:
  "set (lp_pending (as_loop (queue_on caller ref t s))) =
     (if ref = BaseLoop then insert t (set (lp_pending (as_loop s))) else set (lp_pending (as_loop s)))"
  by (auto simp: queue_on_def split: loop_ref.split)

lemma task_ok_Suc: "task_ok k t \<Longrightarrow> task_ok (Suc k) t" "sub_task_ok k t \<Longrightarrow> sub_task_ok (Suc k) t"
  by (auto simp: task_ok_def sub_task_ok_def split: option.splits)

lemma queue_on_tasks:
  assumes "tasks_ok s" and "sub_task_ok (length (ss_conns s)) t \<or> ref = BaseLoop \<and> task_ok (length (ss_conns s)) t"
  shows "tasks_ok (queue_on caller ref t s)"
proof (cases ref)
  case BaseLoop
  then show ?thesis using assms by (auto simp: tasks_ok_def queue_on_def sub_task_ok_def)
next
  case (SubLoop i)
  show ?thesis
  proof (cases "i < length (ss_loops s)")
    case True
    then have "ss_loops s ! i \<in> set (ss_loops s)" by simp
    then show ?thesis
      using assms SubLoop by (auto simp: tasks_ok_def queue_on_def dest!: set_update_subset_insert [THEN subsetD])
  next
    case False
    then show ?thesis using assms SubLoop by (simp add: tasks_ok_def queue_on_def list_update_beyond)
  qed
qed

section \<open>Making a connection\<close>

lemma newConnection_ok:
  fixes s :: "('r, 'cb, 'k, 'h) server_sys"
  assumes "names_inv s" and "loops_inv s" and "0 < fd"
  shows "\<exists>s' conn ioloop p. newConnection K fd peer s = Inr s' \<and>
    ss_conns s' = ss_conns s @ [conn] \<and>
    tc_name conn = nth_conn_name (ss_server s) (length (ss_conns s)) \<and> tc_sock_fd conn = fd \<and>
    tc_peer_addr conn = peer \<and> \<not> tc_closing conn \<and> tc_close_callback conn \<and>
    getNextLoop (sv_pool (ss_server s)) = Inr (ioloop, p) \<and>
    ss_conn_loops s' = ss_conn_loops s @ [ioloop] \<and>
    ss_server s' = (ss_server s)\<lparr>sv_pool := p, sv_next_conn_id := sv_next_conn_id (ss_server s) + 1,
      sv_map := AList.update (tc_name conn) (length (ss_conns s)) (sv_map (ss_server s))\<rparr> \<and>
    length (ss_loops s') = length (ss_loops s) \<and> accept_frame s s' \<and>
    (\<forall>t. (\<forall>c. t \<noteq> EstablishConnection c) \<longrightarrow>
       (t \<in> set (lp_pending (as_loop s')) \<longleftrightarrow> t \<in> set (lp_pending (as_loop s)))) \<and>
    (tasks_ok s \<longrightarrow> tasks_ok s')"
proof -
  let ?sv = "ss_server s"
  obtain ioloop p where p: "getNextLoop (sv_pool ?sv) = Inr (ioloop, p)"
    using getNextLoop_ok assms(2) unfolding loops_inv_def by fastforce
  have nm: "sv_name ?sv @ conn_suffix ?sv = nth_conn_name ?sv (length (ss_conns s))"
    using assms(1) conn_suffix_full [of ?sv] by (simp add: names_inv_def nth_conn_name_def)
  obtain r w where r: "sys K (SysGetsockname fd) (as_os s) = (r, w)" by fastforce
  obtain conn :: "'h tcp_connection" where conn:
    "TcpConnection (length (ss_conns s)) (sv_name ?sv @ conn_suffix ?sv) fd (rp_addr r) peer (4096 * 16) 16 (4096 * 16) = Inr conn"
    "tc_name conn = nth_conn_name ?sv (length (ss_conns s))" "tc_sock_fd conn = fd" "tc_peer_addr conn = peer"
    "\<not> tc_closing conn"
    using assms(3) nm by (simp add: TcpConnection_def WriteContext_def)
  let ?s1 = "s\<lparr>as_os := setKeepAlive K True (Socket fd) w,
    ss_server := ?sv\<lparr>sv_pool := p, sv_next_conn_id := sv_next_conn_id ?sv + 1,
      sv_map := AList.update (tc_name conn) (length (ss_conns s)) (sv_map ?sv)\<rparr>,
    ss_conns := ss_conns s @ [conn\<lparr>tc_close_callback := True\<rparr>],
    ss_conn_loops := ss_conn_loops s @ [ioloop]\<rparr>"
  let ?s' = "queue_on (Some BaseLoop) ioloop (EstablishConnection (length (ss_conns s))) ?s1"
  have "newConnection K fd peer s = Inr ?s'"
    using p nm r conn by (simp add: newConnection_def Let_def)
  moreover have "tasks_ok ?s'" if "tasks_ok s"
  proof (rule queue_on_tasks)
    show "tasks_ok ?s1" using that by (auto simp: tasks_ok_def intro: task_ok_Suc)
  qed (simp add: sub_task_ok_def task_ok_def)
  ultimately show ?thesis
    using p conn by (intro exI [of _ ?s'] exI [of _ "conn\<lparr>tc_close_callback := True\<rparr>"] exI [of _ ioloop] exI [of _ p])
      (auto simp: accept_frame_def)
qed

lemma next_loop_valid:
  assumes "loops_inv s" and "getNextLoop (sv_pool (ss_server s)) = Inr (ioloop, p)"
  shows "ioloop = BaseLoop \<or> (\<exists>i < length (ss_loops s). ioloop = SubLoop i)"
proof -
  let ?p = "sv_pool (ss_server s)"
  have inv: "pool_inv ?p" "pl_base ?p = BaseLoop" "pl_loops ?p = map SubLoop [0..<length (ss_loops s)]"
    using assms(1) by (simp_all add: loops_inv_def)
  have l: "ioloop = (if 0 < pl_num_threads ?p then pl_loops ?p ! nat (pl_next ?p) else BaseLoop)"
    using getNextLoop_ok [OF inv(1)] assms(2) inv(2) by auto
  show ?thesis
  proof (cases "0 < pl_num_threads ?p")
    case True
    then have "nat (pl_next ?p) < length (ss_loops s)" using inv(1,3) by (auto simp: pool_inv_def)
    then show ?thesis using l True inv(3) by simp
  qed (use l in simp)
qed

lemma newConnection_queued:
  assumes "newConnection K fd peer s = Inr s'" and "getNextLoop (sv_pool (ss_server s)) = Inr (ioloop, p)"
  shows "\<exists>s1. s' = queue_on (Some BaseLoop) ioloop (EstablishConnection (length (ss_conns s))) s1 \<and>
    ss_loops s1 = ss_loops s \<and> as_loop s1 = as_loop s"
proof -
  obtain r w where "sys K (SysGetsockname fd) (as_os s) = (r, w)" by fastforce
  with assms show ?thesis unfolding newConnection_def
    by (auto simp: Let_def outcome_iff)
qed

lemma update_fresh: "k \<notin> fst ` set al \<Longrightarrow> AList.update k v al = al @ [(k, v)]"
  by (induction al) auto

lemma delete_set: "set (AList.delete k al) = {x \<in> set al. fst x \<noteq> k}"
  by (auto simp: AList.delete_eq)

definition few :: "('r, 'cb, 'k, 'h) server_sys \<Rightarrow> bool" where
  "few s \<longleftrightarrow> length (ss_conns s) < 2 ^ 32"

lemma names_distinct:
  assumes "names_inv s" and "few s" and "c < length (ss_conns s)" and "d < length (ss_conns s)"
  shows "tc_name (ss_conns s ! c) = tc_name (ss_conns s ! d) \<longleftrightarrow> c = d"
  using assms nth_conn_name_inj [of c d "ss_server s"] by (simp add: names_inv_def few_def)

lemma newConnection_inv:
  assumes inv: "names_inv s" "loops_inv s" and fd: "0 < fd" and table: "few s \<Longrightarrow> table_inv s"
    and new: "newConnection K fd peer s = Inr s'"
  shows "names_inv s'" and "loops_inv s'" and "few s' \<Longrightarrow> table_inv s'"
proof -
  obtain conn ioloop p where s': "ss_conns s' = ss_conns s @ [conn]"
    "tc_name conn = nth_conn_name (ss_server s) (length (ss_conns s))"
    "\<not> tc_closing conn" "tc_close_callback conn"
    "getNextLoop (sv_pool (ss_server s)) = Inr (ioloop, p)"
    "ss_conn_loops s' = ss_conn_loops s @ [ioloop]"
    "ss_server s' = (ss_server s)\<lparr>sv_pool := p, sv_next_conn_id := sv_next_conn_id (ss_server s) + 1,
      sv_map := AList.update (tc_name conn) (length (ss_conns s)) (sv_map (ss_server s))\<rparr>"
    "length (ss_loops s') = length (ss_loops s)"
    and tasks: "tasks_ok s \<Longrightarrow> tasks_ok s'"
    and pend: "\<And>c. RemoveConnection c \<in> set (lp_pending (as_loop s')) \<longleftrightarrow>
       RemoveConnection c \<in> set (lp_pending (as_loop s))"
    using newConnection_ok [OF inv fd, of K peer] new by auto
  have nm: "nth_conn_name (ss_server s') = nth_conn_name (ss_server s)"
    using s'(7) by (simp add: nth_conn_name_def fun_eq_iff)
  show names: "names_inv s'"
    using inv(1) s'(1-4,7) nm by (auto simp: names_inv_def nth_append less_Suc_eq ac_simps)
  show "loops_inv s'"
    using inv(2) getNextLoop_ok [of "sv_pool (ss_server s)"] s'(1,5-8) by (auto simp: loops_inv_def)
  assume few: "few s'"
  then have t: "table_inv s" using table s'(1) by (simp add: few_def)
  let ?n = "length (ss_conns s)"
  have old: "ss_conns s' ! c = ss_conns s ! c" if "c < ?n" for c using that s'(1) by (simp add: nth_append)
  have "tc_name (ss_conns s' ! c) \<noteq> tc_name conn" if "c < ?n" for c
    using names_distinct [OF names few, of c ?n] that s'(1) by (simp add: nth_append)
  then have fresh: "tc_name conn \<notin> fst ` set (sv_map (ss_server s))"
    using t old by (force simp: table_inv_def)
  then have map': "sv_map (ss_server s') = sv_map (ss_server s) @ [(tc_name conn, ?n)]"
    using s'(7) by (simp add: update_fresh)
  have new: "ss_conns s' ! ?n = conn" "length (ss_conns s') = Suc ?n" using s'(1) by simp_all
  show "table_inv s'"
    unfolding table_inv_def map' pend new(2)
    using t fresh old new(1) s'(3) by (force simp: table_inv_def less_Suc_eq)
qed


section \<open>The accept path on the server\<close>

definition server_ok :: "('r, 'cb, 'k, 'h) server_sys \<Rightarrow> bool" where
  "server_ok s \<longleftrightarrow> names_inv s \<and> loops_inv s \<and> (few s \<longrightarrow> table_inv s) \<and> tasks_ok s"

lemma server_ok_cong:
  assumes "ss_server s' = ss_server s" and "ss_conns s' = ss_conns s" and "ss_conn_loops s' = ss_conn_loops s"
    and "ss_loops s' = ss_loops s" and "lp_pending (as_loop s') = lp_pending (as_loop s)"
  shows "server_ok s' = server_ok s"
  using assms by (simp only: server_ok_def names_inv_def loops_inv_def table_inv_def few_def tasks_ok_def)

text \<open>Once the server listens, no functor that starts to listen is left.\<close>

definition listening_ok :: "('r, 'cb, 'k, 'h) server_sys \<Rightarrow> bool" where
  "listening_ok s \<longleftrightarrow> server_ok s \<and> StartListening \<notin> set (lp_pending (as_loop s))"

lemma newConnection_handler:
  assumes "0 < fd" and "listening_ok s"
  shows "\<exists>s'. newConnection K fd a s = Inr s' \<and> accept_frame s s' \<and> listening_ok s'"
proof -
  have inv: "names_inv s" "loops_inv s" "few s \<Longrightarrow> table_inv s" "tasks_ok s"
    "StartListening \<notin> set (lp_pending (as_loop s))"
    using assms(2) by (simp_all add: server_ok_def listening_ok_def)
  obtain s' where s': "newConnection K fd a s = Inr s'" "accept_frame s s'" "tasks_ok s'"
    "StartListening \<notin> set (lp_pending (as_loop s'))"
    using newConnection_ok [OF inv(1,2) assms(1), of K a] inv(4,5) by (metis server_task.distinct(1))
  with newConnection_inv [OF inv(1,2) assms(1) inv(3) s'(1)] show ?thesis
    by (auto simp: server_ok_def listening_ok_def)
qed

lemma listening_ok_cong:
  assumes "ss_server s' = ss_server s" and "ss_conns s' = ss_conns s" and "ss_conn_loops s' = ss_conn_loops s"
    and "ss_loops s' = ss_loops s" and "lp_pending (as_loop s') = lp_pending (as_loop s)"
  shows "listening_ok s' = listening_ok s"
  using server_ok_cong [OF assms] assms(5) by (simp add: listening_ok_def)

interpretation server: connection_handler K listening_ok "newConnection K" for K :: "'k kernel"
  by unfold_locales (erule (1) newConnection_handler, (rule listening_ok_cong; simp)+)

section \<open>The other steps\<close>

lemma close_conn_fields [simp]:
  "tc_name (close_conn c) = tc_name c" "tc_close_callback (close_conn c) = tc_close_callback c"
  "tc_closing (close_conn c)"
  by (simp_all add: close_conn_def Let_def)

lemma names_inv_conn:
  assumes "names_inv s" and "tc_name conn = tc_name (ss_conns s ! c)"
    and "tc_close_callback conn = tc_close_callback (ss_conns s ! c)"
  shows "names_inv (s\<lparr>ss_conns := (ss_conns s)[c := conn]\<rparr>)"
  using assms by (auto simp: names_inv_def nth_list_update_if)

lemma table_inv_conn:
  assumes "table_inv s" and "tc_name conn = tc_name (ss_conns s ! c)"
    and "tc_closing conn = tc_closing (ss_conns s ! c)"
  shows "table_inv (s\<lparr>ss_conns := (ss_conns s)[c := conn]\<rparr>)"
  using assms by (auto simp: table_inv_def nth_list_update_if split: if_splits)

lemma server_ok_conn:
  assumes "server_ok s" and "tc_name conn = tc_name (ss_conns s ! c)"
    and "tc_close_callback conn = tc_close_callback (ss_conns s ! c)"
    and "tc_closing conn = tc_closing (ss_conns s ! c)"
  shows "server_ok (s\<lparr>ss_conns := (ss_conns s)[c := conn]\<rparr>)"
  using assms names_inv_conn [of s conn c] table_inv_conn [of s conn c]
  by (auto simp: server_ok_def loops_inv_def few_def tasks_ok_def)

text \<open>Removing a connection that is closed and whose removal need not run again.\<close>

lemma remove_inv:
  assumes "names_inv s" and "few s" and "c < length (ss_conns s)" and "tc_closing (ss_conns s ! c)"
    and "table_inv (s\<lparr>as_loop := l\<rparr>)"
    and "set (lp_pending l) = insert (RemoveConnection c) (set (lp_pending (as_loop s)))"
  shows "table_inv (removeConnectionInLoop c s)"
proof -
  have "tc_name (ss_conns s ! d) \<noteq> tc_name (ss_conns s ! c)" if "d < length (ss_conns s)" "d \<noteq> c" for d
    using names_distinct [OF assms(1,2)] that assms(3) by blast
  then have other: "tc_name (ss_conns s ! d) \<noteq> tc_name (ss_conns s ! c)"
    if "d < length (ss_conns s)" "\<not> tc_closing (ss_conns s ! d)" for d
    using that assms(4) by blast
  have t: "distinct (map fst (sv_map (ss_server s)))"
    "\<And>nm d. (nm, d) \<in> set (sv_map (ss_server s)) \<Longrightarrow> d < length (ss_conns s) \<and> nm = tc_name (ss_conns s ! d) \<and>
      (tc_closing (ss_conns s ! d) \<longrightarrow> d = c \<or> RemoveConnection d \<in> set (lp_pending (as_loop s)))"
    "\<And>d. d < length (ss_conns s) \<Longrightarrow> \<not> tc_closing (ss_conns s ! d) \<Longrightarrow>
      (tc_name (ss_conns s ! d), d) \<in> set (sv_map (ss_server s))"
    "\<And>d. RemoveConnection d \<in> set (lp_pending (as_loop s)) \<Longrightarrow> d < length (ss_conns s) \<and> tc_closing (ss_conns s ! d)"
    using assms(5,6) by (auto simp: table_inv_def)
  show ?thesis
    unfolding table_inv_def removeConnectionInLoop_def
    using t other by (auto simp: delete_set distinct_delete)
qed

text \<open>Queueing the removal, or running it at once on the base loop.\<close>

lemma removeConnection_inv:
  assumes "names_inv s" and "few s" and "c < length (ss_conns s)" and "tc_closing (ss_conns s ! c)"
    and "table_inv (s\<lparr>as_loop := (as_loop s)\<lparr>lp_pending := RemoveConnection c # lp_pending (as_loop s)\<rparr>\<rparr>)"
  shows "table_inv (removeConnection caller c s)"
proof (cases "caller = Some BaseLoop")
  case True
  then show ?thesis using remove_inv [OF assms] by (simp add: removeConnection_def)
next
  case False
  then show ?thesis using assms(5) by (simp add: removeConnection_def table_inv_def)
qed

lemma removeConnection_tasks:
  assumes "tasks_ok s" and "c < length (ss_conns s)"
  shows "tasks_ok (removeConnection caller c s)"
proof (cases "caller = Some BaseLoop")
  case True
  then show ?thesis using assms(1) by (simp add: removeConnection_def removeConnectionInLoop_def tasks_ok_def)
next
  case False
  then show ?thesis
    using queue_on_tasks [OF assms(1), of "RemoveConnection c" BaseLoop caller] assms(2)
    by (simp add: removeConnection_def task_ok_def)
qed

lemma removeConnection_fields [simp]:
  "ss_conns (removeConnection caller c s) = ss_conns s"
  "ss_conn_loops (removeConnection caller c s) = ss_conn_loops s"
  "length (ss_loops (removeConnection caller c s)) = length (ss_loops s)"
  "sv_pool (ss_server (removeConnection caller c s)) = sv_pool (ss_server s)"
  "names_inv (removeConnection caller c s) = names_inv s"
  "as_acceptor (removeConnection caller c s) = as_acceptor s"
  "as_accepts (removeConnection caller c s) = as_accepts s"
  "lp_low_water (as_loop (removeConnection caller c s)) = lp_low_water (as_loop s)"
  by (simp_all add: removeConnection_def removeConnectionInLoop_def names_inv_def nth_conn_name_def)

lemma close_inv:
  assumes "server_ok s" and "c < length (ss_conns s)"
  shows "server_ok (server_handleClose caller c s)"
proof -
  let ?s1 = "s\<lparr>ss_conns := (ss_conns s)[c := close_conn (ss_conns s ! c)]\<rparr>"
  have n1: "names_inv ?s1" using names_inv_conn [of s "close_conn (ss_conns s ! c)" c] assms(1)
    by (simp add: server_ok_def)
  have cb: "tc_close_callback (ss_conns s ! c)" using assms by (simp add: server_ok_def names_inv_def)
  have l1: "loops_inv ?s1" using assms(1) by (simp add: server_ok_def loops_inv_def)
  show ?thesis
  proof (cases "tc_closing (ss_conns s ! c)")
    case True
    then show ?thesis using server_ok_conn [OF assms(1), of "close_conn (ss_conns s ! c)" c]
      by (simp add: server_handleClose_def)
  next
    case False
    have "table_inv (removeConnection caller c ?s1)" if "few s"
    proof (rule removeConnection_inv [OF n1])
      have "table_inv s" using assms(1) that by (simp add: server_ok_def)
      then show "table_inv (?s1\<lparr>as_loop := (as_loop ?s1)\<lparr>lp_pending := RemoveConnection c # lp_pending (as_loop ?s1)\<rparr>\<rparr>)"
        using assms(2) by (auto simp: table_inv_def nth_list_update_if split: if_splits)
    qed (use that assms(2) in \<open>simp_all add: few_def\<close>)
    moreover have "tasks_ok (removeConnection caller c ?s1)"
    proof (rule removeConnection_tasks)
      show "tasks_ok ?s1" using assms(1) by (simp add: server_ok_def tasks_ok_def)
    qed (use assms(2) in simp)
    ultimately show ?thesis
      using False cb n1 l1 by (simp add: server_handleClose_def server_ok_def loops_inv_def few_def)
  qed
qed


section \<open>Preservation\<close>

definition listen_inv :: "('r, 'cb, 'k, 'h) server_sys \<Rightarrow> bool" where
  "listen_inv s \<longleftrightarrow>
     count_list (lp_pending (as_loop s)) StartListening \<le> 1 \<and>
     (StartListening \<in> set (lp_pending (as_loop s)) \<longrightarrow> \<not> ac_accepting (the_accept s))"

definition run_inv :: "('r, 'cb, 'k, 'h) server_sys \<Rightarrow> bool" where
  "run_inv s \<longleftrightarrow> accept_inv s \<and> server_ok s \<and> listen_inv s"

lemma run_inv_accept:
  assumes "uring_laws U queued handed n" and "run_inv s" and "0 < as_accepts s"
  shows "\<exists>s'. accept_on_completion U K (newConnection K) (accept_delivered res fl s) = Inr s' \<and> run_inv s'"
proof -
  have "ac_accepting (the_accept s)" using assms(2,3) by (auto simp: run_inv_def accept_inv_def split: if_splits)
  then have "listening_ok s" using assms(2) by (simp add: run_inv_def listen_inv_def listening_ok_def)
  with server.completion_ok [OF assms(1) _ this assms(3), of K res fl] assms(2) show ?thesis
    by (auto simp: run_inv_def listening_ok_def listen_inv_def)
qed

lemma acceptor_listen_result:
  assumes "acceptor_listen U K s = Inr s'"
  shows "\<exists>l a w. s' = s\<lparr>as_os := w, as_acceptor := a, as_loop := l, as_accepts := as_accepts s + 1\<rparr> \<and>
    lp_pending l = lp_pending (as_loop s) \<and> lp_low_water l = lp_low_water (as_loop s) \<and>
    ac_accepting (ap_context a) \<and> ac_acceptor (ap_context a)"
proof -
  let ?a = "(as_acceptor s)\<lparr>ap_listening := True,
    ap_context := (the_accept s)\<lparr>ac_acceptor := True, ac_accepting := True\<rparr>\<rparr>"
  from assms obtain w l where
    s': "s' = s\<lparr>as_os := w, as_acceptor := ?a, as_loop := l, as_accepts := as_accepts s + 1\<rparr>"
    and l: "submitAcceptMultishut U (ac_fd (the_accept s)) (AcceptCtx 0) (as_loop s) = Inr l"
    by (auto simp: acceptor_listen_def submitAccept_def Let_def outcome_iff set_accept_def)
  have "lp_low_water l = lp_low_water (as_loop s)"
    using l by (auto simp: submitAcceptMultishut_def submitAcceptMultishut_now_def submit_sqe_low_water split: if_splits)
  with s' submit_accept_pending [OF l] show ?thesis
    by (intro exI [of _ l] exI [of _ ?a] exI [of _ w]) simp
qed

text \<open>Taking a functor off a queue.\<close>

lemma dequeue_base:
  assumes "server_ok s" and "lp_pending (as_loop s) = t # ts" and "\<And>c. t \<noteq> RemoveConnection c"
  shows "server_ok (s\<lparr>as_loop := (as_loop s)\<lparr>lp_pending := ts\<rparr>\<rparr>)"
proof -
  have "RemoveConnection c \<in> set (lp_pending (as_loop s)) \<longleftrightarrow> RemoveConnection c \<in> set ts" for c
    using assms(2) assms(3) [of c] by auto
  then have "table_inv s \<Longrightarrow> table_inv (s\<lparr>as_loop := (as_loop s)\<lparr>lp_pending := ts\<rparr>\<rparr>)"
    by (simp add: table_inv_def)
  then show ?thesis using assms(1,2) by (auto simp: server_ok_def names_inv_def loops_inv_def few_def tasks_ok_def)
qed

lemma dequeue_sub:
  assumes "server_ok s" and "i < length (ss_loops s)" and "set (lp_pending l) \<subseteq> set (lp_pending (ss_loops s ! i))"
  shows "server_ok (s\<lparr>ss_loops := (ss_loops s)[i := l]\<rparr>)"
proof -
  have t: "tasks_ok s" using assms(1) by (simp add: server_ok_def)
  then have "\<forall>t \<in> set (lp_pending (ss_loops s ! i)). sub_task_ok (length (ss_conns s)) t"
    using nth_mem [OF assms(2)] by (auto simp: tasks_ok_def)
  then have "tasks_ok (s\<lparr>ss_loops := (ss_loops s)[i := l]\<rparr>)"
    using t assms(3) by (auto simp: tasks_ok_def dest!: set_update_subset_insert [THEN subsetD])
  then show ?thesis
    using assms(1) by (auto simp: server_ok_def names_inv_def loops_inv_def few_def table_inv_def)
qed

lemma run_server_task_inv:
  assumes "server_ok s" and "sub_task_ok (length (ss_conns s)) t" and "run_server_task U K here t s = Inr s'"
  shows "server_ok s'"
  using assms
  by (cases t) (auto simp: sub_task_ok_def task_ok_def intro!: server_ok_conn close_inv)

lemma server_handleClose_accept [simp]:
  "as_acceptor (server_handleClose caller c s) = as_acceptor s"
  "as_accepts (server_handleClose caller c s) = as_accepts s"
  "lp_low_water (as_loop (server_handleClose caller c s)) = lp_low_water (as_loop s)"
  "count_list (lp_pending (as_loop (server_handleClose caller c s))) StartListening =
     count_list (lp_pending (as_loop s)) StartListening"
  by (simp_all add: server_handleClose_def Let_def removeConnection_def removeConnectionInLoop_def queue_on_def)

lemma accept_inv_cong:
  assumes "as_acceptor s' = as_acceptor s" and "as_accepts s' = as_accepts s"
    and "lp_low_water (as_loop s') = lp_low_water (as_loop s)"
  shows "accept_inv s' = accept_inv s"
  using assms by (simp only: accept_inv_def)

lemma listen_inv_cong:
  assumes "as_acceptor s' = as_acceptor s"
    and "count_list (lp_pending (as_loop s')) StartListening \<le> count_list (lp_pending (as_loop s)) StartListening"
    and "listen_inv s"
  shows "listen_inv s'"
proof -
  have "StartListening \<in> set (lp_pending (as_loop s')) \<Longrightarrow> StartListening \<in> set (lp_pending (as_loop s))"
    using assms(2) by (metis count_notin le_zero_eq count_list_0_iff)
  then show ?thesis using assms by (auto simp: listen_inv_def)
qed


text \<open>\<open>removeConnectionInLoop\<close> taken from the queue of the base loop.\<close>

lemma server_ok_remove:
  assumes ok: "server_ok s" and pend: "lp_pending (as_loop s) = RemoveConnection c # ts"
    and s': "s' = removeConnectionInLoop c (s\<lparr>as_loop := (as_loop s)\<lparr>lp_pending := ts\<rparr>\<rparr>)"
  shows "server_ok s'"
proof -
  let ?s = "s\<lparr>as_loop := (as_loop s)\<lparr>lp_pending := ts\<rparr>\<rparr>"
  have "table_inv s'" if "few s"
  proof -
    have tb: "table_inv s" using that ok by (simp add: server_ok_def)
    have "c < length (ss_conns ?s)" "tc_closing (ss_conns ?s ! c)"
      using tb pend by (auto simp: table_inv_def)
    moreover have "names_inv ?s" "few ?s" using ok that by (simp_all add: server_ok_def names_inv_def few_def)
    ultimately show ?thesis
      unfolding s' using tb pend by (intro remove_inv [where l = "as_loop s"]) simp_all
  qed
  then show ?thesis using ok pend s'
    by (auto simp: server_ok_def names_inv_def loops_inv_def few_def tasks_ok_def removeConnectionInLoop_def
        nth_conn_name_def)
qed

lemma run_inv_base_task:
  assumes "run_inv s" and "lp_pending (as_loop s) = t # ts"
    and "run_server_task U K BaseLoop t (s\<lparr>as_loop := (as_loop s)\<lparr>lp_pending := ts\<rparr>\<rparr>) = Inr s'"
  shows "run_inv s'"
proof -
  let ?s = "s\<lparr>as_loop := (as_loop s)\<lparr>lp_pending := ts\<rparr>\<rparr>"
  have inv: "accept_inv ?s" "server_ok s" "listen_inv ?s"
    using assms(1) listen_inv_cong [of ?s s] assms(2) by (auto simp: run_inv_def accept_inv_def)
  have ok: "task_ok (length (ss_conns s)) t" using inv(2) assms(2) by (simp add: server_ok_def tasks_ok_def)
  show ?thesis
  proof (cases t)
    case StartListening
    then have s: "server_ok ?s" using dequeue_base [OF inv(2) assms(2)] by simp
    have "StartListening \<notin> set ts" "\<not> ac_accepting (the_accept s)" "as_accepts s = 0"
      using assms(1,2) StartListening by (auto simp: run_inv_def listen_inv_def accept_inv_def count_list_0_iff)
    moreover obtain l a w where r: "s' = ?s\<lparr>as_os := w, as_acceptor := a, as_loop := l, as_accepts := as_accepts ?s + 1\<rparr>"
      "lp_pending l = ts" "lp_low_water l = lp_low_water (as_loop s)" "ac_accepting (ap_context a)"
      "ac_acceptor (ap_context a)"
      using acceptor_listen_result [of U K ?s s'] assms(3) StartListening by auto
    moreover have "server_ok s'" using s server_ok_cong [of s' ?s] r(1,2) by simp
    ultimately show ?thesis using inv(1) by (simp add: run_inv_def accept_inv_def listen_inv_def)
  next
    case (EstablishConnection c)
    let ?c = "(ss_conns s ! c)\<lparr>tc_task := True, tc_done := False\<rparr>"
    have s': "s' = ?s\<lparr>ss_conns := (ss_conns ?s)[c := ?c]\<rparr>" using assms(3) EstablishConnection by simp
    have "server_ok s'" unfolding s'
      using dequeue_base [OF inv(2) assms(2)] EstablishConnection by (intro server_ok_conn) simp_all
    then show ?thesis using inv(1,3) s' by (simp add: run_inv_def accept_inv_def listen_inv_def)
  next
    case (RemoveConnection c)
    have s': "s' = removeConnectionInLoop c ?s" using assms(3) RemoveConnection by simp
    have "server_ok s'" using server_ok_remove [OF inv(2) _ s'] assms(2) RemoveConnection by simp
    then show ?thesis using inv(1,3) s' by (simp add: run_inv_def accept_inv_def listen_inv_def removeConnectionInLoop_def)
  next
    case (DestroyedConnection c)
    have s': "s' = server_handleClose (Some BaseLoop) c ?s" using assms(3) DestroyedConnection by simp
    have "server_ok s'" unfolding s'
      using dequeue_base [OF inv(2) assms(2)] DestroyedConnection ok by (intro close_inv) (simp_all add: task_ok_def)
    moreover have "accept_inv s'" unfolding s' using inv(1) by (subst accept_inv_cong [where s = ?s]) simp_all
    moreover have "listen_inv s'" unfolding s' using inv(3) by (rule listen_inv_cong [rotated 2]) simp_all
    ultimately show ?thesis by (simp add: run_inv_def)
  qed
qed

lemma run_inv_step:
  assumes laws: "uring_laws U queued handed n" and "server_step U K s s'" and "run_inv s"
  shows "run_inv s'"
  using assms(2,3)
proof (induction rule: server_step.induct)
  case (accept s res fl s')
  then show ?case using run_inv_accept [OF laws, of s K res fl] by auto
next
  case (base_task s t ts s')
  then show ?case using run_inv_base_task by blast
next
  case (sub_task i s t ts s')
  let ?s = "s\<lparr>ss_loops := (ss_loops s)[i := (ss_loops s ! i)\<lparr>lp_pending := ts\<rparr>]\<rparr>"
  have ok: "server_ok s" "accept_inv ?s" "listen_inv ?s"
    using sub_task.prems by (auto simp: run_inv_def accept_inv_def listen_inv_def)
  have "server_ok ?s"
    using sub_task.hyps(2) by (intro dequeue_sub [OF ok(1) sub_task.hyps(1)]) auto
  moreover have sub: "sub_task_ok (length (ss_conns ?s)) t"
    using ok(1) sub_task.hyps(2) nth_mem [OF sub_task.hyps(1)] by (fastforce simp: server_ok_def tasks_ok_def)
  ultimately have "server_ok s'" using run_server_task_inv sub_task.hyps(3) by blast
  moreover have "accept_inv s' \<and> listen_inv s'"
    using sub_task.hyps(3) sub ok(2,3) listen_inv_cong [of "server_handleClose (Some (SubLoop i)) _ ?s" ?s]
      accept_inv_cong [of "server_handleClose (Some (SubLoop i)) _ ?s" ?s]
    by (cases t) (auto simp: sub_task_ok_def accept_inv_def listen_inv_def)
  ultimately show ?case by (simp add: run_inv_def)
next
  case (connection c s conn)
  then show ?case using server_ok_conn [of s conn c]
    by (auto simp: run_inv_def conn_keeps_def accept_inv_def listen_inv_def)
next
  case (close c s)
  then show ?case
    using close_inv [of s c] listen_inv_cong [of "server_handleClose _ c s" s] accept_inv_cong [of "server_handleClose _ c s" s]
    by (simp add: run_inv_def)
next
  case (base_loop l s)
  then show ?case using server_ok_cong [of "s\<lparr>as_loop := l\<rparr>" s]
    by (simp add: run_inv_def accept_inv_def listen_inv_def)
next
  case (sub_loop i s l)
  then show ?case using dequeue_sub [of s i l]
    by (simp add: run_inv_def accept_inv_def listen_inv_def)
next
  case (kernel s w)
  then show ?case using server_ok_cong [of "s\<lparr>as_os := w\<rparr>" s]
    by (simp add: run_inv_def accept_inv_def listen_inv_def)
qed


section \<open>Starting the server\<close>

lemma start_threads_server:
  fixes s :: "('r, 'cb, 'k, 'h) server_sys"
  assumes "start_threads (start_sub_loop new_loop) i p s = (p', s')"
    and "pl_loops p = map SubLoop [0..<length (ss_loops s)]"
  shows "pl_loops p' = map SubLoop [0..<length (ss_loops s')] \<and>
    (\<exists>ls. s' = s\<lparr>ss_loops := ls\<rparr> \<and> set ls \<subseteq> insert new_loop (set (ss_loops s)))"
  using assms
proof (induction "start_sub_loop new_loop :: string \<Rightarrow> ('r, 'cb, 'k, 'h) server_sys \<Rightarrow> loop_ref \<times> ('r, 'cb, 'k, 'h) server_sys"
    i p s rule: start_threads.induct)
  case (1 i p s)
  show ?case
  proof (cases "i < pl_num_threads p")
    case True
    let ?p = "p\<lparr>pl_threads := pl_threads p @ [pl_name p @ dec_int i],
      pl_loops := pl_loops p @ [SubLoop (length (ss_loops s))]\<rparr>"
    let ?s = "s\<lparr>ss_loops := ss_loops s @ [new_loop]\<rparr>"
    have "start_threads (start_sub_loop new_loop) (i + 1) ?p ?s = (p', s')"
      using "1.prems"(1) True by (subst (asm) start_threads.simps) (simp add: start_sub_loop_def)
    from "1.hyps" [OF True refl start_sub_loop_def [symmetric] this] "1.prems"(2)
    show ?thesis by (auto simp: ac_simps)
  next
    case False
    then have "p' = p" "s' = s" using "1.prems"(1) by (simp_all add: start_threads.simps)
    then show ?thesis using "1.prems"(2) by (intro conjI exI [of _ "ss_loops s"]) auto
  qed
qed

lemma queue_listen_ok:
  assumes "server_ok s"
  shows "server_ok (queue_on caller BaseLoop StartListening s)"
proof -
  have "tasks_ok (queue_on caller BaseLoop StartListening s)"
    using assms by (intro queue_on_tasks) (simp_all add: server_ok_def task_ok_def)
  moreover have "table_inv s \<Longrightarrow> table_inv (queue_on caller BaseLoop StartListening s)"
    by (simp add: table_inv_def)
  ultimately show ?thesis
    using assms by (simp add: server_ok_def names_inv_def loops_inv_def few_def)
qed

text \<open>
  A server that has been constructed, given its number of threads and started once, with no thread
  initialisation callback set; the loops start with empty queues and a positive low-water mark.
\<close>

definition server_started ::
    "'r uring_api \<Rightarrow> 'k kernel \<Rightarrow> ('r, 'cb, 'k, 'h) server_sys \<Rightarrow> bool" where
  "server_started U K s \<longleftrightarrow>
     (\<exists>base_loop new_loop addr name reuse w s0 num s1 caller.
        TcpServer K base_loop addr name reuse w = Inr s0 \<and> setThreadNum num s0 = Inr s1 \<and>
        server_start U K new_loop None caller s1 = Inr s \<and>
        lp_pending base_loop = [] \<and> lp_pending new_loop = [] \<and> 0 < lp_low_water base_loop)"

text \<open>The server between the start of its threads and \<open>listen\<close>.\<close>

lemma server_started_cases:
  assumes "server_started U K s"
  obtains caller s3 where "server_ok s3" "lp_pending (as_loop s3) = []" "0 < lp_low_water (as_loop s3)"
    "as_accepts s3 = 0" "\<not> ac_accepting (the_accept s3)"
    "(if caller = Some BaseLoop then acceptor_listen U K s3
      else Inr (queue_on caller BaseLoop StartListening s3)) = Inr s"
proof -
  from assms obtain base_loop new_loop addr name reuse w s0 num s1 caller where
    s: "TcpServer K base_loop addr name reuse w = Inr s0" "setThreadNum num s0 = Inr s1"
      "server_start U K new_loop None caller s1 = Inr s" "lp_pending base_loop = []"
      "lp_pending new_loop = []" "0 < lp_low_water base_loop"
    unfolding server_started_def by blast
  have s0: "as_loop s0 = base_loop" "as_accepts s0 = 0" "\<not> ac_accepting (the_accept s0)"
    "ss_server s0 = \<lparr>sv_ip_port = toIpPort addr, sv_name = name,
      sv_pool = IoUringLoopThreadPool BaseLoop name, sv_map = [], sv_num_threads = 0,
      sv_started = 0, sv_next_conn_id = 1\<rparr>"
    "ss_loops s0 = []" "ss_conns s0 = []" "ss_conn_loops s0 = []"
    using s(1) by (auto simp: TcpServer_def Acceptor_def AcceptContext_def outcome_iff Let_def)
  obtain p0 where p0: "setNumThreads num (IoUringLoopThreadPool BaseLoop name) = Inr p0"
    "s1 = s0\<lparr>ss_server := (ss_server s0)\<lparr>sv_num_threads := num, sv_pool := p0\<rparr>\<rparr>"
    using s(2) s0(4) by (auto simp: setThreadNum_def outcome_iff)
  let ?s1 = "s1\<lparr>ss_server := (ss_server s1)\<lparr>sv_started := 1\<rparr>\<rparr>"
  obtain p s2 where p: "pool_start (start_sub_loop new_loop) None p0 ?s1 = (p, s2)" by fastforce
  then have th: "start_threads (start_sub_loop new_loop) 0 (p0\<lparr>pl_started := True\<rparr>) ?s1 = (p, s2)"
    by (auto simp: pool_start_def split: prod.splits)
  have "pl_loops p0 = []" using p0(1) by (auto simp: setNumThreads_def IoUringLoopThreadPool_def)
  then obtain ls where ls: "pl_loops p = map SubLoop [0..<length ls]" "s2 = ?s1\<lparr>ss_loops := ls\<rparr>"
    "set ls \<subseteq> {new_loop}"
    using start_threads_server [OF th] s0(5) p0(2) by auto
  let ?s3 = "s2\<lparr>ss_server := (ss_server s2)\<lparr>sv_pool := p\<rparr>\<rparr>"
  have ok: "server_ok ?s3"
    using s0 p0(2) ls pool_start_inv [OF p0(1) p] s(4,5) toIpPort_length [of addr]
    by (auto simp: server_ok_def names_inv_def loops_inv_def table_inv_def tasks_ok_def)
  have "sv_started (ss_server s1) = 0" "sv_pool (ss_server s1) = p0" using p0(2) s0(4) by simp_all
  then have "(if caller = Some BaseLoop then acceptor_listen U K ?s3
      else Inr (queue_on caller BaseLoop StartListening ?s3)) = Inr s"
    using s(3) p by (simp add: server_start_def Let_def split: if_splits)
  moreover have "lp_pending (as_loop ?s3) = []" "0 < lp_low_water (as_loop ?s3)" "as_accepts ?s3 = 0"
    "\<not> ac_accepting (the_accept ?s3)"
    using s0 p0(2) ls(2) s(4,6) by simp_all
  ultimately show thesis using ok that by blast
qed

lemma run_inv_started:
  assumes "server_started U K s"
  shows "run_inv s"
proof -
  obtain caller s3 where s3: "server_ok s3" "lp_pending (as_loop s3) = []" "0 < lp_low_water (as_loop s3)"
    "as_accepts s3 = 0" "\<not> ac_accepting (the_accept s3)"
    and st: "(if caller = Some BaseLoop then acceptor_listen U K s3
      else Inr (queue_on caller BaseLoop StartListening s3)) = Inr s"
    using server_started_cases [OF assms] .
  show ?thesis
  proof (cases "caller = Some BaseLoop")
    case True
    then obtain l a w where "s = s3\<lparr>as_os := w, as_acceptor := a, as_loop := l, as_accepts := as_accepts s3 + 1\<rparr>"
      "lp_pending l = []" "0 < lp_low_water l" "ac_accepting (ap_context a)" "ac_acceptor (ap_context a)"
      using acceptor_listen_result [of U K s3 s] st s3(2,3) by auto
    then show ?thesis using s3 server_ok_cong [of s s3]
      by (simp add: run_inv_def accept_inv_def listen_inv_def)
  next
    case False
    then have "s = queue_on caller BaseLoop StartListening s3" using st by simp
    moreover from this have "accept_inv s" "listen_inv s"
      using s3(2-5) by (simp_all add: accept_inv_def listen_inv_def queue_on_def)
    ultimately show ?thesis using queue_listen_ok [OF s3(1)] by (simp add: run_inv_def)
  qed
qed


definition server_reachable ::
    "'r uring_api \<Rightarrow> 'k kernel \<Rightarrow> ('r, 'cb, 'k, 'h) server_sys \<Rightarrow> bool" where
  "server_reachable U K s \<longleftrightarrow> (\<exists>s0. server_started U K s0 \<and> (server_step U K)\<^sup>*\<^sup>* s0 s)"

lemma server_reachable_inv:
  assumes "uring_laws U queued handed n" and "server_reachable U K s"
  shows "run_inv s"
proof -
  obtain s0 where "server_started U K s0" "(server_step U K)\<^sup>*\<^sup>* s0 s"
    using assms(2) by (auto simp: server_reachable_def)
  from this(2) show ?thesis
  proof induction
    case base
    show ?case using \<open>server_started U K s0\<close> by (rule run_inv_started)
  next
    case (step y z)
    then show ?case using run_inv_step [OF assms(1)] by blast
  qed
qed

section \<open>What the server guarantees\<close>

text \<open>
  C7 The table of connections is exact: in every reachable state in which fewer than \<open>2\<^sup>3\<^sup>2\<close> connections
  have been made, no two connections have the same name, every connection that is not closing is found
  under its name, and an entry of the table is a connection that is open or whose removal is queued
  on the base loop.
\<close>

theorem connection_table_exact:
  assumes "uring_laws U queued handed n" and "server_reachable U K s" and "length (ss_conns s) < 2 ^ 32"
  shows "distinct (map tc_name (ss_conns s)) \<and>
    (\<forall>c < length (ss_conns s). \<not> tc_closing (ss_conns s ! c) \<longrightarrow>
      map_of (sv_map (ss_server s)) (tc_name (ss_conns s ! c)) = Some c) \<and>
    (\<forall>name c. map_of (sv_map (ss_server s)) name = Some c \<longrightarrow>
      c < length (ss_conns s) \<and> name = tc_name (ss_conns s ! c) \<and>
      (tc_closing (ss_conns s ! c) \<longrightarrow> RemoveConnection c \<in> set (lp_pending (as_loop s))))"
proof (intro conjI allI impI)
  have inv: "names_inv s" "table_inv s" "few s"
    using server_reachable_inv [OF assms(1,2)] assms(3) by (auto simp: run_inv_def server_ok_def few_def)
  show "distinct (map tc_name (ss_conns s))"
    using names_distinct [OF inv(1,3)] by (auto simp: distinct_conv_nth)
  show "map_of (sv_map (ss_server s)) (tc_name (ss_conns s ! c)) = Some c"
    if "c < length (ss_conns s)" "\<not> tc_closing (ss_conns s ! c)" for c
    using inv(2) that by (auto simp: table_inv_def intro: map_of_is_SomeI)
  fix name c
  assume m: "map_of (sv_map (ss_server s)) name = Some c"
  then show "c < length (ss_conns s)" "name = tc_name (ss_conns s ! c)"
    using inv(2) map_of_SomeD [OF m] by (auto simp: table_inv_def)
  show "RemoveConnection c \<in> set (lp_pending (as_loop s))" if "tc_closing (ss_conns s ! c)"
    using inv(2) map_of_SomeD [OF m] that by (auto simp: table_inv_def)
qed

text \<open>
  C22 The server keeps one accept request outstanding: in every reachable state there is at most one,
  there is one exactly while \<open>is_accepting_\<close> is set, and its completion, whatever the result, runs
  without a fault; after a successful one a request is outstanding again.
\<close>

theorem accept_stays_armed:
  assumes "uring_laws U queued handed n" and "server_reachable U K s"
  shows "as_accepts s = (if ac_accepting (the_accept s) then 1 else 0) \<and>
    (ac_accepting (the_accept s) \<longrightarrow>
      (\<exists>s'. accept_on_completion U K (newConnection K) (accept_delivered res fl s) = Inr s' \<and>
        (0 \<le> res \<longrightarrow> as_accepts s' = 1)))"
proof (intro conjI impI)
  have inv: "run_inv s" by (rule server_reachable_inv [OF assms])
  then show a: "as_accepts s = (if ac_accepting (the_accept s) then 1 else 0)"
    by (simp add: run_inv_def accept_inv_def)
  assume acc: "ac_accepting (the_accept s)"
  then have ok: "accept_inv s" "listening_ok s" "0 < as_accepts s"
    using inv a by (auto simp: run_inv_def listening_ok_def listen_inv_def)
  show "\<exists>s'. accept_on_completion U K (newConnection K) (accept_delivered res fl s) = Inr s' \<and>
      (0 \<le> res \<longrightarrow> as_accepts s' = 1)"
  proof (cases "0 \<le> res")
    case True
    from server.completion_success [OF assms(1) ok this, of K fl] show ?thesis by blast
  next
    case False
    with server.completion_ok [OF assms(1) ok, of K res fl] show ?thesis by blast
  qed
qed


text \<open>
  C26 An accepted connection is set up completely: in every reachable state a positive descriptor the
  kernel reports becomes the next connection, with the next name, in the table, on the loop that is
  next in turn, and the functor that starts its coroutine is the last one in the queue of that loop.
\<close>

theorem accepted_connection_set_up:
  assumes "uring_laws U queued handed n" and "server_reachable U K s" and "0 < fd"
    and "getNextLoop (sv_pool (ss_server s)) = Inr (ioloop, p)"
  shows "\<exists>s' conn. newConnection K fd peer s = Inr s' \<and> ss_conns s' = ss_conns s @ [conn] \<and>
    tc_sock_fd conn = fd \<and> tc_peer_addr conn = peer \<and>
    tc_name conn = nth_conn_name (ss_server s) (length (ss_conns s)) \<and>
    map_of (sv_map (ss_server s')) (tc_name conn) = Some (length (ss_conns s)) \<and>
    ss_conn_loops s' = ss_conn_loops s @ [ioloop] \<and>
    (case ioloop of
       BaseLoop \<Rightarrow> last (lp_pending (as_loop s')) = EstablishConnection (length (ss_conns s))
     | SubLoop i \<Rightarrow> i < length (ss_loops s') \<and>
         last (lp_pending (ss_loops s' ! i)) = EstablishConnection (length (ss_conns s)))"
proof -
  have inv: "names_inv s" "loops_inv s"
    using server_reachable_inv [OF assms(1,2)] by (auto simp: run_inv_def server_ok_def)
  obtain s' conn p' where s': "newConnection K fd peer s = Inr s'" "ss_conns s' = ss_conns s @ [conn]"
    "tc_name conn = nth_conn_name (ss_server s) (length (ss_conns s))" "tc_sock_fd conn = fd"
    "tc_peer_addr conn = peer" "ss_conn_loops s' = ss_conn_loops s @ [ioloop]"
    "sv_map (ss_server s') = AList.update (tc_name conn) (length (ss_conns s)) (sv_map (ss_server s))"
    using newConnection_ok [OF inv assms(3), of K peer] assms(4) by fastforce
  have "ioloop = BaseLoop \<or> (\<exists>i < length (ss_loops s). ioloop = SubLoop i)"
    by (rule next_loop_valid [OF inv(2) assms(4)])
  moreover obtain s1 where "s' = queue_on (Some BaseLoop) ioloop (EstablishConnection (length (ss_conns s))) s1"
    "ss_loops s1 = ss_loops s"
    using newConnection_queued [OF s'(1) assms(4)] by blast
  ultimately have "case ioloop of
       BaseLoop \<Rightarrow> last (lp_pending (as_loop s')) = EstablishConnection (length (ss_conns s))
     | SubLoop i \<Rightarrow> i < length (ss_loops s') \<and>
         last (lp_pending (ss_loops s' ! i)) = EstablishConnection (length (ss_conns s))"
    by (auto simp: queue_on_def)
  with s' show ?thesis by (intro exI [of _ s'] exI [of _ conn]) (simp add: update_conv')
qed

lemma server_handleClose_silent:
  "StartListening \<in> set (lp_pending (as_loop (server_handleClose caller c s))) \<longleftrightarrow>
     StartListening \<in> set (lp_pending (as_loop s))"
  by (simp add: server_handleClose_def Let_def removeConnection_def removeConnectionInLoop_def queue_on_def)

text \<open>While no request is outstanding and none is to be started, no step starts one.\<close>

lemma silent_step:
  assumes "server_step U K s s'" and "tasks_ok s" and "as_accepts s = 0"
    and "StartListening \<notin> set (lp_pending (as_loop s))"
  shows "as_accepts s' = 0 \<and> StartListening \<notin> set (lp_pending (as_loop s'))"
  using assms
proof (induction rule: server_step.induct)
  case (base_task s t ts s')
  then show ?case by (cases t) (auto simp: removeConnectionInLoop_def server_handleClose_silent)
next
  case (sub_task i s t ts s')
  have "sub_task_ok (length (ss_conns s)) t"
    using sub_task.prems(1) sub_task.hyps(2) nth_mem [OF sub_task.hyps(1)] by (fastforce simp: tasks_ok_def)
  then show ?case
    using sub_task.hyps(3) sub_task.prems(2,3)
    by (cases t) (auto simp: sub_task_ok_def server_handleClose_silent)
qed (auto simp: server_handleClose_silent)

text \<open>
  C40 Accepting stops for good after one error: when an accept request ends with an error, such as
  running out of file descriptors, no request is outstanding, and no accept completion can happen
  in any later state, although the log calls it a pause.
\<close>

theorem accept_error_is_final:
  assumes "uring_laws U queued handed n" and "server_reachable U K s" and "0 < as_accepts s"
    and "\<not> cqe_has_more fl" and "res < 0"
  shows "\<exists>s'. accept_on_completion U K (newConnection K) (accept_delivered res fl s) = Inr s' \<and>
    (\<forall>t. (server_step U K)\<^sup>*\<^sup>* s' t \<longrightarrow> as_accepts t = 0)"
proof -
  have inv: "run_inv s" by (rule server_reachable_inv [OF assms(1,2)])
  then have acc: "ac_accepting (the_accept s)" using assms(3) by (auto simp: run_inv_def accept_inv_def split: if_splits)
  then have ok: "accept_inv s" "listening_ok s" using inv by (auto simp: run_inv_def listening_ok_def listen_inv_def)
  obtain s' where s': "accept_on_completion U K (newConnection K) (accept_delivered res fl s) = Inr s'"
    "accept_inv s'" "listening_ok s'" "as_accepts s' = 0"
    using server.completion_failure [OF ok assms(3,5), of U K fl] assms(4) by auto
  have "run_inv t \<and> as_accepts t = 0 \<and> StartListening \<notin> set (lp_pending (as_loop t))"
    if "(server_step U K)\<^sup>*\<^sup>* s' t" for t
    using that
  proof induction
    case base
    show ?case using s' by (auto simp: run_inv_def listening_ok_def listen_inv_def)
  next
    case (step y z)
    then show ?case
      using silent_step [of U K y z] run_inv_step [OF assms(1)] by (auto simp: run_inv_def server_ok_def)
  qed
  with s'(1) show ?thesis by blast
qed


section \<open>The destructor\<close>

lemma foldl_queue_sub:
  assumes "i < length (ss_loops s)" and "ss_conn_loops s ! c = SubLoop i"
    and "(\<exists>nm. (nm, c) \<in> set entries) \<or> DestroyedConnection c \<in> set (lp_pending (ss_loops s ! i))"
  shows "DestroyedConnection c \<in> set (lp_pending (ss_loops
    (foldl (\<lambda>t (_, c). queue_on caller (ss_conn_loops t ! c) (DestroyedConnection c) t) s entries) ! i))"
  using assms
proof (induction entries arbitrary: s)
  case (Cons e entries)
  obtain nm d where e: "e = (nm, d)" by fastforce
  let ?s = "queue_on caller (ss_conn_loops s ! d) (DestroyedConnection d) s"
  have "DestroyedConnection c \<in> set (lp_pending (ss_loops ?s ! i))"
    if "d = c \<or> DestroyedConnection c \<in> set (lp_pending (ss_loops s ! i))"
    using that Cons.prems(1,2) by (auto simp: queue_on_def nth_list_update_if split: loop_ref.split)
  then show ?case using Cons.IH [of ?s] Cons.prems e by auto
qed simp

text \<open>
  The destructor of the server leaves calls to the dead server behind: for every open connection on
  a sub-loop it queues the functor that closes the connection, and that functor calls the close
  callback, which queues \<open>removeConnectionInLoop\<close> of the destroyed server on the base loop.
\<close>

theorem destructor_leaves_callbacks:
  assumes "uring_laws U queued handed n" and "server_reachable U K s" and "length (ss_conns s) < 2 ^ 32"
    and "c < length (ss_conns s)" and "\<not> tc_closing (ss_conns s ! c)"
    and "ss_conn_loops s ! c = SubLoop i" and "i < length (ss_loops s)"
    and "ss_conns t ! c = ss_conns s ! c"
  shows "DestroyedConnection c \<in> set (lp_pending (ss_loops (server_destroy caller s) ! i))"
    and "\<exists>t'. run_server_task U K (SubLoop i) (DestroyedConnection c) t = Inr t' \<and>
      RemoveConnection c \<in> set (lp_pending (as_loop t'))"
proof -
  have inv: "names_inv s" "table_inv s"
    using server_reachable_inv [OF assms(1,2)] assms(3) by (auto simp: run_inv_def server_ok_def few_def)
  have "(tc_name (ss_conns s ! c), c) \<in> set (sv_map (ss_server s))"
    using inv(2) assms(4,5) by (simp add: table_inv_def)
  then show "DestroyedConnection c \<in> set (lp_pending (ss_loops (server_destroy caller s) ! i))"
    unfolding server_destroy_def using assms(6,7) by (intro foldl_queue_sub) auto
  have "tc_close_callback (ss_conns s ! c)" using inv(1) assms(4) by (simp add: names_inv_def)
  then show "\<exists>t'. run_server_task U K (SubLoop i) (DestroyedConnection c) t = Inr t' \<and>
      RemoveConnection c \<in> set (lp_pending (as_loop t'))"
    using assms(5,8) by (simp add: server_handleClose_def removeConnection_def)
qed

section \<open>A concrete server\<close>

definition demo_server_loop :: "(slots, unit) server_loop" where
  "demo_server_loop =
     \<lparr>lp_ring = ([], []), lp_looping = True, lp_quit = False, lp_time_out = kPollTimeS,
      lp_low_water = 1, lp_bgid = 3, lp_pending = [], lp_calling = False, lp_wakeup_fd = 9,
      lp_eventfd = 0, lp_waiting = [], lp_timers = TimerQueue\<rparr>"

lemma pool_num_update:
  "pl_num_threads (p\<lparr>pl_started := b, pl_threads := ns, pl_loops := ls\<rparr>) = pl_num_threads p"
  by simp

definition demo_peer :: sockaddr_in where
  "demo_peer = \<lparr>sin_family = AF_INET, sin_port = htons 4711, sin_addr = 0x0100007F\<rparr>"

lemma demo_server_started:
  "\<exists>s :: (slots, unit, nat, 'h) server_sys. server_started slot_ring demo_kernel s \<and> as_accepts s = 1 \<and>
     ap_callback (as_acceptor s) \<and> ss_conns s = [] \<and> pl_num_threads (sv_pool (ss_server s)) = 1 \<and>
     lp_pending (as_loop s) = [] \<and> map lp_pending (ss_loops s) = [[]]"
proof -
  let ?addr = "\<lparr>sin_family = AF_INET, sin_port = htons 80, sin_addr = 0\<rparr>"
  obtain s0 :: "(slots, unit, nat, 'h) server_sys" where
    s0: "TcpServer demo_kernel demo_server_loop ?addr ''echo'' False demo_os = Inr s0"
    "as_loop s0 = demo_server_loop" "ss_loops s0 = []" "as_accepts s0 = 0" "ap_callback (as_acceptor s0)" "ss_conns s0 = []"
    "sv_started (ss_server s0) = 0" "sv_pool (ss_server s0) = IoUringLoopThreadPool BaseLoop ''echo''"
    by (simp add: TcpServer_def Acceptor_def createNonBlocking_def AcceptContext_def bindAddress_def
        setReuseAddr_def setReusePort_def sys_def demo_kernel_def demo_os_def Let_def)
  obtain s1 where s1: "setThreadNum 1 s0 = Inr s1" "as_loop s1 = demo_server_loop" "as_accepts s1 = 0"
    "ap_callback (as_acceptor s1)" "ss_conns s1 = []" "sv_started (ss_server s1) = 0"
    "pl_num_threads (sv_pool (ss_server s1)) = 1" "ss_loops s1 = []"
    using s0(2-8) by (simp add: setThreadNum_def setNumThreads_def IoUringLoopThreadPool_def)
  let ?t = "s1\<lparr>ss_server := (ss_server s1)\<lparr>sv_started := 1\<rparr>\<rparr>"
  obtain p s2 where ps: "pool_start (start_sub_loop demo_server_loop) None (sv_pool (ss_server s1)) ?t = (p, s2)"
    by fastforce
  then have "p = (sv_pool (ss_server s1))\<lparr>pl_started := True, pl_threads := pl_threads p, pl_loops := pl_loops p\<rparr>"
    "s2 = ?t\<lparr>ss_loops := [demo_server_loop]\<rparr>"
    using s1(7,8) by (auto simp: pool_start_def start_threads.simps start_sub_loop_def)
  then have f: "s2 = ?t\<lparr>ss_loops := [demo_server_loop]\<rparr>" "pl_num_threads p = 1" using s1(7) by (simp, metis pool_num_update)
  let ?s2 = "s2\<lparr>ss_server := (ss_server s2)\<lparr>sv_pool := p\<rparr>\<rparr>"
  obtain w where w: "sock_listen demo_kernel (ap_socket (as_acceptor s1)) (as_os s1) = Inr w"
    by (simp add: sock_listen_def sys_def demo_kernel_def)
  let ?s3 = "set_accept (\<lambda>c. c\<lparr>ac_acceptor := True, ac_accepting := True\<rparr>)
    (?s2\<lparr>as_acceptor := (as_acceptor s1)\<lparr>ap_listening := True\<rparr>, as_os := w\<rparr>)"
  have "0 < lp_low_water (as_loop ?s3)" using s1(2) f(1) by (simp add: demo_server_loop_def)
  then obtain l where l: "submitAccept slot_ring ?s3 = Inr (?s3\<lparr>as_loop := l, as_accepts := as_accepts ?s3 + 1\<rparr>)"
    "lp_pending l = lp_pending (as_loop ?s3)"
    using submitAccept_ok [OF slot_ring_laws] by blast
  let ?s = "?s3\<lparr>as_loop := l, as_accepts := as_accepts ?s3 + 1\<rparr>"
  have "server_start slot_ring demo_kernel demo_server_loop None (Some BaseLoop) s1 = Inr ?s"
    using s1(6) ps l(1) w f(1) by (simp add: server_start_def acceptor_listen_def Let_def)
  then have "server_started slot_ring demo_kernel ?s"
    unfolding server_started_def using s0(1) s1(1) by (fastforce simp: demo_server_loop_def)
  moreover have "as_accepts ?s = 1 \<and> ap_callback (as_acceptor ?s) \<and> ss_conns ?s = [] \<and>
      pl_num_threads (sv_pool (ss_server ?s)) = 1 \<and> lp_pending (as_loop ?s) = [] \<and> map lp_pending (ss_loops ?s) = [[]]"
    using s1 f l(2) by (simp add: set_accept_def demo_server_loop_def)
  ultimately show ?thesis by (intro exI [of _ ?s] conjI) simp_all
qed


text \<open>The server after its first client has connected, on the only sub-loop.\<close>

lemma demo_server_connected:
  "\<exists>s :: (slots, unit, nat, 'h) server_sys. server_reachable slot_ring demo_kernel s \<and> as_accepts s = 1 \<and>
     length (ss_conns s) = 1 \<and> \<not> tc_closing (ss_conns s ! 0) \<and> ss_conn_loops s = [SubLoop 0] \<and>
     length (ss_loops s) = 1 \<and> lp_pending (as_loop s) = [] \<and> lp_pending (ss_loops s ! 0) = [EstablishConnection 0]"
proof -
  obtain s :: "(slots, unit, nat, 'h) server_sys" where s: "server_started slot_ring demo_kernel s"
    "as_accepts s = 1" "ap_callback (as_acceptor s)" "ss_conns s = []" "pl_num_threads (sv_pool (ss_server s)) = 1"
    and free: "lp_pending (as_loop s) = []" "map lp_pending (ss_loops s) = [[]]"
    using demo_server_started by (elim exE conjE)
  have inv: "run_inv s" using s(1) by (rule run_inv_started)
  let ?d = "accept_delivered 7 2 s"
  obtain r w where w: "sys demo_kernel (SysGetpeername 7) (as_os ?d) = (r, w)" by fastforce
  let ?d1 = "?d\<lparr>as_os := w\<rparr>"
  have more: "cqe_has_more 2" by (simp add: cqe_has_more_def)
  have fields: "ss_server ?d1 = ss_server s" "ss_conns ?d1 = ss_conns s" "ss_loops ?d1 = ss_loops s"
    "ss_conn_loops ?d1 = ss_conn_loops s" "as_accepts ?d1 = 1" "ap_callback (as_acceptor ?d1)"
    "ac_accepting (the_accept ?d1) = ac_accepting (the_accept s)" "ac_acceptor (the_accept ?d1) = ac_acceptor (the_accept s)"
    "ac_flags (the_accept ?d1) = 2" "ac_res (the_accept ?d) = 7"
    using s(2,3) more by (simp_all add: accept_delivered_def set_accept_def)
  have acc: "ac_accepting (the_accept s)" "ac_acceptor (the_accept s)"
    using inv s(2) by (cases "ac_accepting (the_accept s)"; simp add: run_inv_def accept_inv_def)+
  have ok: "names_inv s" "loops_inv s" using inv by (simp_all add: run_inv_def server_ok_def)
  have d: "names_inv ?d1" "loops_inv ?d1" "ss_conns ?d1 = []" "pl_num_threads (sv_pool (ss_server ?d1)) = 1"
    "ac_accepting (the_accept ?d1)" "ac_acceptor (the_accept ?d1)" "ap_callback (as_acceptor ?d1)"
    "ac_flags (the_accept ?d1) = 2" "ac_res (the_accept ?d) = 7" "as_accepts ?d1 = 1"
    using ok [unfolded names_inv_def loops_inv_def] acc s(4,5) fields(6) unfolding names_inv_def loops_inv_def fields by simp_all
  obtain s' conn ioloop p where s': "newConnection demo_kernel 7 (rp_addr r) ?d1 = Inr s'"
    "ss_conns s' = ss_conns ?d1 @ [conn]" "\<not> tc_closing conn"
    "getNextLoop (sv_pool (ss_server ?d1)) = Inr (ioloop, p)"
    "ss_conn_loops s' = ss_conn_loops ?d1 @ [ioloop]" "length (ss_loops s') = length (ss_loops ?d1)"
    "accept_frame ?d1 s'"
    using newConnection_ok [OF d(1,2) zero_less_numeral, of demo_kernel _ "rp_addr r"] by blast
  have "pl_next (sv_pool (ss_server ?d1)) = 0" "length (ss_loops ?d1) = 1"
    "pl_loops (sv_pool (ss_server ?d1)) = [SubLoop 0]" "ss_conn_loops ?d1 = []"
    using d(2-4) by (auto simp: loops_inv_def pool_inv_def)
  then have l: "ioloop = SubLoop 0" using s'(4) d(4) by (auto simp: getNextLoop_def)
  obtain t where t: "s' = queue_on (Some BaseLoop) (SubLoop 0) (EstablishConnection 0) t" "ss_loops t = ss_loops ?d1"
    "as_loop t = as_loop ?d1"
    using newConnection_queued [OF s'(1,4)] l d(3) by auto
  have queues: "lp_pending (as_loop s') = []" "lp_pending (ss_loops s' ! 0) = [EstablishConnection 0]"
    using free t fields(3) by (auto simp: queue_on_def accept_delivered_def set_accept_def)
  have "acceptor_handleRead demo_kernel (newConnection demo_kernel) 7 ?d = Inr s'"
    using w s'(1) d(7) by (simp add: acceptor_handleRead_def)
  moreover have "the_accept s' = the_accept ?d" "as_accepts s' = 1" using s'(7) d(10) by (auto simp: accept_frame_def)
  ultimately have "accept_on_completion slot_ring demo_kernel (newConnection demo_kernel) ?d = Inr s'"
    using d more by (simp add: accept_on_completion_def)
  then have "server_step slot_ring demo_kernel s s'" using s(2) by (intro server_step.accept) simp_all
  then have "server_reachable slot_ring demo_kernel s'" using s(1) by (auto simp: server_reachable_def)
  then show ?thesis
    using s'(2,3,5,6) d(3) l queues \<open>as_accepts s' = 1\<close> \<open>length (ss_loops ?d1) = 1\<close> \<open>ss_conn_loops ?d1 = []\<close>
    by (intro exI [of _ s']) simp
qed

theorem connection_table_exact_witness:
  "\<exists>s :: (slots, unit, nat, unit) server_sys. server_reachable slot_ring demo_kernel s \<and> length (ss_conns s) = 1 \<and>
     map_of (sv_map (ss_server s)) (tc_name (ss_conns s ! 0)) = Some 0"
proof -
  obtain s :: "(slots, unit, nat, unit) server_sys" where s: "server_reachable slot_ring demo_kernel s"
    "length (ss_conns s) = 1" "\<not> tc_closing (ss_conns s ! 0)"
    using demo_server_connected by blast
  with connection_table_exact [OF slot_ring_laws s(1)] show ?thesis by auto
qed

theorem accept_stays_armed_witness:
  "\<exists>(s :: (slots, unit, nat, unit) server_sys) s'. server_reachable slot_ring demo_kernel s \<and>
     accept_on_completion slot_ring demo_kernel (newConnection demo_kernel) (accept_delivered 9 0 s) = Inr s' \<and>
     as_accepts s' = 1"
proof -
  obtain s :: "(slots, unit, nat, unit) server_sys" where s: "server_reachable slot_ring demo_kernel s" "as_accepts s = 1"
    using demo_server_connected by blast
  have "ac_accepting (the_accept s)"
    using accept_stays_armed [OF slot_ring_laws s(1)] s(2)
    by (cases "ac_accepting (the_accept s)") simp_all
  with accept_stays_armed [OF slot_ring_laws s(1), of 9 0] s(1) show ?thesis by auto
qed

theorem accepted_connection_set_up_witness:
  "\<exists>(s :: (slots, unit, nat, unit) server_sys) s' conn. server_reachable slot_ring demo_kernel s \<and>
     newConnection demo_kernel 8 demo_peer s = Inr s' \<and> ss_conns s' = ss_conns s @ [conn] \<and> tc_sock_fd conn = 8"
proof -
  obtain s :: "(slots, unit, nat, unit) server_sys" where s: "server_reachable slot_ring demo_kernel s"
    using demo_server_connected by blast
  have "loops_inv s" using server_reachable_inv [OF slot_ring_laws s] by (simp add: run_inv_def server_ok_def)
  then obtain l p where "getNextLoop (sv_pool (ss_server s)) = Inr (l, p)"
    using getNextLoop_ok [of "sv_pool (ss_server s)"] by (auto simp: loops_inv_def)
  from accepted_connection_set_up [OF slot_ring_laws s zero_less_numeral this, of _ demo_peer] s
  show ?thesis by blast
qed

theorem accept_error_is_final_witness:
  "\<exists>(s :: (slots, unit, nat, unit) server_sys) s'. server_reachable slot_ring demo_kernel s \<and>
     accept_on_completion slot_ring demo_kernel (newConnection demo_kernel) (accept_delivered (- EMFILE) 0 s) = Inr s' \<and>
     as_accepts s' = 0"
proof -
  obtain s :: "(slots, unit, nat, unit) server_sys" where s: "server_reachable slot_ring demo_kernel s" "as_accepts s = 1"
    using demo_server_connected by blast
  have fl: "0 < as_accepts s" "\<not> cqe_has_more 0" "- EMFILE < 0"
    using s(2) by (simp_all add: EMFILE_def cqe_has_more_def)
  from accept_error_is_final [OF slot_ring_laws s(1) fl] s(1) show ?thesis by blast
qed

theorem destructor_leaves_callbacks_witness:
  "\<exists>s :: (slots, unit, nat, unit) server_sys. server_reachable slot_ring demo_kernel s \<and>
     DestroyedConnection 0 \<in> set (lp_pending (ss_loops (server_destroy None s) ! 0)) \<and>
     (\<exists>t'. run_server_task slot_ring demo_kernel (SubLoop 0) (DestroyedConnection 0) s = Inr t' \<and>
        RemoveConnection 0 \<in> set (lp_pending (as_loop t')))"
proof -
  obtain s :: "(slots, unit, nat, unit) server_sys" where s: "server_reachable slot_ring demo_kernel s"
    "length (ss_conns s) = 1" "\<not> tc_closing (ss_conns s ! 0)" "ss_conn_loops s = [SubLoop 0]" "length (ss_loops s) = 1"
    using demo_server_connected by blast
  from destructor_leaves_callbacks [OF slot_ring_laws s(1), of 0 0 s] s show ?thesis by auto
qed

end
