(* ===== verification/Thread_Pool.thy ===== *)
theory Thread_Pool
  imports Proactor_Prelude
begin

text \<open>
  \<open>ThreadPool\<close> and \<open>SwitchThreadAwaiter\<close> (src/ThreadPool.cc, include/ThreadPool.h): the worker threads,
  the mutex, the condition variable and the callers that enqueue coroutines, in every interleaving.
\<close>

section \<open>State\<close>

text \<open>
  Where a worker is in its function: before \<open>mtx_\<close> is taken, holding it before the predicate of
  \<open>cv_.wait\<close> is evaluated, holding it after the predicate was false, blocked, notified, running the
  coroutine it took, returned.
\<close>

datatype 'h worker =
    Begin | Check | Block | Asleep | Woken | Run 'h | Returned

record 'h thread_pool =
  tp_tasks :: "'h list"
  tp_started :: bool
  tp_max_size :: size_t
  tp_workers :: "'h worker list"
  tp_owner :: "nat option"

text \<open>\<open>tp_owner\<close>: the worker that holds \<open>mtx_\<close>.\<close>

definition ThreadPool :: "nat \<Rightarrow> size_t \<Rightarrow> 'h thread_pool" where
  "ThreadPool thread_num queue_size =
     \<lparr>tp_tasks = [], tp_started = True, tp_max_size = queue_size,
      tp_workers = replicate thread_num Begin, tp_owner = None\<rparr>"

definition set_worker :: "nat \<Rightarrow> 'h worker \<Rightarrow> 'h thread_pool \<Rightarrow> 'h thread_pool" where
  "set_worker i w p = p\<lparr>tp_workers := (tp_workers p)[i := w]\<rparr>"

section \<open>Operations\<close>

text \<open>\<open>enqueue\<close>: the append under the lock; the notification is a step of its own.\<close>

definition enqueue_push :: "'h \<Rightarrow> 'h thread_pool \<Rightarrow> 'h thread_pool" where
  "enqueue_push h p = p\<lparr>tp_tasks := tp_tasks p @ [h]\<rparr>"

definition notify_one :: "nat \<Rightarrow> 'h thread_pool \<Rightarrow> 'h thread_pool" where
  "notify_one i p = (if tp_workers p ! i = Asleep then set_worker i Woken p else p)"

fun woken :: "'h worker \<Rightarrow> 'h worker" where
  "woken Asleep = Woken"
| "woken w = w"

definition notify_all :: "'h thread_pool \<Rightarrow> 'h thread_pool" where
  "notify_all p = p\<lparr>tp_workers := map woken (tp_workers p)\<rparr>"

definition pool_stop :: "'h thread_pool \<Rightarrow> 'h thread_pool" where
  "pool_stop p = p\<lparr>tp_started := False\<rparr>"

definition isFull :: "'h thread_pool \<Rightarrow> bool" where
  "isFull p \<longleftrightarrow> tp_max_size p \<le> of_nat (length (tp_tasks p))"

text \<open>The predicate of \<open>cv_.wait\<close>, and the code behind the wait up to \<open>lock.unlock ()\<close>.\<close>

definition wait_pred :: "'h thread_pool \<Rightarrow> bool" where
  "wait_pred p \<longleftrightarrow> \<not> tp_started p \<or> tp_tasks p \<noteq> []"

definition worker_take :: "nat \<Rightarrow> 'h thread_pool \<Rightarrow> 'h thread_pool" where
  "worker_take i p =
     (if \<not> tp_started p \<and> tp_tasks p = [] then (set_worker i Returned p)\<lparr>tp_owner := None\<rparr>
      else (set_worker i (Run (hd (tp_tasks p))) (p\<lparr>tp_tasks := tl (tp_tasks p)\<rparr>))\<lparr>tp_owner := None\<rparr>)"

text \<open>\<open>SwitchThreadAwaiter\<close>: \<open>await_ready\<close> gives whether to go on without suspending, and \<open>success_\<close>.\<close>

definition switch_await_ready :: "'h thread_pool \<Rightarrow> bool \<times> bool" where
  "switch_await_ready p = (if isFull p then (True, False) else (False, True))"

definition switch_await_suspend :: "'h \<Rightarrow> 'h thread_pool \<Rightarrow> 'h thread_pool" where
  "switch_await_suspend h p = enqueue_push h p"

definition switch_await_resume :: "bool \<Rightarrow> bool" where
  "switch_await_resume success = success"

section \<open>Interleavings\<close>

text \<open>
  The pool with its callers: the coroutines between \<open>await_ready\<close> and \<open>await_suspend\<close>, the pending
  notifications of \<open>enqueue\<close>, whether the destructor has called \<open>notify_all\<close>, and what was enqueued,
  taken by a worker, and resumed, in order.
\<close>

record 'h pool_state =
  ps_pool :: "'h thread_pool"
  ps_suspending :: "'h list"
  ps_notifies :: nat
  ps_notified_all :: bool
  ps_queued :: "'h list"
  ps_taken :: "'h list"
  ps_resumed :: "'h list"

definition pool_init :: "nat \<Rightarrow> size_t \<Rightarrow> 'h pool_state" where
  "pool_init thread_num queue_size =
     \<lparr>ps_pool = ThreadPool thread_num queue_size, ps_suspending = [], ps_notifies = 0,
      ps_notified_all = False, ps_queued = [], ps_taken = [], ps_resumed = []\<rparr>"

abbreviation worker_at :: "'h pool_state \<Rightarrow> nat \<Rightarrow> 'h worker" where
  "worker_at s i \<equiv> tp_workers (ps_pool s) ! i"

inductive pool_step :: "'h pool_state \<Rightarrow> 'h pool_state \<Rightarrow> bool" where
  ready: "switch_await_ready (ps_pool s) = (False, b) \<Longrightarrow>
    pool_step s (s\<lparr>ps_suspending := ps_suspending s @ [h]\<rparr>)"
| suspend: "ps_suspending s = xs @ h # ys \<Longrightarrow> tp_owner (ps_pool s) = None \<Longrightarrow>
    pool_step s (s\<lparr>ps_pool := switch_await_suspend h (ps_pool s), ps_suspending := xs @ ys,
      ps_notifies := ps_notifies s + 1, ps_queued := ps_queued s @ [h]\<rparr>)"
| notify: "0 < ps_notifies s \<Longrightarrow> i < length (tp_workers (ps_pool s)) \<Longrightarrow>
    worker_at s i = Asleep \<or> (\<forall>j < length (tp_workers (ps_pool s)). worker_at s j \<noteq> Asleep) \<Longrightarrow>
    pool_step s (s\<lparr>ps_pool := notify_one i (ps_pool s), ps_notifies := ps_notifies s - 1\<rparr>)"
| stop_pool: "pool_step s (s\<lparr>ps_pool := pool_stop (ps_pool s)\<rparr>)"
| destroy: "\<not> tp_started (ps_pool s) \<Longrightarrow>
    pool_step s (s\<lparr>ps_pool := notify_all (ps_pool s), ps_notified_all := True\<rparr>)"
| lock: "i < length (tp_workers (ps_pool s)) \<Longrightarrow> worker_at s i = Begin \<or> worker_at s i = Woken \<Longrightarrow>
    tp_owner (ps_pool s) = None \<Longrightarrow>
    pool_step s (s\<lparr>ps_pool := (set_worker i Check (ps_pool s))\<lparr>tp_owner := Some i\<rparr>\<rparr>)"
| predicate_false: "i < length (tp_workers (ps_pool s)) \<Longrightarrow> worker_at s i = Check \<Longrightarrow>
    \<not> wait_pred (ps_pool s) \<Longrightarrow> pool_step s (s\<lparr>ps_pool := set_worker i Block (ps_pool s)\<rparr>)"
| block: "i < length (tp_workers (ps_pool s)) \<Longrightarrow> worker_at s i = Block \<Longrightarrow>
    pool_step s (s\<lparr>ps_pool := (set_worker i Asleep (ps_pool s))\<lparr>tp_owner := None\<rparr>\<rparr>)"
| spurious: "i < length (tp_workers (ps_pool s)) \<Longrightarrow> worker_at s i = Asleep \<Longrightarrow>
    pool_step s (s\<lparr>ps_pool := set_worker i Woken (ps_pool s)\<rparr>)"
| take_task: "i < length (tp_workers (ps_pool s)) \<Longrightarrow> worker_at s i = Check \<Longrightarrow> wait_pred (ps_pool s) \<Longrightarrow>
    pool_step s (s\<lparr>ps_pool := worker_take i (ps_pool s),
      ps_taken := ps_taken s @ take 1 (tp_tasks (ps_pool s))\<rparr>)"
| resume: "i < length (tp_workers (ps_pool s)) \<Longrightarrow> worker_at s i = Run h \<Longrightarrow>
    pool_step s (s\<lparr>ps_pool := set_worker i Returned (ps_pool s), ps_resumed := ps_resumed s @ [h]\<rparr>)"

definition pool_reachable :: "nat \<Rightarrow> size_t \<Rightarrow> 'h pool_state \<Rightarrow> bool" where
  "pool_reachable thread_num queue_size s \<longleftrightarrow> pool_step\<^sup>*\<^sup>* (pool_init thread_num queue_size) s"

section \<open>What the pool guarantees\<close>

text \<open>A worker that has taken a coroutine, and the one it is running.\<close>

fun has_taken :: "'h worker \<Rightarrow> bool" where
  "has_taken (Run h) = True"
| "has_taken Returned = True"
| "has_taken w = False"

definition tpool_inv :: "nat \<Rightarrow> 'h pool_state \<Rightarrow> bool" where
  "tpool_inv n s \<longleftrightarrow>
     length (tp_workers (ps_pool s)) = n \<and>
     ps_queued s = ps_taken s @ tp_tasks (ps_pool s) \<and>
     length (ps_taken s) \<le> length (filter has_taken (tp_workers (ps_pool s))) \<and>
     length (ps_resumed s) + length (filter (\<lambda>w. \<exists>h. w = Run h) (tp_workers (ps_pool s))) = length (ps_taken s)"

lemma length_filter_update:
  assumes "i < length xs"
  shows "length (filter P (xs[i := y])) + (if P (xs ! i) then 1 else 0) =
    length (filter P xs) + (if P y then 1 else 0)"
  by (subst (3) id_take_nth_drop [OF assms]) (simp add: upd_conv_take_nth_drop assms)

lemma tpool_inv_worker:
  assumes "tpool_inv n s" and "i < length (tp_workers (ps_pool s))"
    and "has_taken w = has_taken (worker_at s i)" and "(\<exists>h. w = Run h) = (\<exists>h. worker_at s i = Run h)"
  shows "tpool_inv n (s\<lparr>ps_pool := (set_worker i w (ps_pool s))\<lparr>tp_owner := ow\<rparr>\<rparr>)"
    and "tpool_inv n (s\<lparr>ps_pool := set_worker i w (ps_pool s)\<rparr>)"
  using assms length_filter_update [OF assms(2), of has_taken w]
    length_filter_update [OF assms(2), of "\<lambda>w. \<exists>h. w = Run h" w]
  by (auto simp: tpool_inv_def set_worker_def)


lemma tpool_inv_take:
  assumes "tpool_inv n s" and "i < length (tp_workers (ps_pool s))" and "worker_at s i = Check"
    and "wait_pred (ps_pool s)"
  shows "tpool_inv n (s\<lparr>ps_pool := worker_take i (ps_pool s), ps_taken := ps_taken s @ take 1 (tp_tasks (ps_pool s))\<rparr>)"
  using assms length_filter_update [OF assms(2), of has_taken Returned]
    length_filter_update [OF assms(2), of "\<lambda>w. \<exists>h. w = Run h" Returned]
    length_filter_update [OF assms(2), of has_taken "Run (hd (tp_tasks (ps_pool s)))"]
    length_filter_update [OF assms(2), of "\<lambda>w. \<exists>h. w = Run h" "Run (hd (tp_tasks (ps_pool s)))"]
  by (cases "tp_tasks (ps_pool s)") (auto simp: tpool_inv_def worker_take_def set_worker_def wait_pred_def)


lemma tpool_inv_notify_all:
  assumes "tpool_inv n s"
  shows "tpool_inv n (s\<lparr>ps_pool := notify_all (ps_pool s), ps_notified_all := True\<rparr>)"
proof -
  have "has_taken (woken w) = has_taken w" "(\<exists>h. woken w = Run h) = (\<exists>h. w = Run h)" for w :: "'a worker"
    by (cases w; simp)+
  then show ?thesis
    using assms by (simp add: tpool_inv_def notify_all_def filter_map comp_def)
qed

lemma tpool_inv_step: "pool_step s s' \<Longrightarrow> tpool_inv n s \<Longrightarrow> tpool_inv n s'"
proof (induction rule: pool_step.induct)
  case (notify s i)
  then show ?case
    using tpool_inv_worker(2) [of n s i Woken]
    by (cases "worker_at s i = Asleep") (auto simp: notify_one_def tpool_inv_def)
next
  case (destroy s)
  then show ?case using tpool_inv_notify_all by blast
next
  case (lock i s)
  then show ?case by (intro tpool_inv_worker) auto
next
  case (predicate_false i s)
  then show ?case by (intro tpool_inv_worker) auto
next
  case (block i s)
  then show ?case by (intro tpool_inv_worker) auto
next
  case (spurious i s)
  then show ?case by (intro tpool_inv_worker) auto
next
  case (take_task i s)
  then show ?case by (intro tpool_inv_take)
next
  case (resume i s h)
  then show ?case
    using length_filter_update [OF resume.hyps(1), of has_taken Returned]
      length_filter_update [OF resume.hyps(1), of "\<lambda>w. \<exists>h. w = Run h" Returned]
    by (auto simp: tpool_inv_def set_worker_def)
qed (auto simp: tpool_inv_def switch_await_suspend_def enqueue_push_def pool_stop_def)

interpretation tpool: step_invariant pool_step "tpool_inv n" for n
  by unfold_locales (rule tpool_inv_step)

lemma tpool_reachable_inv:
  assumes "pool_reachable n q s"
  shows "tpool_inv n s"
proof (rule tpool.inv_along_run)
  show "pool_step\<^sup>*\<^sup>* (pool_init n q) s" using assms by (simp add: pool_reachable_def)
  show "tpool_inv n (pool_init n q)" by (simp add: tpool_inv_def pool_init_def ThreadPool_def)
qed



section \<open>Runs that go wrong\<close>

text \<open>
  The destructor can wait for ever: \<open>stop\<close> stores \<open>started_\<close> without taking \<open>mtx_\<close>, so a worker that
  has just found it set goes to sleep after \<open>notify_all\<close> has been called; the join then waits for a
  thread nobody will notify.
\<close>

theorem destructor_can_hang:
  "\<exists>s :: 'h pool_state. pool_reachable 1 queue_size s \<and> \<not> tp_started (ps_pool s) \<and> ps_notified_all s \<and>
     tp_workers (ps_pool s) = [Asleep] \<and> ps_notifies s = 0"
proof -
  define s0 :: "'h pool_state" where "s0 = pool_init 1 queue_size"
  define s1 where "s1 = s0\<lparr>ps_pool := (set_worker 0 Check (ps_pool s0))\<lparr>tp_owner := Some 0\<rparr>\<rparr>"
  define s2 where "s2 = s1\<lparr>ps_pool := set_worker 0 Block (ps_pool s1)\<rparr>"
  define s3 where "s3 = s2\<lparr>ps_pool := pool_stop (ps_pool s2)\<rparr>"
  define s4 where "s4 = s3\<lparr>ps_pool := notify_all (ps_pool s3), ps_notified_all := True\<rparr>"
  define s5 where "s5 = s4\<lparr>ps_pool := (set_worker 0 Asleep (ps_pool s4))\<lparr>tp_owner := None\<rparr>\<rparr>"
  note d = s0_def s1_def s2_def s3_def s4_def s5_def pool_init_def ThreadPool_def set_worker_def
    pool_stop_def notify_all_def wait_pred_def
  have "pool_step s0 s1" unfolding s1_def by (rule pool_step.lock) (simp_all add: d)
  moreover have "pool_step s1 s2" unfolding s2_def by (rule pool_step.predicate_false) (simp_all add: d)
  moreover have "pool_step s2 s3" unfolding s3_def by (rule pool_step.stop_pool)
  moreover have "pool_step s3 s4" unfolding s4_def by (rule pool_step.destroy) (simp add: d)
  moreover have "pool_step s4 s5" unfolding s5_def by (rule pool_step.block) (simp_all add: d)
  ultimately have "pool_reachable 1 queue_size s5"
    unfolding pool_reachable_def s0_def [symmetric]
    by (meson converse_rtranclp_into_rtranclp rtranclp.rtrancl_refl)
  moreover have "\<not> tp_started (ps_pool s5) \<and> ps_notified_all s5 \<and> tp_workers (ps_pool s5) = [Asleep] \<and>
      ps_notifies s5 = 0"
    by (simp add: d)
  ultimately show ?thesis by blast
qed

lemma overfull_reachable:
  "\<exists>s :: 'h pool_state. pool_reachable thread_num 1 s \<and> tp_max_size (ps_pool s) = 1 \<and>
     length (tp_tasks (ps_pool s)) = 2"
proof -
  fix h :: 'h
  define s0 :: "'h pool_state" where "s0 = pool_init thread_num 1"
  define s1 where "s1 = s0\<lparr>ps_suspending := ps_suspending s0 @ [h]\<rparr>"
  define s2 where "s2 = s1\<lparr>ps_suspending := ps_suspending s1 @ [h]\<rparr>"
  define s3 where "s3 = s2\<lparr>ps_pool := switch_await_suspend h (ps_pool s2), ps_suspending := [] @ [h],
    ps_notifies := ps_notifies s2 + 1, ps_queued := ps_queued s2 @ [h]\<rparr>"
  define s4 where "s4 = s3\<lparr>ps_pool := switch_await_suspend h (ps_pool s3), ps_suspending := [] @ [],
    ps_notifies := ps_notifies s3 + 1, ps_queued := ps_queued s3 @ [h]\<rparr>"
  note d = s0_def s1_def s2_def s3_def s4_def pool_init_def ThreadPool_def switch_await_ready_def
    isFull_def switch_await_suspend_def enqueue_push_def
  have "pool_step s0 s1" unfolding s1_def by (rule pool_step.ready) (simp add: d)
  moreover have "pool_step s1 s2" unfolding s2_def by (rule pool_step.ready) (simp add: d)
  moreover have "pool_step s2 s3" unfolding s3_def by (rule pool_step.suspend) (simp_all add: d)
  moreover have "pool_step s3 s4" unfolding s4_def by (rule pool_step.suspend) (simp_all add: d)
  ultimately have "pool_reachable thread_num 1 s4"
    unfolding pool_reachable_def s0_def [symmetric]
    by (meson converse_rtranclp_into_rtranclp rtranclp.rtrancl_refl)
  moreover have "tp_max_size (ps_pool s4) = 1 \<and> length (tp_tasks (ps_pool s4)) = 2" by (simp add: d)
  ultimately show ?thesis by blast
qed

text \<open>
  The bound of the queue is not kept: \<open>await_ready\<close> looks at the length and \<open>await_suspend\<close> appends
  later, so two callers can both find room in a queue of size 1 and leave two coroutines in it.
\<close>

theorem queue_bound_exceeded:
  "\<exists>s :: 'h pool_state. pool_reachable thread_num 1 s \<and> tp_max_size (ps_pool s) = 1 \<and>
     length (tp_tasks (ps_pool s)) = 2"
  by (rule overfull_reachable)


end
