(* ===== verification/Coroutine_Task.thy ===== *)
theory Coroutine_Task
  imports Proactor_Prelude
begin

text \<open>
  \<open>Task<T>\<close> (include/Task.hpp): the owner of a coroutine frame. Frames live on a heap; the \<open>Task\<close>
  objects are variables of a store, so that an assignment of an object to itself is expressible. What
  the body of a coroutine does between two suspensions is a parameter.
\<close>

section \<open>Frames and tasks\<close>

record 'v frame =
  fr_curr :: 'v
  fr_ret :: 'v
  fr_done :: bool

record 'v task_store =
  st_frames :: "nat \<rightharpoonup> 'v frame"
  st_tasks :: "nat \<Rightarrow> nat option"

text \<open>Destroying, resuming or reading a frame that is not on the heap is a dangling access.\<close>

definition get_frame :: "nat \<Rightarrow> 'v task_store \<Rightarrow> 'v frame outcome" where
  "get_frame h s = (case st_frames s h of None \<Rightarrow> Inl NullDeref | Some f \<Rightarrow> Inr f)"

text \<open>
  Calling a coroutine: a new frame at the free address \<open>h\<close>, suspended before its body, and the \<open>Task\<close>
  of \<open>get_return_object\<close> in the variable \<open>x\<close>.
\<close>

definition task_create :: "nat \<Rightarrow> 'v \<Rightarrow> nat \<Rightarrow> 'v task_store \<Rightarrow> 'v task_store" where
  "task_create h v x s =
     s\<lparr>st_frames := (st_frames s)(h \<mapsto> \<lparr>fr_curr = v, fr_ret = v, fr_done = False\<rparr>),
       st_tasks := (st_tasks s)(x := Some h)\<rparr>"

definition task_destroy :: "nat \<Rightarrow> 'v task_store \<Rightarrow> 'v task_store outcome" where
  "task_destroy x s =
     (case st_tasks s x of
        None \<Rightarrow> Inr s
      | Some h \<Rightarrow> andThen (get_frame h s) (\<lambda>_.
          Inr (s\<lparr>st_frames := (st_frames s)(h := None), st_tasks := (st_tasks s)(x := None)\<rparr>)))"

text \<open>The move constructor makes the new variable \<open>x\<close>; the move assignment overwrites \<open>x\<close>.\<close>

definition task_move_init :: "nat \<Rightarrow> nat \<Rightarrow> 'v task_store \<Rightarrow> 'v task_store" where
  "task_move_init x other s =
     (let s1 = s\<lparr>st_tasks := (st_tasks s)(x := st_tasks s other)\<rparr>
      in s1\<lparr>st_tasks := (st_tasks s1)(other := None)\<rparr>)"

definition task_move_assign :: "nat \<Rightarrow> nat \<Rightarrow> 'v task_store \<Rightarrow> 'v task_store" where
  "task_move_assign this other s =
     (let s1 = s\<lparr>st_tasks := (st_tasks s)(this := st_tasks s other)\<rparr>
      in s1\<lparr>st_tasks := (st_tasks s1)(other := None)\<rparr>)"

text \<open>Resuming a coroutine at its final suspension is undefined, like resuming a null handle.\<close>

definition task_resume :: "('v frame \<Rightarrow> 'v frame) \<Rightarrow> nat \<Rightarrow> 'v task_store \<Rightarrow> 'v task_store outcome" where
  "task_resume body x s =
     (case st_tasks s x of
        None \<Rightarrow> Inl NullDeref
      | Some h \<Rightarrow> andThen (get_frame h s) (\<lambda>f.
          andThen (check (\<not> fr_done f) AssertFailed) (\<lambda>_.
            Inr (s\<lparr>st_frames := (st_frames s)(h \<mapsto> body f)\<rparr>))))"

text \<open>What a body does through its promise.\<close>

definition yield_value :: "'v \<Rightarrow> 'v frame \<Rightarrow> 'v frame" where
  "yield_value v f = f\<lparr>fr_curr := v\<rparr>"

definition return_value :: "'v \<Rightarrow> 'v frame \<Rightarrow> 'v frame" where
  "return_value v f = f\<lparr>fr_ret := v, fr_done := True\<rparr>"

definition currentValue :: "nat \<Rightarrow> 'v task_store \<Rightarrow> 'v outcome" where
  "currentValue x s =
     (case st_tasks s x of None \<Rightarrow> Inl NullDeref | Some h \<Rightarrow> andThen (get_frame h s) (\<lambda>f. Inr (fr_curr f)))"

definition returnValue :: "nat \<Rightarrow> 'v task_store \<Rightarrow> 'v outcome" where
  "returnValue x s =
     (case st_tasks s x of None \<Rightarrow> Inl NullDeref | Some h \<Rightarrow> andThen (get_frame h s) (\<lambda>f. Inr (fr_ret f)))"

section \<open>How a body ends\<close>

text \<open>
  What a coroutine does when it is resumed: it suspends in a \<open>co_await\<close>, yields, returns, or an
  exception leaves its body, one derived from \<open>std::exception\<close> with its \<open>what ()\<close> or any other.
\<close>

datatype 'v body_end = Awaits | Yields 'v | Returns 'v | Throws string | ThrowsOther

text \<open>
  \<open>unhandled_exception\<close>: the text written to \<open>std::cerr\<close>, and whether the exception leaves it, and so
  \<open>resume\<close>, because the handler does not match. In both cases the coroutine is at its final suspension.
\<close>

fun unhandled_exception :: "'v body_end \<Rightarrow> string \<times> bool" where
  "unhandled_exception (Throws what) = (what @ [CHR 0x0A], False)"
| "unhandled_exception ThrowsOther = ([], True)"
| "unhandled_exception _ = ([], False)"

fun body_frame :: "'v body_end \<Rightarrow> 'v frame \<Rightarrow> 'v frame" where
  "body_frame Awaits f = f"
| "body_frame (Yields v) f = yield_value v f"
| "body_frame (Returns v) f = return_value v f"
| "body_frame (Throws what) f = f\<lparr>fr_done := True\<rparr>"
| "body_frame ThrowsOther f = f\<lparr>fr_done := True\<rparr>"

text \<open>
  \<open>resume\<close> with such a body: the store, what was written to \<open>std::cerr\<close>, and whether the call throws.
\<close>

definition task_run ::
    "('v frame \<Rightarrow> 'v body_end) \<Rightarrow> nat \<Rightarrow> 'v task_store \<Rightarrow> ('v task_store \<times> string \<times> bool) outcome" where
  "task_run b x s =
     andThen (task_resume (\<lambda>f. body_frame (b f) f) x s) (\<lambda>s1.
       case st_tasks s x of
         None \<Rightarrow> Inl NullDeref
       | Some h \<Rightarrow> andThen (get_frame h s) (\<lambda>f. Inr (s1, unhandled_exception (b f))))"

text \<open>
  An exception derived from \<open>std::exception\<close> is swallowed: the caller of \<open>resume\<close> sees a task that has
  ended normally, and \<open>returnValue\<close> gives the value the frame was made with, whatever the coroutine
  was to compute. Any other exception leaves \<open>resume\<close>, and the task has ended too.
\<close>

lemma exception_ends_task:
  assumes "st_tasks s x = Some h" and "st_frames s h = Some f" and "\<not> fr_done f"
    and "b f = Throws what \<or> b f = ThrowsOther"
  shows "\<exists>s'. task_run b x s = Inr (s', unhandled_exception (b f)) \<and> returnValue x s' = Inr (fr_ret f) \<and>
    task_run b' x s' = Inl AssertFailed"
  using assms by (auto simp: task_run_def task_resume_def get_frame_def returnValue_def)

section \<open>Ownership\<close>

definition task_inv :: "'v task_store \<Rightarrow> bool" where
  "task_inv s \<longleftrightarrow>
     (\<forall>x h. st_tasks s x = Some h \<longrightarrow> h \<in> dom (st_frames s)) \<and>
     (\<forall>x y h. st_tasks s x = Some h \<longrightarrow> st_tasks s y = Some h \<longrightarrow> x = y)"

text \<open>Frames on the heap that no \<open>Task\<close> owns any more.\<close>

definition leaked :: "'v task_store \<Rightarrow> nat set" where
  "leaked s = dom (st_frames s) - ran (st_tasks s)"

text \<open>The operations, as a program may combine them; a new variable is one that holds nothing.\<close>

datatype 'v task_op =
    Create nat 'v nat
  | MoveInit nat nat
  | MoveAssign nat nat
  | Destroy nat
  | Resume "'v frame \<Rightarrow> 'v frame" nat

fun task_op_ok :: "'v task_op \<Rightarrow> 'v task_store \<Rightarrow> bool" where
  "task_op_ok (Create h v x) s \<longleftrightarrow> st_frames s h = None \<and> st_tasks s x = None"
| "task_op_ok (MoveInit x y) s \<longleftrightarrow> st_tasks s x = None"
| "task_op_ok (MoveAssign x y) s \<longleftrightarrow> True"
| "task_op_ok (Destroy x) s \<longleftrightarrow> True"
| "task_op_ok (Resume body x) s \<longleftrightarrow>
     (\<exists>h f. st_tasks s x = Some h \<and> st_frames s h = Some f \<and> \<not> fr_done f)"

fun task_exec :: "'v task_op \<Rightarrow> 'v task_store \<Rightarrow> 'v task_store outcome" where
  "task_exec (Create h v x) s = Inr (task_create h v x s)"
| "task_exec (MoveInit x y) s = Inr (task_move_init x y s)"
| "task_exec (MoveAssign x y) s = Inr (task_move_assign x y s)"
| "task_exec (Destroy x) s = task_destroy x s"
| "task_exec (Resume body x) s = task_resume body x s"

inductive task_reachable :: "'v task_store \<Rightarrow> bool" where
  start: "task_reachable \<lparr>st_frames = Map.empty, st_tasks = Map.empty\<rparr>"
| op: "task_reachable s \<Longrightarrow> task_op_ok f s \<Longrightarrow> task_exec f s = Inr s' \<Longrightarrow> task_reachable s'"

lemma task_exec_inv:
  assumes "task_inv s" and "task_op_ok f s"
  shows "\<exists>s'. task_exec f s = Inr s' \<and> task_inv s'"
proof (cases f)
  case (Destroy x)
  show ?thesis
  proof (cases "st_tasks s x")
    case (Some h)
    then obtain fr where "st_frames s h = Some fr" using assms(1) by (fastforce simp: task_inv_def)
    then show ?thesis using Destroy Some assms(1) by (auto simp: task_destroy_def get_frame_def task_inv_def)
  qed (use Destroy assms in \<open>simp add: task_destroy_def\<close>)
qed (use assms in \<open>auto simp: task_inv_def task_create_def task_move_init_def task_move_assign_def
    task_resume_def get_frame_def split: if_splits\<close>)

lemma task_reachable_inv: "task_reachable s \<Longrightarrow> task_inv s"
proof (induction rule: task_reachable.induct)
  case (op s f s')
  then show ?case using task_exec_inv by fastforce
qed (simp add: task_inv_def)

text \<open>
  C35 A frame is never destroyed twice or used after its destruction: in every state a program can reach
  with constructors, moves, assignments, destructors and resumptions, each frame has at most one
  owner, every handle a \<open>Task\<close> holds is alive, and the next such operation runs without a fault.
\<close>

theorem task_frames_safe:
  assumes "task_reachable s" and "task_op_ok f s"
  shows "\<exists>s'. task_exec f s = Inr s' \<and>
    (\<forall>x h. st_tasks s' x = Some h \<longrightarrow> h \<in> dom (st_frames s')) \<and>
    (\<forall>x y h. st_tasks s' x = Some h \<longrightarrow> st_tasks s' y = Some h \<longrightarrow> x = y)"
  using task_exec_inv [OF task_reachable_inv [OF assms(1)] assms(2)] by (simp add: task_inv_def)

text \<open>Moving into an empty variable keeps the set of owned frames.\<close>

lemma ran_move:
  assumes "m x = None"
  shows "ran (m(x := m y, y := None)) = ran m"
proof
  show "ran (m(x := m y, y := None)) \<subseteq> ran m" by (auto simp: ran_def split: if_splits)
  show "ran m \<subseteq> ran (m(x := m y, y := None))"
  proof
    fix v assume "v \<in> ran m"
    then obtain a where a: "m a = Some v" by (auto simp: ran_def)
    have "(m(x := m y, y := None)) (if a = y then x else a) = Some v" using a assms by auto
    then show "v \<in> ran (m(x := m y, y := None))" by (rule ranI)
  qed
qed

lemma ran_clear:
  assumes "m x = Some h" and "\<And>z. m z = Some h \<Longrightarrow> z = x"
  shows "ran (m(x := None)) = ran m - {h}"
proof (rule set_eqI, rule iffI)
  fix v assume "v \<in> ran (m(x := None))"
  then obtain z where "z \<noteq> x" "m z = Some v" by (auto simp: ran_def split: if_splits)
  with assms(2) [of z] show "v \<in> ran m - {h}" by (auto intro: ranI)
next
  fix v assume "v \<in> ran m - {h}"
  then obtain z where "m z = Some v" "v \<noteq> h" by (auto simp: ran_def)
  with assms(1) have "(m(x := None)) z = Some v" by auto
  then show "v \<in> ran (m(x := None))" by (rule ranI)
qed

lemma ran_overwrite:
  assumes "m x = Some h" and "\<And>z. m z = Some h \<Longrightarrow> z = x"
  shows "ran (m(x := m y, y := None)) = ran m - {h}"
proof -
  have "m(x := m y, y := None) = (m(x := None))(x := (m(x := None)) y, y := None)"
    by (cases "x = y") (simp_all add: fun_eq_iff)
  then have "ran (m(x := m y, y := None)) = ran (m(x := None))" using ran_move [of "m(x := None)" x y] by simp
  then show ?thesis using ran_clear [of m x h, OF assms] by simp
qed

text \<open>What the two operations that let go of a frame do to the frames nobody owns.\<close>

lemma task_inv_frame:
  assumes "task_inv s" and "st_tasks s x = Some h"
  shows "h \<in> dom (st_frames s) \<and> (\<forall>y. st_tasks s y = Some h \<longrightarrow> y = x)"
  using assms unfolding task_inv_def by (metis (no_types, lifting))

lemma move_assign_leaks:
  assumes inv: "task_inv s"
  shows "leaked (task_move_assign x y s) =
    leaked s \<union> (case st_tasks s x of Some h \<Rightarrow> {h} | None \<Rightarrow> {})"
proof (cases "st_tasks s x")
  case None
  then show ?thesis by (auto simp: leaked_def task_move_assign_def ran_move)
next
  case (Some h)
  have d: "h \<in> dom (st_frames s)" and uniq: "\<And>z. st_tasks s z = Some h \<Longrightarrow> z = x"
    using task_inv_frame [OF inv Some] by blast+
  have "ran (st_tasks (task_move_assign x y s)) = ran (st_tasks s) - {h}"
    using ran_overwrite [of "st_tasks s" x h y, OF Some uniq] by (simp add: task_move_assign_def)
  moreover have "st_frames (task_move_assign x y s) = st_frames s" by (simp add: task_move_assign_def)
  ultimately show ?thesis using Some d by (auto simp: leaked_def)
qed

lemma destroy_leaks:
  assumes inv: "task_inv s" and "task_destroy x s = Inr s'"
  shows "leaked s' = leaked s"
proof (cases "st_tasks s x")
  case None
  then show ?thesis using assms(2) by (simp add: task_destroy_def)
next
  case (Some h)
  then have s': "s' = s\<lparr>st_frames := (st_frames s)(h := None), st_tasks := (st_tasks s)(x := None)\<rparr>"
    using assms(2) by (auto simp: task_destroy_def outcome_iff)
  have "\<And>z. st_tasks s z = Some h \<Longrightarrow> z = x" using task_inv_frame [OF inv Some] by blast
  from ran_clear [of "st_tasks s" x h, OF Some this] s'
  have "leaked s' = (dom (st_frames s) - {h}) - (ran (st_tasks s) - {h})" by (simp add: leaked_def)
  moreover have "h \<in> ran (st_tasks s)" using Some by (rule ranI)
  ultimately show ?thesis by (auto simp: leaked_def)
qed

text \<open>
  The move assignment loses frames: assigning to a \<open>Task\<close> that owns a frame, or a \<open>Task\<close> to itself,
  leaves that frame on the heap without an owner; every other operation and an assignment to an empty
  \<open>Task\<close> leave no frame behind.
\<close>

theorem task_leaks:
  assumes "task_reachable s" and "task_op_ok f s" and "task_exec f s = Inr s'"
  shows "leaked s' = leaked s \<union>
    (case f of MoveAssign x y \<Rightarrow> (case st_tasks s x of Some h \<Rightarrow> {h} | None \<Rightarrow> {}) | _ \<Rightarrow> {})"
proof -
  have inv: "task_inv s" by (rule task_reachable_inv [OF assms(1)])
  show ?thesis
  proof (cases f)
    case (Create h v x)
    then have s': "s' = task_create h v x s" "st_tasks s x = None" using assms(2,3) by simp_all
    then have "ran (st_tasks s') = insert h (ran (st_tasks s))" by (simp add: task_create_def ran_map_upd)
    moreover have "dom (st_frames s') = insert h (dom (st_frames s))" using s'(1) by (simp add: task_create_def)
    moreover have "h \<notin> dom (st_frames s)" using Create assms(2) by auto
    ultimately show ?thesis using Create by (auto simp: leaked_def)
  next
    case (MoveInit x y)
    then show ?thesis using assms(2,3) by (auto simp: leaked_def task_move_init_def ran_move)
  next
    case (MoveAssign x y)
    then show ?thesis using move_assign_leaks [OF inv, of x y] assms(3) by simp
  next
    case (Destroy x)
    then show ?thesis using destroy_leaks [OF inv, of x s'] assms(3) by simp
  next
    case (Resume body x)
    then obtain h where "st_tasks s x = Some h" "s' = s\<lparr>st_frames := (st_frames s)(h \<mapsto> body (the (st_frames s h)))\<rparr>"
      using assms(2,3) by (auto simp: task_resume_def get_frame_def)
    moreover from this have "h \<in> dom (st_frames s)" using task_inv_frame [OF inv] by blast
    ultimately show ?thesis using Resume by (auto simp: leaked_def)
  qed
qed

section \<open>Examples\<close>

definition demo_tasks :: "nat task_store" where
  "demo_tasks =
     \<lparr>st_frames = [1 \<mapsto> \<lparr>fr_curr = 0, fr_ret = 0, fr_done = False\<rparr>, 2 \<mapsto> \<lparr>fr_curr = 5, fr_ret = 5, fr_done = False\<rparr>],
      st_tasks = [7 \<mapsto> 1, 8 \<mapsto> 2]\<rparr>"

lemma demo_tasks_reachable: "task_reachable demo_tasks"
proof -
  let ?s0 = "\<lparr>st_frames = Map.empty, st_tasks = Map.empty\<rparr> :: nat task_store"
  have "task_reachable (task_create 1 0 7 ?s0)"
    by (rule task_reachable.op [OF task_reachable.start, of "Create 1 0 7"]) simp_all
  then have "task_reachable (task_create 2 5 8 (task_create 1 0 7 ?s0))"
    by (rule task_reachable.op [where f = "Create 2 5 8"]) (simp_all add: task_create_def)
  then show ?thesis by (simp add: task_create_def demo_tasks_def)
qed

theorem task_frames_safe_witness:
  "\<exists>s'. task_exec (Destroy 7) demo_tasks = Inr s' \<and> (\<forall>x h. st_tasks s' x = Some h \<longrightarrow> h \<in> dom (st_frames s'))"
  using task_frames_safe [OF demo_tasks_reachable, of "Destroy 7"] by auto

text \<open>Assigning the second task to the first leaks the frame of the first.\<close>

theorem task_leaks_witness:
  "leaked (task_move_assign 7 8 demo_tasks) = leaked demo_tasks \<union> {1}"
  using task_leaks [OF demo_tasks_reachable, of "MoveAssign 7 8"] by (simp add: demo_tasks_def)

end
