(* ===== verification/Loop_Thread.thy ===== *)
theory Loop_Thread
  imports Io_Uring_Loop Text_Format
begin

text \<open>
  \<open>Thread\<close> (src/Thread.cc, include/Thread.h) and \<open>IoUringLoopThread\<close> (src/IoUringLoopThread.cc,
  include/IoUringLoopThread.h): the thread that runs a loop, the hand-over of the loop's address to
  the thread that starts it, and its destruction, as interleavings of the two threads.
\<close>

section \<open>Thread\<close>

record thread =
  th_name :: string
  th_started :: bool
  th_joined :: bool

text \<open>\<open>num\<close> is \<open>num_created\<close>; the new value is returned with the object.\<close>

definition default_name :: "string \<Rightarrow> int \<Rightarrow> string" where
  "default_name name num = (if name = [] then snprintf_buf 32 (''Thread'' @ dec_int num) else name)"

definition Thread :: "string \<Rightarrow> int \<Rightarrow> thread \<times> int" where
  "Thread name num = (\<lparr>th_name = default_name name (num + 1), th_started = False, th_joined = False\<rparr>, num + 1)"

definition thread_start :: "thread \<Rightarrow> thread" where
  "thread_start t = t\<lparr>th_started := True\<rparr>"

definition thread_join :: "thread \<Rightarrow> thread outcome" where
  "thread_join t =
     andThen (check (th_started t) AssertFailed) (\<lambda>_.
     andThen (check (\<not> th_joined t) AssertFailed) (\<lambda>_.
       if th_started t \<and> \<not> th_joined t then Inr (t\<lparr>th_joined := True\<rparr>) else Inr t))"

text \<open>Whether the destructor detaches the thread.\<close>

definition thread_detaches :: "thread \<Rightarrow> bool" where
  "thread_detaches t \<longleftrightarrow> th_started t \<and> \<not> th_joined t"

section \<open>The thread of a loop\<close>

text \<open>Where the thread of the loop is in \<open>ThreadFunc\<close>, and the other thread in \<open>startLoop\<close> and the destructor.\<close>

datatype child_phase = NotStarted | Constructing | Constructed | Published | LoopEntered | Looping | LoopLeft | Gone

datatype owner_phase = Fresh | Checking | Sleeping | Returning | Running | Exiting | Quitting | Joining | Joined

record ('r, 'f, 'cb) loop_thread =
  lt_thread :: "thread option"
  lt_loop_ptr :: bool
  lt_exiting :: bool
  lt_loop :: "('r, 'f, 'cb) io_loop"
  lt_child :: child_phase
  lt_owner :: owner_phase
  lt_result :: "bool option"
  lt_dangling :: bool

text \<open>
  \<open>lt_loop_ptr\<close>: \<open>loop_\<close> is not null; \<open>lt_loop\<close>: the loop on the stack of \<open>ThreadFunc\<close>; \<open>lt_result\<close>: whether
  \<open>startLoop\<close> has returned and with a pointer that is not null; \<open>lt_dangling\<close>: a method of the loop was
  called after the loop was gone.
\<close>

definition IoUringLoopThread :: "('r, 'f, 'cb) io_loop \<Rightarrow> ('r, 'f, 'cb) loop_thread" where
  "IoUringLoopThread l =
     \<lparr>lt_thread = None, lt_loop_ptr = False, lt_exiting = False, lt_loop = l, lt_child = NotStarted,
      lt_owner = Fresh, lt_result = None, lt_dangling = False\<rparr>"

text \<open>\<open>startLoop\<close> up to the wait: it makes and starts the thread.\<close>

definition start_thread :: "string \<Rightarrow> int \<Rightarrow> ('r, 'f, 'cb) loop_thread \<Rightarrow> ('r, 'f, 'cb) loop_thread outcome" where
  "start_thread name num s =
     andThen (check (lt_thread s = None) AssertFailed) (\<lambda>_.
       Inr (s\<lparr>lt_thread := Some (thread_start (fst (Thread name num))), lt_child := Constructing, lt_owner := Checking\<rparr>))"

text \<open>The predicate of the wait, under the lock.\<close>

definition start_wait :: "('r, 'f, 'cb) loop_thread \<Rightarrow> ('r, 'f, 'cb) loop_thread" where
  "start_wait s = s\<lparr>lt_owner := (if lt_loop_ptr s then Returning else Sleeping)\<rparr>"

definition start_return :: "('r, 'f, 'cb) loop_thread \<Rightarrow> ('r, 'f, 'cb) loop_thread" where
  "start_return s = s\<lparr>lt_result := Some (lt_loop_ptr s), lt_owner := Running\<rparr>"

text \<open>\<open>ThreadFunc\<close>: it publishes the loop and notifies, unless the owner is exiting.\<close>

definition publish_loop :: "('r, 'f, 'cb) loop_thread \<Rightarrow> ('r, 'f, 'cb) loop_thread" where
  "publish_loop s =
     (if \<not> lt_exiting s
      then s\<lparr>lt_loop_ptr := True, lt_child := Published,
             lt_owner := (if lt_owner s = Sleeping then Checking else lt_owner s)\<rparr>
      else s\<lparr>lt_child := Gone\<rparr>)"

definition clear_loop :: "('r, 'f, 'cb) loop_thread \<Rightarrow> ('r, 'f, 'cb) loop_thread" where
  "clear_loop s = s\<lparr>lt_loop_ptr := False, lt_child := Gone\<rparr>"

text \<open>The destructor: the store of \<open>exiting_\<close>, the test of \<open>loop_\<close>, the call of \<open>quit\<close>.\<close>

definition destroy_exit :: "('r, 'f, 'cb) loop_thread \<Rightarrow> ('r, 'f, 'cb) loop_thread" where
  "destroy_exit s = s\<lparr>lt_exiting := True, lt_owner := Exiting\<rparr>"

definition destroy_test :: "('r, 'f, 'cb) loop_thread \<Rightarrow> ('r, 'f, 'cb) loop_thread" where
  "destroy_test s = s\<lparr>lt_owner := (if lt_loop_ptr s then Quitting else Joining)\<rparr>"

definition destroy_quit :: "('r, 'f, 'cb) loop_thread \<Rightarrow> ('r, 'f, 'cb) loop_thread" where
  "destroy_quit s =
     (if lt_child s = Gone then s\<lparr>lt_dangling := True, lt_owner := Joining\<rparr>
      else s\<lparr>lt_loop := quit False (lt_loop s), lt_owner := Joining\<rparr>)"

text \<open>
  The steps. A loop may also be quit by one of its functors, once \<open>startLoop\<close> has returned and the
  loop is known to others; a thread initialisation callback that quits the loop is left out.
\<close>

inductive lt_step :: "('r, 'f, 'cb) loop_thread \<Rightarrow> ('r, 'f, 'cb) loop_thread \<Rightarrow> bool" where
  start: "lt_owner s = Fresh \<Longrightarrow> start_thread name num s = Inr s' \<Longrightarrow> lt_step s s'"
| wait: "lt_owner s = Checking \<Longrightarrow> lt_step s (start_wait s)"
| spurious_wakeup: "lt_owner s = Sleeping \<Longrightarrow> lt_step s (s\<lparr>lt_owner := Checking\<rparr>)"
| return: "lt_owner s = Returning \<Longrightarrow> lt_step s (start_return s)"
| construct: "lt_child s = Constructing \<Longrightarrow> lt_step s (s\<lparr>lt_child := Constructed\<rparr>)"
| publish: "lt_child s = Constructed \<Longrightarrow> lt_step s (publish_loop s)"
| enter_loop: "lt_child s = Published \<Longrightarrow>
    lt_step s (s\<lparr>lt_child := (if lp_quit (lt_loop s) then LoopLeft else LoopEntered)\<rparr>)"
| start_loop: "lt_child s = LoopEntered \<Longrightarrow>
    lt_step s (s\<lparr>lt_loop := loop_started (lt_loop s), lt_child := Looping\<rparr>)"
| functor_quits: "lt_child s = Looping \<Longrightarrow> lt_result s \<noteq> None \<Longrightarrow>
    lt_step s (s\<lparr>lt_loop := quit True (lt_loop s)\<rparr>)"
| leave: "lt_child s = Looping \<Longrightarrow> lp_quit (lt_loop s) \<Longrightarrow>
    lt_step s (s\<lparr>lt_loop := (lt_loop s)\<lparr>lp_looping := False\<rparr>, lt_child := LoopLeft\<rparr>)"
| clear: "lt_child s = LoopLeft \<Longrightarrow> lt_step s (clear_loop s)"
| exiting: "lt_owner s = Running \<Longrightarrow> lt_step s (destroy_exit s)"
| test: "lt_owner s = Exiting \<Longrightarrow> lt_step s (destroy_test s)"
| call_quit: "lt_owner s = Quitting \<Longrightarrow> lt_step s (destroy_quit s)"
| join: "lt_owner s = Joining \<Longrightarrow> lt_child s = Gone \<Longrightarrow>
    thread_join (the (lt_thread s)) = Inr t \<Longrightarrow> lt_step s (s\<lparr>lt_thread := Some t, lt_owner := Joined\<rparr>)"

definition lt_reachable :: "('r, 'f, 'cb) io_loop \<Rightarrow> ('r, 'f, 'cb) loop_thread \<Rightarrow> bool" where
  "lt_reachable l s \<longleftrightarrow> lt_step\<^sup>*\<^sup>* (IoUringLoopThread l) s"

section \<open>Starting works\<close>

fun published :: "child_phase \<Rightarrow> bool" where
  "published Published = True"
| "published LoopEntered = True"
| "published Looping = True"
| "published LoopLeft = True"
| "published c = False"

fun returned :: "owner_phase \<Rightarrow> bool" where
  "returned Fresh = False"
| "returned Checking = False"
| "returned Sleeping = False"
| "returned Returning = False"
| "returned p = True"

fun leaving :: "owner_phase \<Rightarrow> bool" where
  "leaving Exiting = True"
| "leaving Quitting = True"
| "leaving Joining = True"
| "leaving Joined = True"
| "leaving p = False"

text \<open>Which phases of the two threads go together, and whether the loop may have been asked to quit.\<close>

fun phases_ok :: "owner_phase \<Rightarrow> child_phase \<Rightarrow> bool \<Rightarrow> bool" where
  "phases_ok Fresh c q \<longleftrightarrow> c = NotStarted \<and> \<not> q"
| "phases_ok Checking c q \<longleftrightarrow> c \<noteq> NotStarted \<and> c \<noteq> LoopLeft \<and> c \<noteq> Gone \<and> \<not> q"
| "phases_ok Sleeping c q \<longleftrightarrow> (c = Constructing \<or> c = Constructed) \<and> \<not> q"
| "phases_ok Returning c q \<longleftrightarrow> published c \<and> c \<noteq> LoopLeft \<and> \<not> q"
| "phases_ok p c q \<longleftrightarrow> published c \<or> c = Gone"

definition lt_inv :: "('r, 'f, 'cb) loop_thread \<Rightarrow> bool" where
  "lt_inv s \<longleftrightarrow>
     phases_ok (lt_owner s) (lt_child s) (lp_quit (lt_loop s)) \<and>
     lt_loop_ptr s = published (lt_child s) \<and>
     lt_result s = (if returned (lt_owner s) then Some True else None) \<and>
     lt_exiting s = leaving (lt_owner s)"

lemmas lt_defs = start_thread_def start_wait_def start_return_def publish_loop_def clear_loop_def
  destroy_exit_def destroy_test_def destroy_quit_def IoUringLoopThread_def

lemma quit_flag [simp]: "lp_quit (quit b l)" "lp_quit (loop_started l) = False"
  by (simp_all add: quit_def quit_set_def wakeUp_def loop_started_def Let_def)

text \<open>The steps of the owner are decided by the phase of the child, and the other way round.\<close>

lemma lt_inv_step:
  assumes "lt_step s s'" and "lt_inv s"
  shows "lt_inv s'"
  using assms
proof (induction rule: lt_step.induct)
  case (start s name num s')
  then show ?case by (cases "lt_child s") (auto simp: lt_inv_def lt_defs outcome_iff)
next
  case (wait s)
  then show ?case by (cases "lt_child s") (simp_all add: lt_inv_def lt_defs)
next
  case (return s)
  then show ?case by (cases "lt_child s") (simp_all add: lt_inv_def lt_defs)
next
  case (publish s)
  then show ?case by (cases "lt_owner s") (simp_all add: lt_inv_def lt_defs)
next
  case (clear s)
  then show ?case by (cases "lt_owner s") (simp_all add: lt_inv_def lt_defs)
next
  case (test s)
  then show ?case by (cases "lt_child s") (simp_all add: lt_inv_def lt_defs)
next
  case (call_quit s)
  then show ?case by (cases "lt_child s") (simp_all add: lt_inv_def lt_defs)
next
  case (construct s)
  then show ?case by (cases "lt_owner s") (simp_all add: lt_inv_def)
next
  case (enter_loop s)
  then show ?case by (cases "lt_owner s"; cases "lp_quit (lt_loop s)") (simp_all add: lt_inv_def)
next
  case (start_loop s)
  then show ?case by (cases "lt_owner s") (simp_all add: lt_inv_def)
next
  case (functor_quits s)
  then show ?case by (cases "lt_owner s") (simp_all add: lt_inv_def)
next
  case (leave s)
  then show ?case by (cases "lt_owner s") (simp_all add: lt_inv_def)
qed (auto simp: lt_inv_def lt_defs)

interpretation loop_threads: step_invariant lt_step lt_inv
  by unfold_locales (rule lt_inv_step)

lemma lt_reachable_inv:
  assumes "\<not> lp_quit l" and "lt_reachable l s"
  shows "lt_inv s"
proof (rule loop_threads.inv_along_run)
  show "lt_step\<^sup>*\<^sup>* (IoUringLoopThread l) s" using assms(2) by (simp add: lt_reachable_def)
  show "lt_inv (IoUringLoopThread l)" using assms(1) by (simp add: lt_inv_def lt_defs)
qed



section \<open>Stopping can go wrong\<close>

text \<open>A loop that has been started and whose thread has entered \<open>loop ()\<close>.\<close>

definition entered_thread :: "('r, 'f, 'cb) io_loop \<Rightarrow> ('r, 'f, 'cb) loop_thread" where
  "entered_thread l =
     \<lparr>lt_thread = Some \<lparr>th_name = ''sub0'', th_started = True, th_joined = False\<rparr>, lt_loop_ptr = True,
      lt_exiting = False, lt_loop = l, lt_child = LoopEntered, lt_owner = Running, lt_result = Some True,
      lt_dangling = False\<rparr>"

lemma lt_reachable_step: "lt_reachable l s \<Longrightarrow> lt_step s s' \<Longrightarrow> lt_reachable l s'"
  by (simp add: lt_reachable_def)

lemma entered_thread_reachable:
  assumes "\<not> lp_quit l"
  shows "lt_reachable l (entered_thread l)"
proof -
  let ?s1 = "(IoUringLoopThread l)\<lparr>lt_thread := Some \<lparr>th_name = ''sub0'', th_started = True, th_joined = False\<rparr>,
    lt_child := Constructing, lt_owner := Checking\<rparr>"
  let ?s2 = "?s1\<lparr>lt_child := Constructed\<rparr>"
  let ?s5 = "start_return (start_wait (publish_loop ?s2))"
  note d = lt_defs Thread_def thread_start_def default_name_def entered_thread_def
  have "lt_reachable l (IoUringLoopThread l)" by (simp add: lt_reachable_def)
  then have "lt_reachable l ?s1" by (rule lt_reachable_step, intro lt_step.start [of _ "''sub0''" 0]) (simp_all add: d)
  then have "lt_reachable l ?s2" by (rule lt_reachable_step, intro lt_step.construct) (simp add: d)
  then have "lt_reachable l (publish_loop ?s2)" by (rule lt_reachable_step, intro lt_step.publish) (simp add: d)
  then have "lt_reachable l (start_wait (publish_loop ?s2))"
    by (rule lt_reachable_step, intro lt_step.wait) (simp add: d)
  then have "lt_reachable l ?s5" by (rule lt_reachable_step, intro lt_step.return) (simp add: d)
  moreover have "lt_step ?s5 (entered_thread l)"
    using lt_step.enter_loop [of ?s5] assms by (simp add: d)
  ultimately show ?thesis by (rule lt_reachable_step)
qed

text \<open>
  Destroying a loop thread right after starting it can hang: when the destructor calls \<open>quit\<close> after
  the thread has tested \<open>quit_\<close> and before it clears it, the loop runs on with \<open>quit_\<close> false while the
  destructor waits for the thread to end; nobody holds a reference that would quit the loop again.
\<close>

theorem thread_destructor_can_hang:
  assumes "\<not> lp_quit l"
  shows "\<exists>s. lt_reachable l s \<and> lt_owner s = Joining \<and> lt_child s = Looping \<and> \<not> lp_quit (lt_loop s)"
proof -
  let ?s1 = "destroy_exit (entered_thread l)"
  let ?s3 = "destroy_quit (destroy_test ?s1)"
  let ?s4 = "?s3\<lparr>lt_loop := loop_started (lt_loop ?s3), lt_child := Looping\<rparr>"
  note d = lt_defs entered_thread_def
  have "lt_reachable l ?s1"
    by (rule lt_reachable_step [OF entered_thread_reachable [OF assms]], intro lt_step.exiting) (simp add: d)
  then have "lt_reachable l (destroy_test ?s1)" by (rule lt_reachable_step, intro lt_step.test) (simp add: d)
  then have "lt_reachable l ?s3" by (rule lt_reachable_step, intro lt_step.call_quit) (simp add: d)
  then have "lt_reachable l ?s4" by (rule lt_reachable_step, intro lt_step.start_loop) (simp add: d)
  then show ?thesis by (intro exI [of _ ?s4]) (simp add: d)
qed

text \<open>
  The destructor of a loop thread can call into a loop that is gone: it tests \<open>loop_\<close> without the
  lock, so when a functor quits the loop in between, the thread leaves \<open>loop ()\<close>, clears \<open>loop_\<close> and
  destroys the loop before \<open>quit\<close> is called on it.
\<close>

theorem thread_destructor_dangles:
  assumes "\<not> lp_quit l"
  shows "\<exists>s. lt_reachable l s \<and> lt_dangling s"
proof -
  let ?s0 = "(entered_thread l)\<lparr>lt_loop := loop_started l, lt_child := Looping\<rparr>"
  let ?s2 = "destroy_test (destroy_exit ?s0)"
  let ?s3 = "?s2\<lparr>lt_loop := quit True (lt_loop ?s2)\<rparr>"
  let ?s4 = "?s3\<lparr>lt_loop := (lt_loop ?s3)\<lparr>lp_looping := False\<rparr>, lt_child := LoopLeft\<rparr>"
  note d = lt_defs entered_thread_def
  have "lt_step (entered_thread l) ?s0"
    using lt_step.start_loop [of "entered_thread l"] by (simp add: d)
  with entered_thread_reachable [OF assms] have "lt_reachable l ?s0" by (rule lt_reachable_step)
  then have "lt_reachable l (destroy_exit ?s0)" by (rule lt_reachable_step, intro lt_step.exiting) (simp add: d)
  then have "lt_reachable l ?s2" by (rule lt_reachable_step, intro lt_step.test) (simp add: d)
  then have "lt_reachable l ?s3" by (rule lt_reachable_step, intro lt_step.functor_quits) (simp_all add: d)
  then have "lt_reachable l ?s4" by (rule lt_reachable_step, intro lt_step.leave) (simp_all add: d)
  then have "lt_reachable l (clear_loop ?s4)" by (rule lt_reachable_step, intro lt_step.clear) simp
  then have "lt_reachable l (destroy_quit (clear_loop ?s4))"
    by (rule lt_reachable_step, intro lt_step.call_quit) (simp add: d)
  then show ?thesis by (intro exI [of _ "destroy_quit (clear_loop ?s4)"]) (simp add: d)
qed

section \<open>A concrete loop\<close>

definition thread_loop :: "(unit, unit, unit) io_loop" where
  "thread_loop =
     \<lparr>lp_ring = (), lp_looping = False, lp_quit = False, lp_time_out = kPollTimeS, lp_low_water = 1,
      lp_bgid = 3, lp_pending = [], lp_calling = False, lp_wakeup_fd = 9, lp_eventfd = 0, lp_waiting = [],
      lp_timers = TimerQueue\<rparr>"

lemma thread_loop_no_quit: "\<not> lp_quit thread_loop"
  by (simp add: thread_loop_def)


theorem thread_destructor_can_hang_witness:
  "\<exists>s. lt_reachable thread_loop s \<and> lt_owner s = Joining \<and> lt_child s = Looping"
  using thread_destructor_can_hang [OF thread_loop_no_quit] by blast

theorem thread_destructor_dangles_witness: "\<exists>s. lt_reachable thread_loop s \<and> lt_dangling s"
  by (rule thread_destructor_dangles [OF thread_loop_no_quit])

end
