(* ===== verification/Connection_Lifetime.thy ===== *)
theory Connection_Lifetime
  imports Connection_Runs Server_Correctness
begin

text \<open>
  The life time of a connection object. A connection is owned by \<open>shared_ptr\<close>s: the \<open>holder_\<close> of its
  two contexts, the frame of its coroutine (which takes the pointer by value), the functors queued on
  loops, and the table of the server. The contexts are members of the connection, so the
  \<open>holder_.reset ()\<close> in \<open>on_completion\<close> may destroy the very object that runs. Here the two
  completion handlers are taken again with that in view: an access to a context after the last
  reference is gone is a fault.
\<close>

section \<open>Counting references\<close>

text \<open>\<open>elsewhere\<close> is the number of references outside the connection and its loop.\<close>

definition conn_refs :: "nat \<Rightarrow> ('r, 'cb, 'b, 'k) conn_sys \<Rightarrow> nat" where
  "conn_refs elsewhere s =
     elsewhere + of_bool (rc_holder (the_read s)) + of_bool (wc_holder (the_write s)) +
     of_bool (tc_task (cs_conn s)) + count_list (lp_pending (cs_loop s)) DestroyConnection"

text \<open>An access to a context, when \<open>E s\<close> references are held elsewhere in the state \<open>s\<close>.\<close>

definition touch ::
    "(('r, 'cb, 'b, 'k) conn_sys \<Rightarrow> nat) \<Rightarrow> ('r, 'cb, 'b, 'k) conn_sys \<Rightarrow> ('r, 'cb, 'b, 'k) conn_sys outcome" where
  "touch E s = (if 0 < conn_refs (E s) s then Inr s else Inl NullDeref)"

section \<open>The completion handlers with life times\<close>

text \<open>
  \<open>WriteContext::on_completion\<close>: after the error path has reset \<open>holder_\<close> it stores to \<open>is_sending_\<close>,
  and after the last byte was sent it reads \<open>write_handle_\<close>.
\<close>

definition write_on_completion_life ::
    "(('r, 'cb, 'b, 'k) conn_sys \<Rightarrow> nat) \<Rightarrow> 'r uring_api \<Rightarrow>
     ('k \<Rightarrow> ('r, 'cb, 'b, 'k) conn_sys \<Rightarrow> ('r, 'cb, 'b, 'k) conn_sys outcome) \<Rightarrow>
     ('r, 'cb, 'b, 'k) conn_sys \<Rightarrow> ('r, 'cb, 'b, 'k) conn_sys outcome" where
  "write_on_completion_life E U resume s =
     andThen (check (wc_holder (the_write s)) AssertFailed) (\<lambda>_.
     let (need_close, s1) =
           (if wc_res (the_write s) < 0
            then (let (close, w) = write_handleError (the_write s)
                  in (close, set_write (\<lambda>_. w\<lparr>wc_sending := False\<rparr>) s))
            else (False, s))
     in if need_close
        then andThen (case wc_handle (the_write s1) of
                        None \<Rightarrow> Inr s1 | Some h \<Rightarrow> co_resume resume h s1) (\<lambda>s2.
             andThen (touch E (set_write (\<lambda>w. w\<lparr>wc_holder := False\<rparr>) (handleClose s2))) (\<lambda>s3.
               Inr (set_write (\<lambda>w. w\<lparr>wc_sending := False\<rparr>) s3)))
        else andThen (if wc_res (the_write s) < 0 then Inr s1
                      else andThen (finished (sq_retrieve (of_int (wc_res (the_write s1)))
                                      (wc_buffer (the_write s1)))) (\<lambda>q.
                             Inr (set_write (\<lambda>w. w\<lparr>wc_buffer := q\<rparr>) s1))) (\<lambda>s2.
             andThen (if 0 < sq_total_len (wc_buffer (the_write s2)) then flush U s2
                      else touch E (set_write (\<lambda>w. w\<lparr>wc_sending := False, wc_holder := False\<rparr>) s2)) (\<lambda>s3.
               wake_writer resume s3)))"

text \<open>
  \<open>ReadContext::on_completion\<close>: after a cancelled receive has reset \<open>holder_\<close> it reads \<open>read_handle_\<close>,
  and after the connection was closed it stores to \<open>status_\<close>.
\<close>

definition read_on_completion_life ::
    "(('r, 'cb, 'b, 'k) conn_sys \<Rightarrow> nat) \<Rightarrow> 'r uring_api \<Rightarrow>
     ('k \<Rightarrow> ('r, 'cb, 'b, 'k) conn_sys \<Rightarrow> ('r, 'cb, 'b, 'k) conn_sys outcome) \<Rightarrow>
     ('r, 'cb, 'b, 'k) conn_sys \<Rightarrow> ('r, 'cb, 'b, 'k) conn_sys outcome" where
  "read_on_completion_life E U resume s =
     andThen (check (rc_holder (the_read s)) AssertFailed) (\<lambda>_.
     andThen (check (rc_status (the_read s) = CANCELING \<or> rc_status (the_read s) = READING) AssertFailed) (\<lambda>_.
     andThen (if rc_res (the_read s) \<le> 0
              then (let (close, r) = read_handleError (the_read s) in Inr (close, set_read (\<lambda>_. r) s))
              else andThen (read_data U s) (\<lambda>s1. Inr (False, s1))) (\<lambda>(need_close, s1).
       if \<not> cqe_has_more (rc_flags (the_read s1)) then
         (if rc_status (the_read s1) = CANCELING \<and> \<not> need_close
          then andThen (touch E (set_read (\<lambda>r. r\<lparr>rc_status := STOPED, rc_holder := False\<rparr>) s1))
                 (wake_reader resume)
          else if rc_status (the_read s1) = READING \<and> \<not> need_close
          then andThen (submitRead U s1) (wake_reader resume)
          else andThen (case rc_handle (the_read s1) of
                          None \<Rightarrow> Inr s1 | Some h \<Rightarrow> co_resume resume h s1) (\<lambda>s2.
               andThen (touch E (set_read (\<lambda>r. r\<lparr>rc_holder := False\<rparr>) (handleClose s2))) (\<lambda>s3.
                 Inr (set_read (\<lambda>r. r\<lparr>rc_status := STOPED\<rparr>) s3))))
       else wake_reader resume s1)))"

section \<open>While somebody else holds the connection\<close>

lemma touch_held: "0 < E s \<Longrightarrow> touch E s = Inr s"
  by (simp add: touch_def conn_refs_def)

lemma set_write_release:
  "set_write (\<lambda>w. w\<lparr>wc_sending := False\<rparr>) (set_write (\<lambda>w. w\<lparr>wc_holder := False\<rparr>) s) =
   set_write (\<lambda>w. w\<lparr>wc_holder := False, wc_sending := False\<rparr>) s"
  by (simp add: set_write_def)

lemma set_read_release:
  "set_read (\<lambda>r. r\<lparr>rc_status := STOPED\<rparr>) (set_read (\<lambda>r. r\<lparr>rc_holder := False\<rparr>) s) =
   set_read (\<lambda>r. r\<lparr>rc_holder := False, rc_status := STOPED\<rparr>) s"
  by (simp add: set_read_def)


section \<open>The last reference\<close>

text \<open>A write that takes the rest of the queue.\<close>

lemma retrieve_all:
  assumes "write_inv False wire s" and "0 < cs_writes s"
  shows "\<exists>q. sq_retrieve (of_int (int (length (sq_content (wc_buffer (the_write s))))))
    (wc_buffer (the_write s)) = Some (Inr q) \<and> sq_total_len q = 0"
proof -
  let ?q = "wc_buffer (the_write s)" and ?n = "length (sq_content (wc_buffer (the_write s)))"
  obtain xs k where rep: "sq_rep ?q xs k" using assms(1) by (auto simp: write_inv_def)
  have "?n < 2 ^ 64"
    using rep unat_bound64 [of "sq_total_len ?q"] sq_content_rep [OF rep] by (simp add: sq_rep_def)
  then have u: "unat (of_int (int ?n) :: size_t) = ?n" by (intro trans [OF unat_of_int_small]) auto
  obtain q ys where q: "sq_retrieve (of_int (int ?n)) ?q = Some (Inr q)" "sq_rep q ys 0"
    "sq_bytes_of q ys = []"
    using sq_retrieve_ok [OF rep, of "of_int (int ?n)"] sq_content_rep [OF rep] u by (metis drop_all le_refl)
  then have "sq_total_len q = 0" by (simp add: sq_rep_def unat_eq_zero)
  with q(1) show ?thesis by blast
qed

text \<open>A connection that only its outstanding write keeps alive.\<close>

definition write_is_last :: "('r, 'cb, 'b, 'k) conn_sys \<Rightarrow> bool" where
  "write_is_last s \<longleftrightarrow>
     tc_closing (cs_conn s) \<and> \<not> tc_task (cs_conn s) \<and> cs_reads s = 0 \<and> 0 < cs_writes s \<and>
     DestroyConnection \<notin> set (lp_pending (cs_loop s))"

text \<open>
  The completion of the last write of a closed connection uses freed memory: in every reachable
  state in which the outstanding write is the last to hold the connection and carries all that is
  queued, a completion that takes it completely resets \<open>holder_\<close>, which destroys the connection with the context in it, and
  then reads \<open>write_handle_\<close> of that context.
\<close>

theorem last_write_dangles:
  assumes "uring_laws U queued handed n" and "0 < n" and "resume_ok U B resume"
    and "conn_reachable U B resume wire s" and "write_is_last s"
    and "batch_bytes s = sq_content (wc_buffer (the_write s))"
    and "\<And>t. tc_closing (cs_conn t) \<Longrightarrow> E t = 0"
  shows "write_on_completion_life E U resume (write_delivered (int (length (batch_bytes s))) fl s) = Inl NullDeref"
proof -
  let ?n = "length (sq_content (wc_buffer (the_write s)))"
  let ?d = "write_delivered (int ?n) fl s"
  have inv: "write_inv False wire s" "read_inv False s"
    using conn_reachable_inv [OF assms(1-4)] by (simp_all add: conn_inv_def)
  have last: "tc_closing (cs_conn s)" "\<not> tc_task (cs_conn s)" "cs_reads s = 0" "0 < cs_writes s"
    "count_list (lp_pending (cs_loop s)) DestroyConnection = 0"
    using assms(5) by (simp_all add: write_is_last_def count_list_0_iff)
  have hold: "wc_holder (the_write s)" "\<not> rc_holder (the_read s)"
    using inv last by (auto simp: write_inv_def read_inv_def split: if_splits)
  obtain q where q: "sq_retrieve (of_int (int ?n)) (wc_buffer (the_write s)) = Some (Inr q)" "sq_total_len q = 0"
    using retrieve_all [OF inv(1) last(4)] by blast
  let ?s = "set_write (\<lambda>w. w\<lparr>wc_sending := False, wc_holder := False\<rparr>)
    (set_write (\<lambda>w. w\<lparr>wc_buffer := q\<rparr>) ?d)"
  have "E ?s = 0" using assms(7) last(1) by (simp add: write_delivered_def)
  then have "touch E ?s = Inl NullDeref"
    using last hold by (simp add: touch_def conn_refs_def write_delivered_def)
  then show ?thesis
    unfolding assms(6) using hold q by (simp add: write_on_completion_life_def write_delivered_write)
qed

text \<open>
  C14 The end of the stream uses freed memory when the connection is held by nothing but its receive and
  its coroutine: a coroutine that waits for data and returns when told of the end is destroyed by
  \<open>handleClose\<close>, which also takes the connection out of the table; then \<open>holder_.reset ()\<close> destroys
  the connection, and the handler stores to \<open>status_\<close> of the context that went with it.
\<close>

theorem end_of_stream_dangles:
  assumes "uring_laws U queued handed n" and "0 < n" and "resume_ok U B resume"
    and "conn_reachable U B resume wire s" and "0 < cs_reads s" and "cs_writes s = 0"
    and "rc_handle (the_read s) = Some h" and "\<not> cqe_has_more fl"
    and "DestroyConnection \<notin> set (lp_pending (cs_loop s))"
    and "\<And>t. rc_error (the_read t) \<Longrightarrow> resume h t = Inr (set_conn (\<lambda>c. c\<lparr>tc_done := True\<rparr>) t)"
    and "\<And>t. tc_closing (cs_conn t) \<Longrightarrow> E t = 0"
  shows "read_on_completion_life E U resume (read_delivered 0 fl s) = Inl NullDeref"
proof -
  note inv = conn_reachable_inv [OF assms(1-4)]
  have w: "\<not> wc_holder (the_write s)" and h: "tc_task (cs_conn s)" "\<not> tc_closing (cs_conn s)"
    using inv assms(6,7) by (auto simp: conn_inv_def write_inv_def handle_inv_def split: if_splits)
  note st = read_outstanding [OF inv assms(5)]
  let ?s1 = "set_read (\<lambda>_. (the_read s)\<lparr>rc_res := 0, rc_flags := fl, rc_error := True\<rparr>) (read_delivered 0 fl s)"
  let ?s2 = "set_conn (\<lambda>c. c\<lparr>tc_done := True\<rparr>) ?s1"
  have co: "co_resume resume h ?s1 = Inr ?s2"
    using h(1) assms(10) [of ?s1] by (simp add: co_resume_def read_delivered_def)
  let ?s3 = "set_read (\<lambda>r. r\<lparr>rc_holder := False\<rparr>) (handleClose ?s2)"
  have e: "E ?s3 = 0" by (rule assms(11)) simp
  have cl: "\<not> tc_task (cs_conn ?s3)" "wc_holder (the_write ?s3) = wc_holder (the_write s)"
    "cs_loop ?s3 = cs_loop s"
    using assms(7) h by (simp_all add: handleClose_def Let_def read_delivered_def)
  have "touch E ?s3 = Inl NullDeref"
    using e cl w assms(9) by (simp add: touch_def conn_refs_def count_list_0_iff)
  then show ?thesis
    using st co assms(7,8) by (simp add: read_on_completion_life_def read_handleError_def)
qed

section \<open>What the server holds\<close>

text \<open>
  The references the server has to a connection: entries of its table and functors queued on its
  loops that captured the pointer.
\<close>

fun task_refers :: "nat \<Rightarrow> server_task \<Rightarrow> bool" where
  "task_refers c (EstablishConnection d) \<longleftrightarrow> c = d"
| "task_refers c (RemoveConnection d) \<longleftrightarrow> c = d"
| "task_refers c (DestroyedConnection d) \<longleftrightarrow> c = d"
| "task_refers c StartListening \<longleftrightarrow> False"

definition queued_refs :: "nat \<Rightarrow> ('r, 'cb, 'k, 'h) server_sys \<Rightarrow> nat" where
  "queued_refs c s =
     length (filter (task_refers c) (lp_pending (as_loop s))) +
     sum_list (map (\<lambda>l. length (filter (task_refers c) (lp_pending l))) (ss_loops s))"

definition server_refs :: "nat \<Rightarrow> ('r, 'cb, 'k, 'h) server_sys \<Rightarrow> nat" where
  "server_refs c s = length (filter (\<lambda>e. snd e = c) (sv_map (ss_server s))) + queued_refs c s"

lemma one_element: "distinct xs \<Longrightarrow> (\<And>x. x \<in> set xs \<longleftrightarrow> x = a) \<Longrightarrow> length xs = 1"
  using distinct_card [of xs] by (simp add: set_eqI [of "set xs" "{a}"])

text \<open>
  A connection that is closed on the thread of the base loop, where all connections of a server
  without sub-loops live, is released by the server within \<open>handleClose\<close>: the table holds one reference
  to an open connection and none afterwards, and only functors still in a queue refer to it. So the
  hypothesis of the theorems above is what a server with one loop makes true.
\<close>

lemma open_table_entry:
  assumes "table_inv s" and "c < length (ss_conns s)" and "\<not> tc_closing (ss_conns s ! c)"
  shows "length (filter (\<lambda>e. snd e = c) (sv_map (ss_server s))) = 1"
    and "e \<in> set (AList.delete (tc_name (ss_conns s ! c)) (sv_map (ss_server s))) \<Longrightarrow> snd e \<noteq> c"
proof -
  let ?m = "sv_map (ss_server s)"
  have "distinct (map fst ?m)" using assms(1) by (simp add: table_inv_def)
  then have "distinct (filter (\<lambda>e. snd e = c) ?m)" by (simp add: distinct_map)
  moreover have "e \<in> set (filter (\<lambda>e. snd e = c) ?m) \<longleftrightarrow> e = (tc_name (ss_conns s ! c), c)" for e
    using assms by (cases e) (auto simp: table_inv_def)
  ultimately show "length (filter (\<lambda>e. snd e = c) ?m) = 1" by (rule one_element)
  show "e \<in> set (AList.delete (tc_name (ss_conns s ! c)) ?m) \<Longrightarrow> snd e \<noteq> c"
    using assms(1) by (auto simp: table_inv_def delete_set)
qed

theorem close_on_base_loop_releases:
  assumes "uring_laws U queued handed n" and "server_reachable U K s" and "length (ss_conns s) < 2 ^ 32"
    and "c < length (ss_conns s)" and "\<not> tc_closing (ss_conns s ! c)"
  shows "server_refs c s = 1 + queued_refs c s \<and>
    server_refs c (server_handleClose (Some BaseLoop) c s) = queued_refs c s"
proof -
  have inv: "names_inv s" "table_inv s"
    using server_reachable_inv [OF assms(1,2)] assms(3) by (auto simp: run_inv_def server_ok_def few_def)
  have cb: "tc_close_callback (ss_conns s ! c)" using inv(1) assms(4) by (simp add: names_inv_def)
  let ?s = "s\<lparr>ss_conns := (ss_conns s)[c := close_conn (ss_conns s ! c)]\<rparr>" and ?m = "sv_map (ss_server s)"
  have nm: "tc_name (ss_conns ?s ! c) = tc_name (ss_conns s ! c)"
    using assms(4) by (simp add: close_conn_def Let_def)
  have "server_handleClose (Some BaseLoop) c s = removeConnectionInLoop c ?s"
    using cb assms(5) by (simp add: server_handleClose_def removeConnection_def Let_def)
  then have "server_refs c (server_handleClose (Some BaseLoop) c s) = queued_refs c s"
    using nm open_table_entry(2) [OF inv(2) assms(4,5)]
    by (auto simp: server_refs_def queued_refs_def removeConnectionInLoop_def filter_empty_conv)
  with open_table_entry(1) [OF inv(2) assms(4,5)] show ?thesis by (simp add: server_refs_def)
qed

text \<open>
  C15 A connection of a sub-loop is released by the thread of the base loop: when it closes on its own
  loop and nothing else is queued, the table and the functor that \<open>removeConnection\<close> has queued hold it,
  and the base loop, running the functor, drops both. Whatever the sub-loop still held is gone by
  then, unless a request is outstanding; so the destructor runs on the thread of the base loop, where
  it gives chunks back to the buffer ring of the sub-loop, which that loop uses at the same time.
\<close>

theorem sub_loop_released_by_base_loop:
  assumes "uring_laws U queued handed n" and "server_reachable U K s" and "length (ss_conns s) < 2 ^ 32"
    and "c < length (ss_conns s)" and "\<not> tc_closing (ss_conns s ! c)"
    and "ss_conn_loops s ! c = SubLoop i" and "lp_pending (as_loop s) = []" and "queued_refs c s = 0"
  shows "\<exists>s1 s2. s1 = server_handleClose (Some (SubLoop i)) c s \<and> server_step U K s s1 \<and>
    lp_pending (as_loop s1) = [RemoveConnection c] \<and> server_refs c s1 = 2 \<and>
    run_server_task U K BaseLoop (RemoveConnection c) (s1\<lparr>as_loop := (as_loop s1)\<lparr>lp_pending := []\<rparr>\<rparr>) = Inr s2 \<and>
    server_refs c s2 = 0"
proof -
  have inv: "names_inv s" "table_inv s"
    using server_reachable_inv [OF assms(1,2)] assms(3) by (auto simp: run_inv_def server_ok_def few_def)
  have cb: "tc_close_callback (ss_conns s ! c)" using inv(1) assms(4) by (simp add: names_inv_def)
  let ?s = "s\<lparr>ss_conns := (ss_conns s)[c := close_conn (ss_conns s ! c)]\<rparr>"
  let ?s1 = "server_handleClose (Some (SubLoop i)) c s"
  let ?s2 = "removeConnectionInLoop c (?s1\<lparr>as_loop := (as_loop ?s1)\<lparr>lp_pending := []\<rparr>\<rparr>)"
  have s1: "?s1 = queue_on (Some (SubLoop i)) BaseLoop (RemoveConnection c) ?s"
    using cb assms(5) by (simp add: server_handleClose_def removeConnection_def Let_def)
  have nm: "tc_name (close_conn (ss_conns s ! c)) = tc_name (ss_conns s ! c)" by (simp add: close_conn_def Let_def)
  have step: "server_step U K s ?s1" using server_step.close [OF assms(4), of U K] assms(6) by simp
  have pend: "lp_pending (as_loop ?s1) = [RemoveConnection c]" "ss_loops ?s1 = ss_loops s" "ss_server ?s1 = ss_server s"
    using s1 assms(7) by (simp_all add: queue_on_def)
  have subs: "sum_list (map (\<lambda>l. length (filter (task_refers c) (lp_pending l))) (ss_loops s)) = 0"
    using assms(8) by (simp add: queued_refs_def)
  have refs1: "server_refs c ?s1 = 2"
    using pend subs open_table_entry(1) [OF inv(2) assms(4,5)] by (simp add: server_refs_def queued_refs_def)
  have "tc_name (ss_conns ?s1 ! c) = tc_name (ss_conns s ! c)" using s1 nm assms(4) by simp
  then have "server_refs c ?s2 = 0"
    using pend subs open_table_entry(2) [OF inv(2) assms(4,5)]
    by (auto simp: server_refs_def queued_refs_def removeConnectionInLoop_def filter_empty_conv)
  with step pend(1) refs1 show ?thesis by (intro exI [of _ ?s1] exI [of _ ?s2]) simp
qed

section \<open>A concrete connection\<close>

text \<open>A coroutine that sends two bytes and waits for data, and returns when told of an error.\<close>

definition once_resume ::
    "nat \<Rightarrow> (slots, unit, 'b, nat) conn_sys \<Rightarrow> (slots, unit, 'b, nat) conn_sys outcome" where
  "once_resume h s =
     (if rc_error (the_read s) then Inr (set_conn (\<lambda>c. c\<lparr>tc_done := True\<rparr>) s) else demo_resume h s)"

lemma once_resume_ok: "resume_ok slot_ring B once_resume"
proof -
  have "\<exists>s'. demo_resume h s = Inr s' \<and> (user_step slot_ring B)\<^sup>*\<^sup>* s s'" for h s
    using demo_resume_ok [of B] by (auto simp: resume_ok_def)
  then show ?thesis
    by (auto simp: resume_ok_def once_resume_def intro!: r_into_rtranclp user_finish)
qed

text \<open>The loop may do anything for other connections, so its queue may be empty.\<close>

definition quiet :: "(slots, unit, list_ring_state, nat) conn_sys \<Rightarrow> (slots, unit, list_ring_state, nat) conn_sys" where
  "quiet s = s\<lparr>cs_loop := (cs_loop s)\<lparr>lp_pending := []\<rparr>\<rparr>"

lemma quiet_fields [simp]:
  "cs_conn (quiet s) = cs_conn s" "cs_reads (quiet s) = cs_reads s" "cs_writes (quiet s) = cs_writes s"
  "lp_pending (cs_loop (quiet s)) = []" "cs_accepted (quiet s) = cs_accepted s"
  by (simp_all add: quiet_def)

lemma quiet_reachable: "conn_reachable U B resume wire s \<Longrightarrow> conn_reachable U B resume wire (quiet s)"
  unfolding quiet_def by (rule conn_reachable.other_loop) simp_all

lemma once_started_reachable: "conn_reachable slot_ring list_ring once_resume [] (quiet demo_started)"
proof -
  have "the_read demo_sys = ReadContext 1024 8 5"
    by (simp add: demo_sys_def TcpConnection_def WriteContext_def)
  then have "Established once_resume 0 demo_sys = Inr demo_started"
    by (simp add: demo_started_def Established_def co_resume_def once_resume_def demo_resume_def ReadContext_def)
  with demo_sys_fresh have "conn_reachable slot_ring list_ring once_resume [] demo_started"
    by (rule conn_reachable.start)
  then show ?thesis by (rule quiet_reachable)
qed

lemmas once_run = slot_ring_laws zero_less_numeral [of "num.Bit0 num.One"] once_resume_ok

lemma once_started_inv: "conn_inv False False [] (quiet demo_started)"
  by (rule conn_reachable_inv [OF once_run once_started_reachable])

text \<open>The peer closes while the write is in flight: then only the write holds the connection.\<close>

lemma once_closed:
  "\<exists>s. conn_reachable slot_ring list_ring once_resume [] s \<and> write_is_last s \<and>
     batch_bytes s = sq_content (wc_buffer (the_write s))"
proof -
  let ?d = "quiet demo_started"
  have f: "rc_holder (the_read ?d)" "rc_status (the_read ?d) = CANCELING \<or> rc_status (the_read ?d) = READING"
    "0 < cs_reads ?d" "tc_task (cs_conn ?d)" "\<not> tc_closing (cs_conn ?d)" "cs_writes ?d = 1"
    using read_outstanding [OF once_started_inv] demo_started_fields once_started_inv
    by (auto simp: conn_inv_def handle_inv_def)
  have legal: "receive_legal 0 0 ?d" by (simp add: receive_legal_def cqe_has_more_def)
  let ?s1 = "set_read (\<lambda>_. (the_read ?d)\<lparr>rc_res := 0, rc_flags := 0, rc_error := True\<rparr>) (read_delivered 0 0 ?d)"
  let ?s = "set_read (\<lambda>r. r\<lparr>rc_holder := False, rc_status := STOPED\<rparr>)
    (handleClose (set_conn (\<lambda>c. c\<lparr>tc_done := True\<rparr>) ?s1))"
  have "read_on_completion slot_ring once_resume (read_delivered 0 0 ?d) = Inr ?s"
    using f demo_started_fields(4)
    by (simp add: read_on_completion_def read_handleError_def cqe_has_more_def co_resume_def once_resume_def
        read_delivered_def)
  then have r: "conn_reachable slot_ring list_ring once_resume [] ?s"
    by (rule conn_reachable.read_done [OF once_started_reachable f(3) legal])
  have w: "the_write ?s = the_write demo_started" "cs_accepted ?s = [1, 2]"
    using demo_started_fields(5,3) by (simp_all add: handleClose_def Let_def read_delivered_def)
  have "write_is_last ?s"
    using f demo_started_fields
    by (simp add: write_is_last_def handleClose_def Let_def read_delivered_def cqe_has_more_def)
  moreover have "sq_content (wc_buffer (the_write ?s)) = [1, 2]"
    using conn_reachable_inv [OF once_run r] w(2) by (simp add: conn_inv_def write_inv_def)
  ultimately show ?thesis using r w(1) demo_started_fields(6) by (intro exI [of _ ?s]) simp
qed

text \<open>The write is complete and the coroutine waits for data.\<close>

lemma once_waiting:
  "\<exists>s. conn_reachable slot_ring list_ring once_resume [1, 2] s \<and> cs_reads s = 1 \<and> cs_writes s = 0 \<and>
     rc_handle (the_read s) = Some 0 \<and> lp_pending (cs_loop s) = []"
proof -
  let ?d = "quiet demo_started"
  have w: "write_inv False [] ?d" using once_started_inv by (simp only: conn_inv_def)
  have c: "sq_content (wc_buffer (the_write ?d)) = [1, 2]"
    using w demo_started_fields(3) by (simp add: write_inv_def)
  have h: "wc_holder (the_write ?d)"
    using w demo_started_fields(1) by (cases "wc_sending (the_write demo_started)") (simp_all add: write_inv_def)
  obtain q where q: "sq_retrieve (of_int (int 2)) (wc_buffer (the_write ?d)) = Some (Inr q)" "sq_total_len q = 0"
    using retrieve_all [OF w] c demo_started_fields(1) by (auto simp: numeral_2_eq_2)
  let ?s = "set_write (\<lambda>w. w\<lparr>wc_sending := False, wc_holder := False\<rparr>)
    (set_write (\<lambda>w. w\<lparr>wc_buffer := q\<rparr>) (write_delivered 2 0 ?d))"
  have "write_on_completion slot_ring once_resume (write_delivered 2 0 ?d) = Inr ?s"
    using h q demo_started_fields(5)
    by (simp add: write_on_completion_def write_delivered_write wake_writer_def)
  moreover have "write_legal 2 ?d" "0 < cs_writes ?d"
    using demo_started_fields by (simp_all add: write_legal_def)
  ultimately have "conn_reachable slot_ring list_ring once_resume ([] @ take (nat 2) (batch_bytes ?d)) ?s"
    by (intro conn_reachable.write_done [OF once_started_reachable])
  then show ?thesis
    using demo_started_fields by (intro exI [of _ ?s]) (simp add: write_delivered_def)
qed


theorem last_write_dangles_witness:
  "\<exists>s. conn_reachable slot_ring list_ring once_resume [] s \<and>
     write_on_completion_life (\<lambda>_. 0) slot_ring once_resume (write_delivered (int (length (batch_bytes s))) 0 s) =
       Inl NullDeref"
proof -
  obtain s :: "(slots, unit, list_ring_state, nat) conn_sys" where
    s: "conn_reachable slot_ring list_ring once_resume [] s" "write_is_last s"
    "batch_bytes s = sq_content (wc_buffer (the_write s))" using once_closed by blast
  have "write_on_completion_life (\<lambda>_. 0) slot_ring once_resume (write_delivered (int (length (batch_bytes s))) 0 s) =
      Inl NullDeref"
    by (rule last_write_dangles [OF once_run s]) simp
  with s(1) show ?thesis by blast
qed

theorem end_of_stream_dangles_witness:
  "\<exists>s. conn_reachable slot_ring list_ring once_resume [1, 2] s \<and>
     read_on_completion_life (\<lambda>_. 0) slot_ring once_resume (read_delivered 0 0 s) = Inl NullDeref"
proof -
  obtain s :: "(slots, unit, list_ring_state, nat) conn_sys" where
    s: "conn_reachable slot_ring list_ring once_resume [1, 2] s" "cs_reads s = 1" "cs_writes s = 0"
    "rc_handle (the_read s) = Some 0" "lp_pending (cs_loop s) = []" using once_waiting by blast
  have "read_on_completion_life (\<lambda>_. 0) slot_ring once_resume (read_delivered 0 0 s) = Inl NullDeref"
    by (rule end_of_stream_dangles [OF once_run s(1) _ s(3,4)])
      (simp_all add: s cqe_has_more_def once_resume_def)
  with s(1) show ?thesis by blast
qed

theorem close_on_base_loop_releases_witness:
  "\<exists>s :: (slots, unit, nat, unit) server_sys. server_reachable slot_ring demo_kernel s \<and>
     server_refs 0 (server_handleClose (Some BaseLoop) 0 s) + 1 = server_refs 0 s"
proof -
  obtain s :: "(slots, unit, nat, unit) server_sys" where s: "server_reachable slot_ring demo_kernel s"
    "length (ss_conns s) = 1" "\<not> tc_closing (ss_conns s ! 0)"
    using demo_server_connected by blast
  from close_on_base_loop_releases [OF slot_ring_laws s(1) _ _ s(3)] s show ?thesis by auto
qed

text \<open>The first connection of the server, after its sub-loop has started it.\<close>

lemma demo_server_established:
  "\<exists>s :: (slots, unit, nat, unit) server_sys. server_reachable slot_ring demo_kernel s \<and>
     length (ss_conns s) = 1 \<and> \<not> tc_closing (ss_conns s ! 0) \<and> ss_conn_loops s ! 0 = SubLoop 0 \<and>
     lp_pending (as_loop s) = [] \<and> queued_refs 0 s = 0"
proof -
  obtain s :: "(slots, unit, nat, unit) server_sys" where s: "server_reachable slot_ring demo_kernel s"
    "length (ss_conns s) = 1" "\<not> tc_closing (ss_conns s ! 0)" "ss_conn_loops s = [SubLoop 0]"
    "length (ss_loops s) = 1" "lp_pending (as_loop s) = []" "lp_pending (ss_loops s ! 0) = [EstablishConnection 0]"
    using demo_server_connected by (elim exE conjE)
  let ?d = "s\<lparr>ss_loops := (ss_loops s)[0 := (ss_loops s ! 0)\<lparr>lp_pending := []\<rparr>]\<rparr>"
  let ?t = "?d\<lparr>ss_conns := (ss_conns ?d)[0 := (ss_conns ?d ! 0)\<lparr>tc_task := True, tc_done := False\<rparr>]\<rparr>"
  have "run_server_task slot_ring demo_kernel (SubLoop 0) (EstablishConnection 0) ?d = Inr ?t"
    by (rule run_server_task.simps(2))
  then have "server_step slot_ring demo_kernel s ?t"
    using s(5,7) by (intro server_step.sub_task [of 0 s "EstablishConnection 0" "[]"]) simp_all
  then have "server_reachable slot_ring demo_kernel ?t"
    using s(1) unfolding server_reachable_def by (meson rtranclp.rtrancl_into_rtrancl)
  moreover obtain l where "ss_loops s = [l]" using s(5) by (auto simp: length_Suc_conv)
  then have "queued_refs 0 ?t = 0" using s(6) by (simp add: queued_refs_def)
  ultimately show ?thesis using s by (intro exI [of _ ?t]) simp
qed

theorem sub_loop_released_by_base_loop_witness:
  "\<exists>s :: (slots, unit, nat, unit) server_sys. server_reachable slot_ring demo_kernel s \<and>
     ss_conn_loops s ! 0 = SubLoop 0 \<and> server_refs 0 (server_handleClose (Some (SubLoop 0)) 0 s) = 2"
proof -
  obtain s :: "(slots, unit, nat, unit) server_sys" where s: "server_reachable slot_ring demo_kernel s"
    "length (ss_conns s) = 1" "\<not> tc_closing (ss_conns s ! 0)" "ss_conn_loops s ! 0 = SubLoop 0"
    "lp_pending (as_loop s) = []" "queued_refs 0 s = 0" using demo_server_established by (elim exE conjE)
  from sub_loop_released_by_base_loop [OF slot_ring_laws s(1) _ _ s(3-6)] s(1,2,4) show ?thesis by auto
qed

end
