(* ===== verification/Connection_Footprint.thy ===== *)
theory Connection_Footprint
  imports Connection_Relation Chunk_Ownership
begin

text \<open>
  What the handlers of one connection do to the loop and to the chunk pool it shares with others: the
  loop keeps its parameters and its timers, and only the chunks of the connection change, together
  with the one the kernel has just filled for it.
\<close>

section \<open>What a connection does to the loop and to the pool\<close>

definition loop_kept :: "('r, 'f, 'cb) io_loop \<Rightarrow> ('r, 'f, 'cb) io_loop \<Rightarrow> bool" where
  "loop_kept l l' \<longleftrightarrow>
     lp_low_water l' = lp_low_water l \<and> lp_timers l' = lp_timers l \<and>
     (WakeupCtx \<notin> set (lp_waiting l) \<longrightarrow> WakeupCtx \<notin> set (lp_waiting l'))"

text \<open>
  \<open>pool_frame B S T m m'\<close>: of the chunks \<open>S\<close> that may have been touched, \<open>T\<close> are still in use; the others
  are empty and back in the ring, behind those already there. All other chunks are as before.
\<close>

definition pool_frame ::
    "'b buf_ring_api \<Rightarrow> nat set \<Rightarrow> nat set \<Rightarrow> 'b chunk_manager \<Rightarrow> 'b chunk_manager \<Rightarrow> bool" where
  "pool_frame B S T m m' \<longleftrightarrow>
     T \<subseteq> S \<and> manager_wf m' \<and> cm_pool m' = cm_pool m \<and> cm_chunk_size m' = cm_chunk_size m \<and>
     length (cm_chunks_data m') = length (cm_chunks_data m) \<and>
     (\<forall>i. i \<notin> S \<longrightarrow> cm_chunks_data m' ! i = cm_chunks_data m ! i) \<and> (\<forall>i\<in>S - T. fresh m' i) \<and>
     (\<exists>ps. distinct ps \<and> set ps = S - T \<and> cm_ring m' = fold (refill B m) ps (cm_ring m))"

lemma pool_frame_refl: "manager_wf m \<Longrightarrow> pool_frame B S S m m"
  by (simp add: pool_frame_def)

lemma pool_frame_ring:
  assumes wf: "manager_wf m" and S: "S \<subseteq> {..<length (cm_chunks_data m)}"
    and "pool_frame B S T m m1" and "pool_frame B T V m1 m2"
  shows "\<exists>ps. distinct ps \<and> set ps = S - V \<and> cm_ring m2 = fold (refill B m) ps (cm_ring m)"
proof -
  obtain ps qs where p: "distinct ps" "set ps = S - T" "cm_ring m1 = fold (refill B m) ps (cm_ring m)"
    and q: "distinct qs" "set qs = T - V" "cm_ring m2 = fold (refill B m1) qs (cm_ring m1)"
    using assms(3,4) unfolding pool_frame_def by metis
  have m1: "manager_wf m1" "cm_pool m1 = cm_pool m" "cm_chunk_size m1 = cm_chunk_size m"
    "length (cm_chunks_data m1) = length (cm_chunks_data m)" and sub: "T \<subseteq> S" "V \<subseteq> T"
    using assms(3,4) by (simp_all add: pool_frame_def)
  have "refill B m1 i = refill B m i" if "i \<in> set qs" for i
  proof -
    have "i < length (cm_chunks_data m)" using that q(2) sub(1) S by auto
    from manager_wf_idx [OF wf m1 this] show ?thesis by (simp add: refill_def fun_eq_iff)
  qed
  then have "fold (refill B m1) qs r = fold (refill B m) qs r" for r by (intro fold_cong) simp_all
  then have "cm_ring m2 = fold (refill B m) (ps @ qs) (cm_ring m)" using p(3) q(3) by simp
  moreover have "distinct (ps @ qs)" "set (ps @ qs) = S - V" using p q sub by auto
  ultimately show ?thesis by blast
qed

lemma pool_frame_trans:
  assumes wf: "manager_wf m" "S \<subseteq> {..<length (cm_chunks_data m)}"
    and fr: "pool_frame B S T m m1" "pool_frame B T V m1 m2"
  shows "pool_frame B S V m m2"
proof -
  have "fresh m2 i" if "i \<in> S - V" for i
  proof (cases "i \<in> T")
    case True
    then show ?thesis using that fr(2) by (auto simp: pool_frame_def)
  next
    case False
    then have "cm_chunks_data m2 ! i = cm_chunks_data m1 ! i" "fresh m1 i"
      using that fr by (auto simp: pool_frame_def)
    then show ?thesis by (simp add: fresh_def)
  qed
  with fr pool_frame_ring [OF wf fr] show ?thesis by (auto simp: pool_frame_def)
qed

lemma icb_rep_wf: "icb_rep m b xs \<Longrightarrow> manager_wf m"
  by (auto simp: icb_rep_def dest: icb_links_wf)

lemma icb_rep_chunks: "icb_rep m b xs \<Longrightarrow> set xs \<subseteq> {..<length (cm_chunks_data m)} \<and> distinct xs"
  by (simp add: icb_rep_def icb_links_def icb_shape_def)

lemma pool_frame_consumed:
  assumes rep: "icb_rep m b xs" and "consumed B (set xs) ps m m'" and "xs = ps @ xs'"
  shows "pool_frame B (set xs) (set xs') m m'"
proof -
  have d: "distinct (ps @ xs')" using icb_rep_chunks [OF rep] assms(3) by simp
  then have "distinct ps \<and> set ps = set xs - set xs' \<and> cm_ring m' = fold (refill B m) ps (cm_ring m)"
    using assms(2,3) by (auto simp: consumed_def)
  moreover have "fresh m' i" if "i \<in> set xs - set xs'" for i
    using that assms(2,3) by (auto simp: consumed_def fresh_def)
  ultimately show ?thesis using assms(2,3) by (auto simp: pool_frame_def consumed_def)
qed

text \<open>A handler that gives its connection no new chunk.\<close>

definition conn_moves ::
    "'b buf_ring_api \<Rightarrow> ('r, 'cb, 'b, 'k) conn_sys \<Rightarrow> ('r, 'cb, 'b, 'k) conn_sys \<Rightarrow> bool" where
  "conn_moves B s s' \<longleftrightarrow>
     loop_kept (cs_loop s) (cs_loop s') \<and>
     (\<forall>xs. icb_rep (cs_manager s) (rc_buffer (the_read s)) xs \<longrightarrow>
        (\<exists>xs'. icb_rep (cs_manager s') (rc_buffer (the_read s')) xs' \<and>
           pool_frame B (set xs) (set xs') (cs_manager s) (cs_manager s')))"

lemma conn_moves_loop:
  assumes "loop_kept (cs_loop s) (cs_loop s')" and "cs_manager s' = cs_manager s"
    and "rc_buffer (the_read s') = rc_buffer (the_read s)"
  shows "conn_moves B s s'"
  using assms by (auto simp: conn_moves_def intro: pool_frame_refl dest: icb_rep_wf)

lemma conn_moves_trans:
  assumes "conn_moves B s t" and "conn_moves B t u"
  shows "conn_moves B s u"
proof -
  have "loop_kept (cs_loop s) (cs_loop u)"
    using assms by (auto simp: conn_moves_def loop_kept_def)
  moreover have "\<exists>zs. icb_rep (cs_manager u) (rc_buffer (the_read u)) zs \<and>
      pool_frame B (set xs) (set zs) (cs_manager s) (cs_manager u)"
    if rep: "icb_rep (cs_manager s) (rc_buffer (the_read s)) xs" for xs
  proof -
    obtain ys zs where "pool_frame B (set xs) (set ys) (cs_manager s) (cs_manager t)"
      "icb_rep (cs_manager u) (rc_buffer (the_read u)) zs"
      "pool_frame B (set ys) (set zs) (cs_manager t) (cs_manager u)"
      using assms rep unfolding conn_moves_def by meson
    with pool_frame_trans icb_rep_wf [OF rep] icb_rep_chunks [OF rep] show ?thesis by blast
  qed
  ultimately show ?thesis by (simp add: conn_moves_def)
qed

text \<open>Submissions keep the loop's parameters and queue contexts of connections only.\<close>

lemma submit_sqe_kept: "submit_sqe U f q l = Inr l' \<Longrightarrow> loop_kept l l'"
  by (auto simp: submit_sqe_def getIoUringSqe_def loop_kept_def outcome_iff split: if_splits option.splits prod.splits)

lemma submit_kept:
  "submitWriteMsg U fd vs (WriteCtx c) l = Inr l' \<Longrightarrow> loop_kept l l'"
  "submitReadMultishut U fd (ReadCtx c) l = Inr l' \<Longrightarrow> loop_kept l l'"
  "submitCancel U ctx l = Inr l' \<Longrightarrow> loop_kept l l'"
  by (auto simp: submit_defs submitCancel_def outcome_iff split: if_splits dest!: submit_sqe_kept)
    (simp_all add: loop_kept_def)

lemma queueInLoop_kept: "loop_kept l (queueInLoop b t l)"
  by (simp add: loop_kept_def queueInLoop_def queue_push_def queue_wake_def wakeUp_def)

lemma conn_retrieve_moves:
  assumes "conn_retrieve B n s = Inr s'"
  shows "conn_moves B s s'"
proof -
  have "\<exists>xs'. icb_rep (cs_manager s') (rc_buffer (the_read s')) xs' \<and>
      pool_frame B (set xs) (set xs') (cs_manager s) (cs_manager s')"
    if rep: "icb_rep (cs_manager s) (rc_buffer (the_read s)) xs" for xs
  proof -
    obtain m b ps xs' where r: "icb_retrieve B (cs_manager s) (rc_buffer (the_read s)) n = Some (Inr (m, b))"
      "icb_rep m b xs'" "xs = ps @ xs'" "consumed B (set xs) ps (cs_manager s) m"
      using icb_retrieve_ok [OF rep, of B n undefined] by blast
    then have "s' = set_read (\<lambda>r. r\<lparr>rc_buffer := b\<rparr>) (s\<lparr>cs_manager := m\<rparr>)"
      using assms by (simp add: conn_retrieve_def)
    then show ?thesis using r(2) pool_frame_consumed [OF rep r(4,3)] by auto
  qed
  moreover have "cs_loop s' = cs_loop s" using assms by (auto simp: conn_retrieve_def outcome_iff)
  ultimately show ?thesis by (simp add: conn_moves_def loop_kept_def)
qed

lemma conn_read_moves:
  assumes "conn_read mem B n s = Inr (str, s')"
  shows "conn_moves B s s'"
proof -
  have "\<exists>xs'. icb_rep (cs_manager s') (rc_buffer (the_read s')) xs' \<and>
      pool_frame B (set xs) (set xs') (cs_manager s) (cs_manager s')"
    if rep: "icb_rep (cs_manager s) (rc_buffer (the_read s)) xs" for xs
  proof -
    obtain m b ps xs' t where r: "removeAsString mem B (cs_manager s) (rc_buffer (the_read s)) n = Some (Inr (m, b, t))"
      "icb_rep m b xs'" "xs = ps @ xs'" "consumed B (set xs) ps (cs_manager s) m"
      using removeAsString_ok [OF rep, of mem B n] by blast
    then have "s' = set_read (\<lambda>r. r\<lparr>rc_buffer := b\<rparr>) (s\<lparr>cs_manager := m\<rparr>)"
      using assms by (simp add: conn_read_def)
    then show ?thesis using r(2) pool_frame_consumed [OF rep r(4,3)] by auto
  qed
  moreover have "cs_loop s' = cs_loop s" using assms by (auto simp: conn_read_def outcome_iff)
  ultimately show ?thesis by (simp add: conn_moves_def loop_kept_def)
qed

interpretation moving: conn_relation "conn_moves B :: ('r, 'cb, 'b, 'k) conn_sys \<Rightarrow> _" U B
  for U :: "'r uring_api" and B :: "'b buf_ring_api"
proof unfold_locales
  show "submitWrite U s = Inr s' \<Longrightarrow> conn_moves B s s'" for s s' :: "('r, 'cb, 'b, 'k) conn_sys"
    by (auto simp: submitWrite_def outcome_iff dest!: submit_kept(1) intro!: conn_moves_loop)
  show "submitRead U s = Inr s' \<Longrightarrow> conn_moves B s s'" for s s' :: "('r, 'cb, 'b, 'k) conn_sys"
    by (auto simp: submitRead_def outcome_iff Let_def dest!: submit_kept(2) intro!: conn_moves_loop)
  show "conn_moves B s (queue_task in_loop task s)" for s :: "('r, 'cb, 'b, 'k) conn_sys" and in_loop task
    unfolding queue_task_def by (rule conn_moves_loop) (simp_all add: queueInLoop_kept)
qed (auto intro: conn_moves_trans conn_retrieve_moves conn_read_moves conn_moves_loop simp: loop_kept_def)

text \<open>The arrival of data takes the chunk the kernel names.\<close>

definition taken_chunks :: "int \<Rightarrow> u32 \<Rightarrow> nat set" where
  "taken_chunks res fl = (if 0 < res then {unat (cqe_buffer fl)} else {})"

lemma read_data_moves:
  assumes "read_data U s = Inr s'" and rep: "icb_rep (cs_manager s) (rc_buffer (the_read s)) xs"
    and legal: "receive_legal (rc_res (the_read s)) (rc_flags (the_read s)) s" "0 < rc_res (the_read s)"
  shows "loop_kept (cs_loop s) (cs_loop s') \<and> (\<exists>xs'. icb_rep (cs_manager s') (rc_buffer (the_read s')) xs' \<and>
    pool_frame B (set xs \<union> taken_chunks (rc_res (the_read s)) (rc_flags (the_read s))) (set xs')
      (cs_manager s) (cs_manager s'))"
proof -
  let ?m = "cs_manager s" and ?i = "cqe_buffer (rc_flags (the_read s))"
  have i: "unat ?i < length (cm_chunks_data ?m)" "unat ?i \<notin> set xs" "fresh ?m (unat ?i)"
    "nat (rc_res (the_read s)) \<le> unat (cm_chunk_size ?m)"
    using legal icb_chain_rep [OF rep] by (auto simp: receive_legal_def)
  obtain m b where a: "icb_append ?m (rc_buffer (the_read s)) ?i (rc_res (the_read s)) = Inr (m, b)"
    "icb_rep m b (xs @ [unat ?i])" "cm_ring m = cm_ring ?m" "cm_chunk_size m = cm_chunk_size ?m" "cm_pool m = cm_pool ?m"
    "length (cm_chunks_data m) = length (cm_chunks_data ?m)"
    "\<And>j. j \<notin> set xs \<Longrightarrow> j \<noteq> unat ?i \<Longrightarrow> cm_chunks_data m ! j = cm_chunks_data ?m ! j"
    using icb_append_ok [OF rep i(1-3) legal(2) i(4), of undefined] by blast
  have fr: "pool_frame B (set xs \<union> {unat ?i}) (set (xs @ [unat ?i])) ?m m"
    using a icb_rep_wf [OF a(2)] by (auto simp: pool_frame_def)
  have s': "cs_manager s' = m" "rc_buffer (the_read s') = b" "loop_kept (cs_loop s) (cs_loop s')"
    using assms(1) a(1)
    by (auto simp: read_data_def conn_submitCancel_def outcome_iff Let_def loop_kept_def split: if_splits
        dest!: submit_kept(3))
  show ?thesis using a(2) fr legal(2) s' by (auto simp: taken_chunks_def)
qed

lemma read_completion_moves:
  assumes co: "resume_ok U B resume" and r: "read_on_completion U resume (read_delivered res fl s) = Inr s'"
    and rep: "icb_rep (cs_manager s) (rc_buffer (the_read s)) xs" and legal: "receive_legal res fl s"
  shows "loop_kept (cs_loop s) (cs_loop s') \<and> (\<exists>xs'. icb_rep (cs_manager s') (rc_buffer (the_read s')) xs' \<and>
    pool_frame B (set xs \<union> taken_chunks res fl) (set xs') (cs_manager s) (cs_manager s'))"
proof -
  let ?d = "read_delivered res fl s"
  obtain close s1 where s1: "read_arrived U ?d s1" "read_tail U resume close s1 = Inr s'"
    using read_on_completion_tail [OF r] by blast
  have "loop_kept (cs_loop s) (cs_loop s1) \<and> (\<exists>ys. icb_rep (cs_manager s1) (rc_buffer (the_read s1)) ys \<and>
      pool_frame B (set xs \<union> taken_chunks res fl) (set ys) (cs_manager s) (cs_manager s1))"
  proof (cases "0 < res")
    case True
    have "receive_legal (rc_res (the_read ?d)) (rc_flags (the_read ?d)) ?d"
      using legal by (simp add: receive_legal_def)
    then show ?thesis
      using read_data_moves [of U ?d s1 xs] s1(1) rep True by (auto simp: read_arrived_def)
  next
    case False
    then have "s1 = set_read (\<lambda>_. snd (read_handleError (the_read ?d))) ?d"
      using s1(1) by (simp add: read_arrived_def)
    then have "cs_loop s1 = cs_loop s" "cs_manager s1 = cs_manager s"
      "rc_buffer (the_read s1) = rc_buffer (the_read s)" by simp_all
    with False rep icb_rep_wf [OF rep] show ?thesis
      by (auto simp: taken_chunks_def loop_kept_def intro: pool_frame_refl)
  qed
  then obtain ys where ys: "loop_kept (cs_loop s) (cs_loop s1)"
    "icb_rep (cs_manager s1) (rc_buffer (the_read s1)) ys"
    "pool_frame B (set xs \<union> taken_chunks res fl) (set ys) (cs_manager s) (cs_manager s1)" by blast
  obtain zs where "icb_rep (cs_manager s') (rc_buffer (the_read s')) zs"
    "pool_frame B (set ys) (set zs) (cs_manager s1) (cs_manager s')" "loop_kept (cs_loop s1) (cs_loop s')"
    using moving.R_read_tail [OF co s1(2)] ys(2) by (auto simp: conn_moves_def)
  moreover have "set xs \<union> taken_chunks res fl \<subseteq> {..<length (cm_chunks_data (cs_manager s))}"
    using icb_rep_chunks [OF rep] legal by (auto simp: taken_chunks_def receive_legal_def)
  ultimately show ?thesis using ys pool_frame_trans [OF icb_rep_wf [OF rep] _ ys(3)] by (auto simp: loop_kept_def)
qed

end
