(* ===== verification/Loop_System.thy ===== *)
theory Loop_System
  imports Connection_Footprint
begin

text \<open>
  An event loop with the connections it serves, its chunk pool and its timers, put together from the
  components: \<open>IoUringLoop::loop\<close> (src/IoUringLoop.cc) dispatches completions to the contexts of any
  number of connections that share the loop and the pool, and runs their functors and its timers.
\<close>

section \<open>The loop with its connections\<close>

text \<open>
  A connection of the loop: the object, what \<open>conn_sys\<close> counts for it, and the bytes the kernel has
  taken; no operation reads \<open>hc_wire\<close>.
\<close>

record 'k hosted =
  hc_conn :: "'k tcp_connection"
  hc_reads :: nat
  hc_writes :: nat
  hc_accepted :: "byte list"
  hc_wire :: "byte list"

text \<open>
  The connections and the pool they share; \<open>ho_kernel\<close> are the chunks the kernel has taken from the ring
  and not yet reported, which no operation reads.
\<close>

record ('b, 'k) host =
  ho_manager :: "'b chunk_manager"
  ho_conns :: "nat \<rightharpoonup> 'k hosted"
  ho_kernel :: "nat set"

text \<open>
  The functors of a loop: those of its connections, \<open>Established\<close> of a connection the server has given
  to the loop, and those of the timer queue.
\<close>

datatype 'k host_task =
    ConnTask nat "'k conn_task"
  | StartConnection "'k tcp_connection" 'k
  | TimerTask timer_task

text \<open>
  What is not in the repository: liburing (with \<open>he_avail\<close>, the buffers in the ring, as an observation),
  the coroutines, the allocator and the timers' callbacks; and \<open>CHUNK_NUM\<close>, the number of chunks.
\<close>

record ('r, 'cb, 'b, 'k) host_env =
  he_uring :: "'r uring_api"
  he_bufs :: "'b buf_ring_api"
  he_avail :: "'b \<Rightarrow> buf list"
  he_chunks :: nat
  he_resume :: "'k \<Rightarrow> ('r, 'cb, 'b, 'k) conn_sys \<Rightarrow> ('r, 'cb, 'b, 'k) conn_sys outcome"
  he_alloc :: "(nat \<rightharpoonup> 'cb timer) \<Rightarrow> nat"
  he_script :: "'cb \<Rightarrow> 'cb timer_queue \<Rightarrow> 'cb timer_call list"

text \<open>
  The loop as a connection sees it, and the loop after a handler of connection \<open>c\<close>: the functors the
  handler has queued go behind those already there.
\<close>

definition loop_view :: "('r, 'k host_task, 'cb) io_loop \<Rightarrow> ('r, 'k conn_task, 'cb) io_loop" where
  "loop_view l =
     \<lparr>lp_ring = lp_ring l, lp_looping = lp_looping l, lp_quit = lp_quit l, lp_time_out = lp_time_out l,
      lp_low_water = lp_low_water l, lp_bgid = lp_bgid l, lp_pending = [], lp_calling = lp_calling l,
      lp_wakeup_fd = lp_wakeup_fd l, lp_eventfd = lp_eventfd l, lp_waiting = lp_waiting l,
      lp_timers = lp_timers l\<rparr>"

definition loop_back ::
    "nat \<Rightarrow> ('r, 'k host_task, 'cb) io_loop \<Rightarrow> ('r, 'k conn_task, 'cb) io_loop \<Rightarrow>
     ('r, 'k host_task, 'cb) io_loop" where
  "loop_back c l v =
     \<lparr>lp_ring = lp_ring v, lp_looping = lp_looping v, lp_quit = lp_quit v, lp_time_out = lp_time_out v,
      lp_low_water = lp_low_water v, lp_bgid = lp_bgid v,
      lp_pending = lp_pending l @ map (ConnTask c) (lp_pending v), lp_calling = lp_calling v,
      lp_wakeup_fd = lp_wakeup_fd v, lp_eventfd = lp_eventfd v, lp_waiting = lp_waiting v,
      lp_timers = lp_timers v\<rparr>"

definition conn_view ::
    "('r, 'k host_task, 'cb) io_loop \<Rightarrow> 'b chunk_manager \<Rightarrow> 'k hosted \<Rightarrow> ('r, 'cb, 'b, 'k) conn_sys" where
  "conn_view l m hc =
     \<lparr>cs_loop = loop_view l, cs_manager = m, cs_conn = hc_conn hc, cs_reads = hc_reads hc,
      cs_writes = hc_writes hc, cs_accepted = hc_accepted hc\<rparr>"

definition hosted_of :: "byte list \<Rightarrow> ('r, 'cb, 'b, 'k) conn_sys \<Rightarrow> 'k hosted" where
  "hosted_of wire s =
     \<lparr>hc_conn = cs_conn s, hc_reads = cs_reads s, hc_writes = cs_writes s,
      hc_accepted = cs_accepted s, hc_wire = wire\<rparr>"

text \<open>A handler of connection \<open>c\<close>; \<open>taken\<close> are the bytes the kernel reports as taken.\<close>

definition with_conn ::
    "nat \<Rightarrow> (('r, 'cb, 'b, 'k) conn_sys \<Rightarrow> ('r, 'cb, 'b, 'k) conn_sys outcome) \<Rightarrow>
     (('r, 'cb, 'b, 'k) conn_sys \<Rightarrow> byte list) \<Rightarrow> ('r, 'k host_task, 'cb) io_loop \<times> ('b, 'k) host \<Rightarrow>
     (('r, 'k host_task, 'cb) io_loop \<times> ('b, 'k) host) outcome" where
  "with_conn c f taken = (\<lambda>(l, w).
     case ho_conns w c of
       None \<Rightarrow> Inl NullDeref
     | Some hc \<Rightarrow>
         andThen (f (conn_view l (ho_manager w) hc)) (\<lambda>s.
           Inr (loop_back c l (cs_loop s),
                w\<lparr>ho_manager := cs_manager s,
                  ho_conns := (ho_conns w)
                    (c \<mapsto> hosted_of (hc_wire hc @ taken (conn_view l (ho_manager w) hc)) s)\<rparr>)))"

text \<open>
  The \<open>switch\<close> on the kind of the context in \<open>IoUringLoop::loop\<close>. A loop of the pool has no acceptor; the
  completion of the read of the eventfd has taken its counter.
\<close>

fun host_complete ::
    "('r, 'cb, 'b, 'k) host_env \<Rightarrow> io_context \<Rightarrow> int \<Rightarrow> u32 \<Rightarrow>
     ('r, 'k host_task, 'cb) io_loop \<times> ('b, 'k) host \<Rightarrow>
     (('r, 'k host_task, 'cb) io_loop \<times> ('b, 'k) host) outcome" where
  "host_complete E (ReadCtx c) res fl s =
     andThen (with_conn c (\<lambda>t. read_on_completion (he_uring E) (he_resume E) (read_delivered res fl t)) (\<lambda>_. []) s)
       (\<lambda>(l, w). Inr (l, w\<lparr>ho_kernel := ho_kernel w - taken_chunks res fl\<rparr>))"
| "host_complete E (WriteCtx c) res fl s =
     with_conn c (\<lambda>t. write_on_completion (he_uring E) (he_resume E) (write_delivered res fl t))
       (\<lambda>t. take (nat res) (batch_bytes t)) s"
| "host_complete E (AcceptCtx c) res fl s = Inl NullDeref"
| "host_complete E WakeupCtx res fl s =
     andThen (loop_on_completion (he_uring E) ((fst s)\<lparr>lp_eventfd := 0\<rparr>)) (\<lambda>l. Inr (l, snd s))"

text \<open>The functors, run by \<open>doingPendingFunctors\<close>.\<close>

fun host_exec ::
    "('r, 'cb, 'b, 'k) host_env \<Rightarrow> 'k host_task \<Rightarrow>
     ('r, 'k host_task, 'cb) io_loop \<times> ('b, 'k) host \<Rightarrow>
     (('r, 'k host_task, 'cb) io_loop \<times> ('b, 'k) host) outcome" where
  "host_exec E (ConnTask c t) s = with_conn c (run_conn_task (he_uring E) (he_resume E) t) (\<lambda>_. []) s"
| "host_exec E (StartConnection conn h) s =
     with_conn (tc_number conn) (Established (he_resume E) h) (\<lambda>_. [])
       (fst s, (snd s)\<lparr>ho_conns := (ho_conns (snd s))(tc_number conn \<mapsto>
          \<lparr>hc_conn = conn, hc_reads = 0, hc_writes = 0, hc_accepted = [], hc_wire = []\<rparr>)\<rparr>)"
| "host_exec E (TimerTask t) s =
     andThen (run_timer_task True t (lp_timers (fst s))) (\<lambda>q. Inr ((fst s)\<lparr>lp_timers := q\<rparr>, snd s))"

text \<open>
  The destruction of connection \<open>c\<close>, and the references to it on this loop: the \<open>holder_\<close>s of its contexts,
  the frame of its coroutine, and the functors that captured the pointer.
\<close>

definition host_destroy ::
    "('r, 'cb, 'b, 'k) host_env \<Rightarrow> nat \<Rightarrow> ('r, 'k host_task, 'cb) io_loop \<times> ('b, 'k) host \<Rightarrow>
     (('r, 'k host_task, 'cb) io_loop \<times> ('b, 'k) host) outcome" where
  "host_destroy E c = (\<lambda>(l, w).
     case ho_conns w c of
       None \<Rightarrow> Inl NullDeref
     | Some hc \<Rightarrow>
         andThen (connection_destroy (he_bufs E) (conn_view l (ho_manager w) hc)) (\<lambda>s.
           Inr (l, w\<lparr>ho_manager := cs_manager s, ho_conns := (ho_conns w)(c := None)\<rparr>)))"

fun captured :: "'k host_task \<Rightarrow> nat option" where
  "captured (ConnTask c DestroyConnection) = Some c"
| "captured (StartConnection conn h) = Some (tc_number conn)"
| "captured _ = None"

definition host_refs :: "nat \<Rightarrow> ('r, 'k host_task, 'cb) io_loop \<Rightarrow> 'k hosted \<Rightarrow> nat" where
  "host_refs c l hc =
     of_bool (rc_holder (tc_read (hc_conn hc))) + of_bool (wc_holder (tc_write (hc_conn hc))) +
     of_bool (tc_task (hc_conn hc)) + length (filter (\<lambda>t. captured t = Some c) (lp_pending l))"

text \<open>The descriptor and the batch a context has when a request kept back is submitted.\<close>

fun host_fd :: "('b, 'k) host \<Rightarrow> io_context \<Rightarrow> int" where
  "host_fd w (ReadCtx c) = (case ho_conns w c of None \<Rightarrow> - 1 | Some hc \<Rightarrow> rc_fd (tc_read (hc_conn hc)))"
| "host_fd w (WriteCtx c) = (case ho_conns w c of None \<Rightarrow> - 1 | Some hc \<Rightarrow> wc_fd (tc_write (hc_conn hc)))"
| "host_fd w _ = - 1"

fun host_data :: "('b, 'k) host \<Rightarrow> io_context \<Rightarrow> iovec list" where
  "host_data w (WriteCtx c) = (case ho_conns w c of None \<Rightarrow> [] | Some hc \<Rightarrow> wc_temp (tc_write (hc_conn hc)))"
| "host_data w _ = []"

definition host_round ::
    "('r, 'cb, 'b, 'k) host_env \<Rightarrow> timestamp \<Rightarrow> cqe list \<Rightarrow>
     ('r, 'k host_task, 'cb) io_loop \<times> ('b, 'k) host \<Rightarrow>
     (('r, 'k host_task, 'cb) io_loop \<times> ('b, 'k) host) outcome" where
  "host_round E = loop_round (he_uring E) (he_alloc E) (he_script E) (host_complete E) host_fd host_data (host_exec E)"

section \<open>What may happen\<close>

text \<open>
  What the kernel may report: completions of outstanding requests that are not kept back, and data
  only in chunks it has taken from the ring.
\<close>

fun ctx_legal ::
    "io_context \<Rightarrow> int \<Rightarrow> u32 \<Rightarrow> ('r, 'k host_task, 'cb) io_loop \<times> ('b, 'k) host \<Rightarrow> bool" where
  "ctx_legal (ReadCtx c) res fl (l, w) \<longleftrightarrow>
     (case ho_conns w c of None \<Rightarrow> False | Some hc \<Rightarrow> count_list (lp_waiting l) (ReadCtx c) < hc_reads hc) \<and>
     (if 0 < res
      then cqe_has_buffer fl \<and> nat res \<le> unat (cm_chunk_size (ho_manager w)) \<and>
           unat (cqe_buffer fl) \<in> ho_kernel w
      else \<not> cqe_has_more fl)"
| "ctx_legal (WriteCtx c) res fl (l, w) \<longleftrightarrow>
     (case ho_conns w c of None \<Rightarrow> False
      | Some hc \<Rightarrow> count_list (lp_waiting l) (WriteCtx c) < hc_writes hc \<and> write_legal res (conn_view l (ho_manager w) hc))"
| "ctx_legal (AcceptCtx c) res fl s \<longleftrightarrow> False"
| "ctx_legal WakeupCtx res fl s \<longleftrightarrow> True"

definition cqe_legal :: "cqe \<Rightarrow> ('r, 'k host_task, 'cb) io_loop \<times> ('b, 'k) host \<Rightarrow> bool" where
  "cqe_legal c s \<longleftrightarrow>
     (case cqe_user_data c of None \<Rightarrow> True | Some ctx \<Rightarrow> ctx_legal ctx (cqe_res c) (cqe_flags c) s)"

text \<open>
  When a functor may run: it belongs to a connection of the loop; a coroutine that asks for data or
  sends from another thread does so on an open connection; a connection to start is new.
\<close>

fun conn_task_legal :: "'k conn_task \<Rightarrow> ('r, 'cb, 'b, 'k) conn_sys \<Rightarrow> bool" where
  "conn_task_legal DestroyConnection s \<longleftrightarrow> True"
| "conn_task_legal (RecvSuspended h) s \<longleftrightarrow> co_elsewhere s"
| "conn_task_legal (SendSuspended data h) s \<longleftrightarrow> co_elsewhere s \<and> sq_admits data (wc_buffer (the_write s))"

fun task_legal :: "'k host_task \<Rightarrow> ('r, 'k host_task, 'cb) io_loop \<times> ('b, 'k) host \<Rightarrow> bool" where
  "task_legal (ConnTask c t) (l, w) \<longleftrightarrow>
     (case ho_conns w c of None \<Rightarrow> False | Some hc \<Rightarrow> conn_task_legal t (conn_view l (ho_manager w) hc))"
| "task_legal (StartConnection conn h) (l, w) \<longleftrightarrow>
     ho_conns w (tc_number conn) = None \<and>
     (\<exists>number name fd here peer a b c conn0. TcpConnection number name fd here peer a b c = Inr conn0 \<and>
        conn = conn0\<lparr>tc_close_callback := True\<rparr>)"
| "task_legal (TimerTask t) s \<longleftrightarrow> True"

text \<open>\<open>ok x s\<close> holds for each element at the moment it is processed.\<close>

fun all_legal :: "('x \<Rightarrow> 's \<Rightarrow> bool) \<Rightarrow> ('x \<Rightarrow> 's \<Rightarrow> 's outcome) \<Rightarrow> 'x list \<Rightarrow> 's \<Rightarrow> bool" where
  "all_legal ok step [] s \<longleftrightarrow> True"
| "all_legal ok step (x # xs) s \<longleftrightarrow>
     ok x s \<and> (case step x s of Inl _ \<Rightarrow> True | Inr s' \<Rightarrow> all_legal ok step xs s')"

definition host_cqe ::
    "('r, 'cb, 'b, 'k) host_env \<Rightarrow> cqe \<Rightarrow> ('r, 'k host_task, 'cb) io_loop \<times> ('b, 'k) host \<Rightarrow>
     (('r, 'k host_task, 'cb) io_loop \<times> ('b, 'k) host) outcome" where
  "host_cqe E c s = dispatch (host_complete E) [c] s"

definition round_legal ::
    "('r, 'cb, 'b, 'k) host_env \<Rightarrow> timestamp \<Rightarrow> cqe list \<Rightarrow>
     ('r, 'k host_task, 'cb) io_loop \<times> ('b, 'k) host \<Rightarrow> bool" where
  "round_legal E now cqes s \<longleftrightarrow>
     (case handleRead (he_alloc E) (he_script E) True now (lp_timers (fst s)) of
        Inl _ \<Rightarrow> True
      | Inr q \<Rightarrow>
          all_legal cqe_legal (host_cqe E) cqes ((fst s)\<lparr>lp_timers := q\<rparr>, snd s) \<and>
          (case dispatch (host_complete E) cqes ((fst s)\<lparr>lp_timers := q\<rparr>, snd s) of
             Inl _ \<Rightarrow> True
           | Inr (l, w) \<Rightarrow>
               (case doingSubmitWaitingTask (he_uring E) (host_fd w) (host_data w) l of
                  Inl _ \<Rightarrow> True
                | Inr l1 \<Rightarrow> all_legal task_legal (host_exec E) (lp_pending l1) (snd (take_pending l1), w))))"

end
