(* ===== verification/Loop_System_Safety.thy ===== *)
theory Loop_System_Safety
  imports Loop_System
begin

text \<open>
  The event loop with all its connections never fails, and every connection of it behaves as it does
  alone: the invariant, the steps, the rounds and the states they reach.
\<close>

section \<open>The invariant\<close>

fun timer_tasks :: "'k host_task list \<Rightarrow> timer_task list" where
  "timer_tasks [] = []"
| "timer_tasks (TimerTask t # ts) = t # timer_tasks ts"
| "timer_tasks (_ # ts) = timer_tasks ts"

lemma timer_tasks_append [simp]: "timer_tasks (xs @ ys) = timer_tasks xs @ timer_tasks ys"
  by (induction xs rule: timer_tasks.induct) simp_all

lemma timer_tasks_conn [simp]: "timer_tasks (map (ConnTask c) ts) = []"
  by (induction ts) simp_all

text \<open>The chunks a connection holds.\<close>

definition foot :: "'b chunk_manager \<Rightarrow> 'k hosted \<Rightarrow> nat set" where
  "foot m hc = set (icb_chain m (rc_buffer (tc_read (hc_conn hc))))"

text \<open>
  The chunks \<open>rs\<close> in the ring, those the kernel has taken and those of the connections are all chunks,
  each in one place only; and only the connections' chunks hold data.
\<close>

definition chunks_inv :: "('r, 'cb, 'b, 'k) host_env \<Rightarrow> ('b, 'k) host \<Rightarrow> nat list \<Rightarrow> bool" where
  "chunks_inv E w rs \<longleftrightarrow>
     manager_wf (ho_manager w) \<and> length (cm_chunks_data (ho_manager w)) = he_chunks E \<and>
     he_avail E (cm_ring (ho_manager w)) = map (chunk_buf (ho_manager w)) rs \<and>
     distinct rs \<and> set rs \<inter> ho_kernel w = {} \<and>
     (\<forall>c hc. ho_conns w c = Some hc \<longrightarrow> foot (ho_manager w) hc \<inter> (set rs \<union> ho_kernel w) = {}) \<and>
     (\<forall>c d hc od. ho_conns w c = Some hc \<longrightarrow> ho_conns w d = Some od \<longrightarrow> c \<noteq> d \<longrightarrow>
        foot (ho_manager w) hc \<inter> foot (ho_manager w) od = {}) \<and>
     set rs \<union> ho_kernel w \<union> (\<Union>hc\<in>ran (ho_conns w). foot (ho_manager w) hc) = {..<he_chunks E} \<and>
     (\<forall>i\<in>set rs \<union> ho_kernel w. fresh (ho_manager w) i)"

lemma chunks_invD:
  assumes "chunks_inv E w rs"
  shows "manager_wf (ho_manager w)" and "distinct rs" and "set rs \<inter> ho_kernel w = {}"
    and "ho_conns w c = Some hc \<Longrightarrow> foot (ho_manager w) hc \<inter> (set rs \<union> ho_kernel w) = {}"
    and "ho_conns w c = Some hc \<Longrightarrow> ho_conns w d = Some od \<Longrightarrow> c \<noteq> d \<Longrightarrow>
      foot (ho_manager w) hc \<inter> foot (ho_manager w) od = {}"
    and "set rs \<union> ho_kernel w \<union> (\<Union>hc\<in>ran (ho_conns w). foot (ho_manager w) hc) = {..<he_chunks E}"
    and "i \<in> set rs \<union> ho_kernel w \<Longrightarrow> fresh (ho_manager w) i"
    and "length (cm_chunks_data (ho_manager w)) = he_chunks E"
    and "he_avail E (cm_ring (ho_manager w)) = map (chunk_buf (ho_manager w)) rs"
  using assms unfolding chunks_inv_def by (elim conjE; (assumption | simp))+

text \<open>All chunks are chunks of the pool.\<close>

lemma chunks_inv_bound:
  assumes "chunks_inv E w rs"
  shows "set rs \<subseteq> {..<he_chunks E}" and "ho_kernel w \<subseteq> {..<he_chunks E}"
    and "ho_conns w c = Some hc \<Longrightarrow> foot (ho_manager w) hc \<subseteq> {..<he_chunks E}"
  using chunks_invD(6) [OF assms] by (auto simp: ran_def)

lemma Union_ran: "(\<Union>x\<in>ran m. f x) = (\<Union>d\<in>dom m. f (the (m d)))"
  by (force simp: ran_def dom_def)

text \<open>Every connection, seen alone, is in a reachable state, and the chunks are partitioned.\<close>

definition conns_inv ::
    "('r, 'cb, 'b, 'k) host_env \<Rightarrow> ('r, 'k host_task, 'cb) io_loop \<Rightarrow> ('b, 'k) host \<Rightarrow> bool" where
  "conns_inv E l w \<longleftrightarrow>
     (\<forall>c hc. ho_conns w c = Some hc \<longrightarrow>
        conn_reachable (he_uring E) (he_bufs E) (he_resume E) (hc_wire hc) (conn_view l (ho_manager w) hc)) \<and>
     (\<exists>rs. chunks_inv E w rs)"

text \<open>The loop's own part; \<open>ts\<close> are the functors taken from the queue and not yet run.\<close>

definition loop_inv ::
    "('r, 'cb, 'b, 'k) host_env \<Rightarrow> nat \<Rightarrow> 'k host_task list \<Rightarrow> ('r, 'k host_task, 'cb) io_loop \<Rightarrow> bool" where
  "loop_inv E N ts l \<longleftrightarrow>
     0 < lp_low_water l \<and> WakeupCtx \<notin> set (lp_waiting l) \<and>
     timer_reachable (he_alloc E) (he_script E) N (lp_timers l) (timer_tasks (ts @ lp_pending l))"

definition host_inv ::
    "('r, 'cb, 'b, 'k) host_env \<Rightarrow> nat \<Rightarrow> 'k host_task list \<Rightarrow>
     ('r, 'k host_task, 'cb) io_loop \<times> ('b, 'k) host \<Rightarrow> bool" where
  "host_inv E N ts s \<longleftrightarrow> loop_inv E N ts (fst s) \<and> conns_inv E (fst s) (snd s)"

text \<open>What the program relies on, of the code that is not in the repository.\<close>

definition host_env_ok :: "('r, 'cb, 'b, 'k) host_env \<Rightarrow> nat \<Rightarrow> bool" where
  "host_env_ok E N \<longleftrightarrow>
     (\<exists>queued handed n. uring_laws (he_uring E) queued handed n \<and> 0 < n) \<and>
     (\<exists>slot. buf_ring_laws (he_bufs E) (he_avail E) slot (he_chunks E)) \<and>
     resume_ok (he_uring E) (he_bufs E) (he_resume E) \<and> alloc_ok (he_alloc E) \<and> script_bound N (he_script E)"

lemma conn_view_fields [simp]:
  "cs_loop (conn_view l m hc) = loop_view l" "cs_manager (conn_view l m hc) = m"
  "cs_conn (conn_view l m hc) = hc_conn hc" "cs_reads (conn_view l m hc) = hc_reads hc"
  "cs_writes (conn_view l m hc) = hc_writes hc" "cs_accepted (conn_view l m hc) = hc_accepted hc"
  by (simp_all add: conn_view_def)

lemma loop_view_fields [simp]:
  "lp_low_water (loop_view l) = lp_low_water l" "lp_timers (loop_view l) = lp_timers l"
  "lp_waiting (loop_view l) = lp_waiting l" "lp_pending (loop_view l) = []"
  "lp_low_water (loop_back c l v) = lp_low_water v" "lp_timers (loop_back c l v) = lp_timers v"
  "lp_waiting (loop_back c l v) = lp_waiting v"
  "lp_pending (loop_back c l v) = lp_pending l @ map (ConnTask c) (lp_pending v)"
  by (simp_all add: loop_view_def loop_back_def)

lemma conn_view_hosted_of: "conn_view l m (hosted_of wire s) = s\<lparr>cs_loop := loop_view l, cs_manager := m\<rparr>"
  by (simp add: conn_view_def hosted_of_def)

lemma conn_view_other: "conn_view l' m' hc = (conn_view l m hc)\<lparr>cs_loop := loop_view l', cs_manager := m'\<rparr>"
  by (simp add: conn_view_def)

text \<open>A connection does not notice what happens to the loop, nor to chunks it does not hold.\<close>

lemma conn_reachable_elsewhere:
  assumes "conn_reachable U B resume wire (conn_view l m hc)" and "lp_low_water l' = lp_low_water l"
    and "\<And>xs. icb_rep m (rc_buffer (tc_read (hc_conn hc))) xs \<Longrightarrow> icb_rep m' (rc_buffer (tc_read (hc_conn hc))) xs"
  shows "conn_reachable U B resume wire (conn_view l' m' hc)"
proof -
  have "conn_reachable U B resume wire ((conn_view l m hc)\<lparr>cs_loop := loop_view l'\<rparr>)"
    using assms(1,2) by (intro conn_reachable.other_loop) simp_all
  then have "conn_reachable U B resume wire ((conn_view l m hc)\<lparr>cs_loop := loop_view l', cs_manager := m'\<rparr>)"
    using assms(3) by (intro conn_reachable.other_pool [where m = m', of _ _ _ _ "(conn_view l m hc)\<lparr>cs_loop := loop_view l'\<rparr>"]) simp_all
  then show ?thesis by (simp add: conn_view_def)
qed

lemma conns_inv_loop:
  assumes "conns_inv E l w" and "lp_low_water l' = lp_low_water l"
  shows "conns_inv E l' w"
proof -
  have "conn_reachable (he_uring E) (he_bufs E) (he_resume E) (hc_wire hc) (conn_view l' (ho_manager w) hc)"
    if "ho_conns w c = Some hc" for c hc
    using assms that by (intro conn_reachable_elsewhere [OF _ assms(2)]) (simp_all add: conns_inv_def)
  with assms(1) show ?thesis by (simp add: conns_inv_def)
qed

text \<open>The chunks of a connection, as the list its buffer stands for.\<close>

lemma hosted_rep:
  assumes "host_env_ok E N" and "conns_inv E l w" and "ho_conns w c = Some hc"
  shows "\<exists>xs. icb_rep (ho_manager w) (rc_buffer (tc_read (hc_conn hc))) xs \<and> foot (ho_manager w) hc = set xs"
proof -
  obtain queued handed n where "uring_laws (he_uring E) queued handed n" "0 < n"
    and co: "resume_ok (he_uring E) (he_bufs E) (he_resume E)"
    using assms(1) unfolding host_env_ok_def by blast
  moreover have "conn_reachable (he_uring E) (he_bufs E) (he_resume E) (hc_wire hc) (conn_view l (ho_manager w) hc)"
    using assms(2,3) by (simp add: conns_inv_def)
  ultimately have "conn_inv False False (hc_wire hc) (conn_view l (ho_manager w) hc)"
    by (rule conn_reachable_inv)
  then obtain xs where "icb_rep (ho_manager w) (rc_buffer (tc_read (hc_conn hc))) xs"
    by (auto simp: conn_inv_def read_inv_def)
  then show ?thesis using icb_chain_rep by (auto simp: foot_def)
qed

lemma pool_frame_rep:
  assumes fr: "pool_frame B S T m m'" and rep: "icb_rep m b ys" and dj: "S \<inter> set ys = {}"
  shows "icb_rep m' b ys"
proof (rule icb_rep_frame [OF rep])
  fix i assume "i \<in> set ys"
  then have "i \<notin> S" using dj by blast
  then show "cm_chunks_data m' ! i = cm_chunks_data m ! i" using fr by (simp add: pool_frame_def)
qed (use fr in \<open>simp_all add: pool_frame_def\<close>)

text \<open>
  One connection moves: \<open>xs\<close> are the chunks connection \<open>c\<close> held, if it existed, \<open>X\<close> the chunks it was
  given by the kernel, and \<open>xs'\<close> the chunks it holds in its new state \<open>s\<close>.
\<close>

definition conn_moved ::
    "('r, 'cb, 'b, 'k) host_env \<Rightarrow> ('b, 'k) host \<Rightarrow> nat \<Rightarrow> nat list \<Rightarrow> nat set \<Rightarrow>
     ('r, 'cb, 'b, 'k) conn_sys \<Rightarrow> nat list \<Rightarrow> bool" where
  "conn_moved E w c xs X s xs' \<longleftrightarrow>
     (case ho_conns w c of None \<Rightarrow> xs = [] | Some hc \<Rightarrow> foot (ho_manager w) hc = set xs) \<and>
     icb_rep (cs_manager s) (rc_buffer (the_read s)) xs' \<and>
     pool_frame (he_bufs E) (set xs \<union> X) (set xs') (ho_manager w) (cs_manager s) \<and> X \<subseteq> ho_kernel w"

definition after_move ::
    "('b, 'k) host \<Rightarrow> nat \<Rightarrow> nat set \<Rightarrow> byte list \<Rightarrow> ('r, 'cb, 'b, 'k) conn_sys \<Rightarrow> ('b, 'k) host" where
  "after_move w c X wire s =
     w\<lparr>ho_manager := cs_manager s, ho_conns := (ho_conns w)(c \<mapsto> hosted_of wire s), ho_kernel := ho_kernel w - X\<rparr>"

text \<open>What the mover touches is in neither the ring nor another connection, nor left with the kernel.\<close>

lemma mover_apart:
  assumes inv: "chunks_inv E w rs" and mv: "conn_moved E w c xs X s xs'"
  shows "(set xs \<union> X) \<inter> set rs = {}" and "set xs \<inter> ho_kernel w = {}"
    and "ho_conns w d = Some od \<Longrightarrow> d \<noteq> c \<Longrightarrow> (set xs \<union> X) \<inter> foot (ho_manager w) od = {}"
proof -
  note D = chunks_invD [OF inv]
  have X: "X \<subseteq> ho_kernel w" using mv by (simp add: conn_moved_def)
  have "set xs \<inter> (set rs \<union> ho_kernel w) = {} \<and>
      (ho_conns w d = Some od \<longrightarrow> d \<noteq> c \<longrightarrow> set xs \<inter> foot (ho_manager w) od = {})"
  proof (cases "ho_conns w c")
    case None
    then show ?thesis using mv by (simp add: conn_moved_def)
  next
    case (Some hc)
    then have "set xs = foot (ho_manager w) hc" using mv by (simp add: conn_moved_def)
    then show ?thesis using D(4) [OF Some] D(5) [OF Some, of d od] by simp
  qed
  then have xs: "set xs \<inter> set rs = {}" "set xs \<inter> ho_kernel w = {}"
    "ho_conns w d = Some od \<Longrightarrow> d \<noteq> c \<Longrightarrow> set xs \<inter> foot (ho_manager w) od = {}" by auto
  show "(set xs \<union> X) \<inter> set rs = {}" "set xs \<inter> ho_kernel w = {}" using xs(1,2) X D(3) by blast+
  show "(set xs \<union> X) \<inter> foot (ho_manager w) od = {}" if "ho_conns w d = Some od" "d \<noteq> c"
    using xs(3) [OF that] X D(4) [OF that(1)] by blast
qed

lemma others_kept:
  assumes env: "host_env_ok E N" and inv: "conns_inv E l w" "chunks_inv E w rs"
    and mv: "conn_moved E w c xs X s xs'" and d: "ho_conns w d = Some od" "d \<noteq> c"
  shows "icb_rep (ho_manager w) (rc_buffer (tc_read (hc_conn od))) ys \<Longrightarrow>
      icb_rep (cs_manager s) (rc_buffer (tc_read (hc_conn od))) ys"
    and "foot (cs_manager s) od = foot (ho_manager w) od"
proof -
  have kept: "icb_rep (cs_manager s) (rc_buffer (tc_read (hc_conn od))) ys"
    if "icb_rep (ho_manager w) (rc_buffer (tc_read (hc_conn od))) ys" for ys
    using mv mover_apart(3) [OF inv(2) mv d] icb_chain_rep [OF that]
    by (intro pool_frame_rep [OF _ that, of "he_bufs E" "set xs \<union> X" "set xs'"]) (simp_all add: conn_moved_def foot_def)
  then show "icb_rep (ho_manager w) (rc_buffer (tc_read (hc_conn od))) ys \<Longrightarrow>
      icb_rep (cs_manager s) (rc_buffer (tc_read (hc_conn od))) ys" .
  obtain zs where "icb_rep (ho_manager w) (rc_buffer (tc_read (hc_conn od))) zs"
    using hosted_rep [OF env inv(1) d(1)] by blast
  from icb_chain_rep [OF this] icb_chain_rep [OF kept [OF this]]
  show "foot (cs_manager s) od = foot (ho_manager w) od" by (simp add: foot_def)
qed

lemma mover_foot:
  assumes "conn_moved E w c xs X s xs'"
  shows "foot (cs_manager s) (hosted_of wire s) = set xs'" and "set xs' \<subseteq> set xs \<union> X"
  using assms icb_chain_rep by (auto simp: conn_moved_def foot_def hosted_of_def pool_frame_def)

text \<open>Chunks that are put back come behind those in the ring.\<close>

lemma pool_refill:
  assumes env: "host_env_ok E N" and inv: "chunks_inv E w rs"
    and ps: "distinct (rs @ ps)" "set (rs @ ps) \<subseteq> {..<he_chunks E}"
  shows "he_avail E (fold (refill (he_bufs E) (ho_manager w)) ps (cm_ring (ho_manager w))) =
    map (chunk_buf (ho_manager w)) (rs @ ps)"
proof -
  let ?m = "ho_manager w"
  note D = chunks_invD(1,8,9) [OF inv]
  have len: "length (he_avail E (cm_ring ?m)) + length ps \<le> length (cm_chunks_data ?m)"
    using distinct_bounded_length [OF ps] D by simp
  obtain slot where "buf_ring_laws (he_bufs E) (he_avail E) slot (length (cm_chunks_data ?m))"
    using env D(2) unfolding host_env_ok_def by metis
  from refill_avail [OF this D(1) len] show ?thesis using D(3) by simp
qed

text \<open>The ring afterwards: the chunks the mover gave back are behind the others.\<close>

lemma moved_ring:
  assumes env: "host_env_ok E N" and inv: "chunks_inv E w rs" and mv: "conn_moved E w c xs X s xs'"
  shows "\<exists>ps. distinct (rs @ ps) \<and> set ps = set xs \<union> X - set xs' \<and>
    he_avail E (cm_ring (cs_manager s)) = map (chunk_buf (cs_manager s)) (rs @ ps)"
proof -
  let ?m = "ho_manager w" and ?m' = "cs_manager s"
  have fr: "pool_frame (he_bufs E) (set xs \<union> X) (set xs') ?m ?m'" using mv by (simp add: conn_moved_def)
  obtain ps where ps: "distinct ps" "set ps = set xs \<union> X - set xs'"
    "cm_ring ?m' = fold (refill (he_bufs E) ?m) ps (cm_ring ?m)"
    using fr unfolding pool_frame_def by blast
  have d: "distinct (rs @ ps)" using inv ps mover_apart(1) [OF inv mv] by (auto simp: chunks_inv_def)
  have held: "set xs \<subseteq> {..<he_chunks E}"
  proof (cases "ho_conns w c")
    case (Some hc)
    then show ?thesis using chunks_inv_bound(3) [OF inv Some] mv by (simp add: conn_moved_def)
  qed (use mv in \<open>simp add: conn_moved_def\<close>)
  have "X \<subseteq> ho_kernel w" using mv by (simp add: conn_moved_def)
  then have sub: "set (rs @ ps) \<subseteq> {..<he_chunks E}"
    using chunks_inv_bound(1,2) [OF inv] held ps(2) by auto
  have wf: "manager_wf ?m" "manager_wf ?m'" "cm_pool ?m' = cm_pool ?m" "cm_chunk_size ?m' = cm_chunk_size ?m"
    "length (cm_chunks_data ?m') = length (cm_chunks_data ?m)" "length (cm_chunks_data ?m) = he_chunks E"
    using inv fr by (simp_all add: chunks_inv_def pool_frame_def)
  have "he_avail E (cm_ring ?m') = map (chunk_buf ?m) (rs @ ps)"
    unfolding ps(3) by (rule pool_refill [OF env inv d sub])
  also have "\<dots> = map (chunk_buf ?m') (rs @ ps)"
  proof (intro map_cong refl)
    fix i assume "i \<in> set (rs @ ps)"
    then have "i < length (cm_chunks_data ?m)" using sub wf(6) by auto
    from manager_wf_idx(1) [OF wf(1-5) this] show "chunk_buf ?m i = chunk_buf ?m' i" by simp
  qed
  finally show ?thesis using d ps(2) by blast
qed

lemma moved_disjoint:
  assumes env: "host_env_ok E N" and inv: "conns_inv E l w" "chunks_inv E w rs" and mv: "conn_moved E w c xs X s xs'"
    and a: "((ho_conns w)(c \<mapsto> hosted_of wire s)) a = Some ha"
    and b: "((ho_conns w)(c \<mapsto> hosted_of wire s)) b = Some hb" and ne: "a \<noteq> b"
  shows "foot (cs_manager s) ha \<inter> foot (cs_manager s) hb = {}"
proof -
  have own: "foot (cs_manager s) (hosted_of wire s) \<inter> foot (cs_manager s) od = {}"
    if "ho_conns w d = Some od" "d \<noteq> c" for d od
    using mover_apart(3) [OF inv(2) mv that] others_kept(2) [OF env inv mv that]
      mover_foot(1) [OF mv, where wire = wire] mover_foot(2) [OF mv] by auto
  show ?thesis
  proof (cases "a = c \<or> b = c")
    case True
    then show ?thesis using a b ne own [of a ha] own [of b hb] by auto
  next
    case False
    then have h: "ho_conns w a = Some ha" "ho_conns w b = Some hb" using a b by auto
    then have "foot (ho_manager w) ha \<inter> foot (ho_manager w) hb = {}"
      using ne inv(2) unfolding chunks_inv_def by metis
    then show ?thesis using h False others_kept(2) [OF env inv mv, of a ha] others_kept(2) [OF env inv mv, of b hb] by simp
  qed
qed

text \<open>All feet together.\<close>

lemma moved_feet:
  assumes env: "host_env_ok E N" and inv: "conns_inv E l w" "chunks_inv E w rs" and mv: "conn_moved E w c xs X s xs'"
  shows "(\<Union>hc\<in>ran ((ho_conns w)(c \<mapsto> hosted_of wire s)). foot (cs_manager s) hc) =
      set xs' \<union> (\<Union>d\<in>dom (ho_conns w) - {c}. foot (ho_manager w) (the (ho_conns w d)))"
    and "(\<Union>hc\<in>ran (ho_conns w). foot (ho_manager w) hc) =
      set xs \<union> (\<Union>d\<in>dom (ho_conns w) - {c}. foot (ho_manager w) (the (ho_conns w d)))"
proof -
  let ?f = "\<lambda>d. foot (ho_manager w) (the (ho_conns w d))"
  have "(\<Union>hc\<in>ran ((ho_conns w)(c \<mapsto> hosted_of wire s)). foot (cs_manager s) hc) =
      (\<Union>d\<in>dom ((ho_conns w)(c \<mapsto> hosted_of wire s)). foot (cs_manager s) (the (((ho_conns w)(c \<mapsto> hosted_of wire s)) d)))"
    by (rule Union_ran)
  also have "\<dots> = foot (cs_manager s) (hosted_of wire s) \<union>
      (\<Union>d\<in>dom (ho_conns w) - {c}. foot (cs_manager s) (the (ho_conns w d)))"
    by (auto split: if_splits)
  also have "\<dots> = set xs' \<union> (\<Union>d\<in>dom (ho_conns w) - {c}. ?f d)"
    using others_kept(2) [OF env inv mv] mover_foot(1) [OF mv, where wire = wire] by (intro arg_cong2 [of _ _ _ _ "(\<union>)"]) auto
  finally show "(\<Union>hc\<in>ran ((ho_conns w)(c \<mapsto> hosted_of wire s)). foot (cs_manager s) hc) =
      set xs' \<union> (\<Union>d\<in>dom (ho_conns w) - {c}. ?f d)" .
  show "(\<Union>hc\<in>ran (ho_conns w). foot (ho_manager w) hc) = set xs \<union> (\<Union>d\<in>dom (ho_conns w) - {c}. ?f d)"
  proof (cases "ho_conns w c")
    case None
    then show ?thesis using mv by (force simp: conn_moved_def ran_def dom_def)
  next
    case (Some hc)
    then have "foot (ho_manager w) hc = set xs" using mv by (simp add: conn_moved_def)
    then show ?thesis using Some by (force simp: ran_def dom_def)
  qed
qed

lemma chunks_inv_move:
  assumes env: "host_env_ok E N" and inv: "conns_inv E l w" "chunks_inv E w rs" and mv: "conn_moved E w c xs X s xs'"
  shows "\<exists>rs'. chunks_inv E (after_move w c X wire s) rs'"
proof -
  let ?m = "ho_manager w" and ?m' = "cs_manager s" and ?others = "\<Union>d\<in>dom (ho_conns w) - {c}. foot (ho_manager w) (the (ho_conns w d))"
  obtain ps where ps: "distinct (rs @ ps)" "set ps = set xs \<union> X - set xs'"
    "he_avail E (cm_ring ?m') = map (chunk_buf ?m') (rs @ ps)"
    using moved_ring [OF env inv(2) mv] by blast
  have fr: "pool_frame (he_bufs E) (set xs \<union> X) (set xs') ?m ?m'" and X: "X \<subseteq> ho_kernel w"
    using mv by (simp_all add: conn_moved_def)
  note ap = mover_apart(1,2) [OF inv(2) mv] and ft = moved_feet [OF env inv mv] and mf = mover_foot [OF mv]
  have kern: "set (rs @ ps) \<inter> (ho_kernel w - X) = {}" using inv(2) ps(2) ap by (auto simp: chunks_inv_def)
  have feet: "foot ?m' hc \<inter> (set (rs @ ps) \<union> (ho_kernel w - X)) = {}"
    if h: "((ho_conns w)(c \<mapsto> hosted_of wire s)) d = Some hc" for d hc
  proof (cases "d = c")
    case True
    then show ?thesis using h mf ps(2) ap by auto
  next
    case False
    then have "ho_conns w d = Some hc" using h by simp
    moreover from this have "foot ?m hc \<inter> (set rs \<union> ho_kernel w) = {}" using inv(2) unfolding chunks_inv_def by metis
    ultimately show ?thesis
      using False mover_apart(3) [OF inv(2) mv, of d hc] others_kept(2) [OF env inv mv, of d hc] ps(2) by auto
  qed
  have "set rs \<union> ho_kernel w \<union> (set xs \<union> ?others) = {..<he_chunks E}"
    using inv(2) ft(2) by (simp add: chunks_inv_def)
  moreover have "set (rs @ ps) \<union> (ho_kernel w - X) \<union> (set xs' \<union> ?others) =
      set rs \<union> ho_kernel w \<union> (set xs \<union> ?others)"
    unfolding set_append ps(2) using X mf(2) by blast
  ultimately have all: "set (rs @ ps) \<union> (ho_kernel w - X) \<union> (set xs' \<union> ?others) = {..<he_chunks E}" by simp
  have fresh: "fresh ?m' i" if "i \<in> set (rs @ ps) \<union> (ho_kernel w - X)" for i
  proof (cases "i \<in> set ps")
    case True
    then show ?thesis using ps(2) fr by (auto simp: pool_frame_def)
  next
    case False
    then have i: "i \<in> set rs \<union> ho_kernel w" "i \<notin> set xs \<union> X" using that ap by auto
    then have "fresh ?m i" "cm_chunks_data ?m' ! i = cm_chunks_data ?m ! i"
      using inv(2) fr by (auto simp: chunks_inv_def pool_frame_def)
    then show ?thesis by (simp add: fresh_def)
  qed
  have "chunks_inv E (after_move w c X wire s) (rs @ ps)"
    unfolding chunks_inv_def after_move_def
    using inv(2) fr ps(1,3) kern feet moved_disjoint [OF env inv mv] all [folded ft(1) [where wire = wire]] fresh
    by (simp only: host.simps) (auto simp: chunks_inv_def pool_frame_def)
  then show ?thesis by blast
qed

lemma conns_inv_move:
  assumes env: "host_env_ok E N" and inv: "conns_inv E l w" and mv: "conn_moved E w c xs X s xs'"
    and s: "conn_reachable (he_uring E) (he_bufs E) (he_resume E) wire s" "lp_low_water (cs_loop s) = lp_low_water l"
    and l': "lp_low_water l' = lp_low_water l"
  shows "conns_inv E l' (after_move w c X wire s)"
proof -
  obtain rs where rs: "chunks_inv E w rs" using inv by (auto simp: conns_inv_def)
  have own: "conn_reachable (he_uring E) (he_bufs E) (he_resume E) wire (conn_view l' (cs_manager s) (hosted_of wire s))"
    using conn_reachable.other_loop [OF s(1), of "loop_view l'"] s(2) l' by (simp add: conn_view_hosted_of)
  have others: "conn_reachable (he_uring E) (he_bufs E) (he_resume E) (hc_wire od) (conn_view l' (cs_manager s) od)"
    if d: "ho_conns w d = Some od" "d \<noteq> c" for d od
    using inv d(1) others_kept(1) [OF env inv rs mv d] l' unfolding conns_inv_def
    by (blast intro: conn_reachable_elsewhere)
  have "conn_reachable (he_uring E) (he_bufs E) (he_resume E) (hc_wire od) (conn_view l' (cs_manager s) od)"
    if "((ho_conns w)(c \<mapsto> hosted_of wire s)) d = Some od" for d od
    using that own others [of d od] by (auto simp: hosted_of_def split: if_splits)
  then show ?thesis
    using chunks_inv_move [OF env inv rs mv, where wire = wire] by (simp add: conns_inv_def after_move_def)
qed

section \<open>Steps of the loop\<close>

text \<open>A handler of an existing connection that keeps to its own chunks and to those it was given.\<close>

lemma with_conn_inv:
  assumes env: "host_env_ok E N" and inv: "host_inv E N ts (l, w)" and c: "ho_conns w c = Some hc"
    and f: "f (conn_view l (ho_manager w) hc) = Inr s"
    and s: "conn_reachable (he_uring E) (he_bufs E) (he_resume E)
        (hc_wire hc @ taken (conn_view l (ho_manager w) hc)) s"
    and mv: "\<And>xs. icb_rep (ho_manager w) (rc_buffer (tc_read (hc_conn hc))) xs \<Longrightarrow>
        loop_kept (loop_view l) (cs_loop s) \<and> (\<exists>xs'. icb_rep (cs_manager s) (rc_buffer (the_read s)) xs' \<and>
          pool_frame (he_bufs E) (set xs \<union> X) (set xs') (ho_manager w) (cs_manager s))"
    and X: "X \<subseteq> ho_kernel w"
  shows "\<exists>l' w'. with_conn c f taken (l, w) = Inr (l', w') \<and>
    host_inv E N ts (l', w'\<lparr>ho_kernel := ho_kernel w' - X\<rparr>)"
proof -
  have li: "loop_inv E N ts l" and ci: "conns_inv E l w" using inv by (simp_all add: host_inv_def)
  obtain xs where xs: "icb_rep (ho_manager w) (rc_buffer (tc_read (hc_conn hc))) xs"
    "foot (ho_manager w) hc = set xs" using hosted_rep [OF env ci c] by blast
  obtain xs' where k: "loop_kept (loop_view l) (cs_loop s)"
    and xs': "icb_rep (cs_manager s) (rc_buffer (the_read s)) xs'"
      "pool_frame (he_bufs E) (set xs \<union> X) (set xs') (ho_manager w) (cs_manager s)"
    using mv [OF xs(1)] by blast
  have "conn_moved E w c xs X s xs'" using c xs(2) xs' X by (simp add: conn_moved_def)
  then have "conns_inv E (loop_back c l (cs_loop s))
      (after_move w c X (hc_wire hc @ taken (conn_view l (ho_manager w) hc)) s)"
    using k by (intro conns_inv_move [OF env ci _ s]) (simp_all add: loop_kept_def)
  moreover have "loop_inv E N ts (loop_back c l (cs_loop s))"
    using li k by (simp add: loop_inv_def loop_kept_def)
  ultimately show ?thesis using c f by (simp add: with_conn_def host_inv_def after_move_def)
qed

text \<open>A handler that gives the connection no new chunk.\<close>

lemma with_conn_moves:
  assumes "host_env_ok E N" and "host_inv E N ts (l, w)" and "ho_conns w c = Some hc"
    and "f (conn_view l (ho_manager w) hc) = Inr s"
    and "conn_reachable (he_uring E) (he_bufs E) (he_resume E)
        (hc_wire hc @ taken (conn_view l (ho_manager w) hc)) s"
    and "conn_moves (he_bufs E) (conn_view l (ho_manager w) hc) s"
  shows "\<exists>s'. with_conn c f taken (l, w) = Inr s' \<and> host_inv E N ts s'"
proof -
  have "\<exists>l' w'. with_conn c f taken (l, w) = Inr (l', w') \<and> host_inv E N ts (l', w'\<lparr>ho_kernel := ho_kernel w' - {}\<rparr>)"
    by (rule with_conn_inv [where f = f and X = "{}", OF assms(1-4)]) (use assms(5,6) in \<open>auto simp: conn_moves_def\<close>)
  then show ?thesis by auto
qed

text \<open>A chunk the kernel has taken is free for the connection it is given to.\<close>

lemma kernel_chunk:
  assumes "chunks_inv E w rs" and "i \<in> ho_kernel w"
  shows "i < length (cm_chunks_data (ho_manager w))" and "fresh (ho_manager w) i"
    and "ho_conns w c = Some hc \<Longrightarrow> i \<notin> foot (ho_manager w) hc"
  using assms chunks_inv_bound(2) [OF assms(1)] chunks_invD(4,7,8) [OF assms(1)] by auto

text \<open>The completion of a receive, of a write, and of the read of the eventfd.\<close>

lemma read_complete_ok:
  assumes env: "host_env_ok E N" and inv: "host_inv E N ts (l, w)" and legal: "ctx_legal (ReadCtx c) res fl (l, w)"
  shows "\<exists>s'. host_complete E (ReadCtx c) res fl (l, w) = Inr s' \<and> host_inv E N ts s'"
proof -
  obtain queued handed n where laws: "uring_laws (he_uring E) queued handed n" "0 < n"
    and co: "resume_ok (he_uring E) (he_bufs E) (he_resume E)"
    using env unfolding host_env_ok_def by blast
  obtain hc where c: "ho_conns w c = Some hc" "0 < hc_reads hc" using legal by (auto split: option.splits)
  let ?v = "conn_view l (ho_manager w) hc" and ?i = "unat (cqe_buffer fl)"
  have ci: "conns_inv E l w" using inv by (simp add: host_inv_def)
  then have r: "conn_reachable (he_uring E) (he_bufs E) (he_resume E) (hc_wire hc) ?v"
    using c(1) by (simp add: conns_inv_def)
  obtain rs where rs: "chunks_inv E w rs" using ci by (auto simp: conns_inv_def)
  have free: "?i < length (cm_chunks_data (ho_manager w))" "fresh (ho_manager w) ?i" "?i \<notin> foot (ho_manager w) hc"
    if "0 < res"
    using kernel_chunk [OF rs, of ?i] c(1) legal that by auto
  have rl: "receive_legal res fl ?v"
    using legal free c(1) by (auto simp: receive_legal_def foot_def)
  obtain s where s: "read_on_completion (he_uring E) (he_resume E) (read_delivered res fl ?v) = Inr s"
    using read_completion_ok [OF laws co conn_reachable_inv [OF laws co r] _ rl] c(2) by auto
  let ?f = "\<lambda>t. read_on_completion (he_uring E) (he_resume E) (read_delivered res fl t)"
  have "\<exists>l' w'. with_conn c ?f (\<lambda>_. []) (l, w) = Inr (l', w') \<and>
      host_inv E N ts (l', w'\<lparr>ho_kernel := ho_kernel w' - taken_chunks res fl\<rparr>)"
  proof (rule with_conn_inv [where f = ?f and X = "taken_chunks res fl", OF env inv c(1) s])
    show "conn_reachable (he_uring E) (he_bufs E) (he_resume E) (hc_wire hc @ []) s"
      using conn_reachable.read_done [OF r _ rl s] c(2) by simp
    show "taken_chunks res fl \<subseteq> ho_kernel w" using legal by (simp add: taken_chunks_def)
  qed (use read_completion_moves [OF co s _ rl] in simp)
  then show ?thesis by auto
qed

lemma write_complete_ok:
  assumes env: "host_env_ok E N" and inv: "host_inv E N ts (l, w)" and legal: "ctx_legal (WriteCtx c) res fl (l, w)"
  shows "\<exists>s'. host_complete E (WriteCtx c) res fl (l, w) = Inr s' \<and> host_inv E N ts s'"
proof -
  obtain queued handed n where laws: "uring_laws (he_uring E) queued handed n" "0 < n"
    and co: "resume_ok (he_uring E) (he_bufs E) (he_resume E)"
    using env unfolding host_env_ok_def by blast
  obtain hc where c: "ho_conns w c = Some hc" "0 < hc_writes hc" "write_legal res (conn_view l (ho_manager w) hc)"
    using legal by (auto split: option.splits)
  let ?v = "conn_view l (ho_manager w) hc"
  have r: "conn_reachable (he_uring E) (he_bufs E) (he_resume E) (hc_wire hc) ?v"
    using inv c(1) by (simp add: host_inv_def conns_inv_def)
  obtain s where s: "write_on_completion (he_uring E) (he_resume E) (write_delivered res fl ?v) = Inr s"
    using write_completion_ok [OF laws(1) co conn_reachable_inv [OF laws co r] _ c(3)] c(2) by auto
  have "conn_moves (he_bufs E) ?v (write_delivered res fl ?v)"
    by (rule conn_moves_loop) (simp_all add: write_delivered_def loop_kept_def)
  then have "conn_moves (he_bufs E) ?v s" using moving.R_write_completion [OF co s] conn_moves_trans by blast
  moreover have "conn_reachable (he_uring E) (he_bufs E) (he_resume E) (hc_wire hc @ take (nat res) (batch_bytes ?v)) s"
    using conn_reachable.write_done [OF r _ c(3) s] c(2) by simp
  ultimately show ?thesis
    using with_conn_moves [where f = "\<lambda>t. write_on_completion (he_uring E) (he_resume E) (write_delivered res fl t)",
        OF env inv c(1) s] by simp
qed

lemma host_complete_ok:
  assumes env: "host_env_ok E N" and inv: "host_inv E N ts s" and legal: "ctx_legal ctx res fl s"
  shows "\<exists>s'. host_complete E ctx res fl s = Inr s' \<and> host_inv E N ts s'"
proof (cases ctx)
  case WakeupCtx
  obtain queued handed n where laws: "uring_laws (he_uring E) queued handed n" "0 < n"
    using env unfolding host_env_ok_def by blast
  let ?l = "(fst s)\<lparr>lp_eventfd := 0\<rparr>"
  obtain l where l: "submit_sqe (he_uring E) True (ReadEventfd (lp_wakeup_fd ?l)) ?l = Inr l"
    using submit_sqe_forced [OF laws, of "ReadEventfd (lp_wakeup_fd ?l)" ?l] by auto
  have k: "lp_low_water l = lp_low_water (fst s)" "lp_timers l = lp_timers (fst s)"
    "WakeupCtx \<notin> set (lp_waiting (fst s)) \<Longrightarrow> WakeupCtx \<notin> set (lp_waiting l)" "lp_pending l = lp_pending (fst s)"
    using submit_sqe_kept [OF l] submit_sqe_low_water [OF l] by (simp_all add: loop_kept_def)
  then have "host_inv E N ts (l, snd s)"
    using inv conns_inv_loop [of E "fst s" "snd s" l] by (auto simp: host_inv_def loop_inv_def)
  then show ?thesis using WakeupCtx l by (simp add: loop_on_completion_def)
qed (use assms read_complete_ok [OF env] write_complete_ok [OF env] in \<open>cases s; auto\<close>)+

text \<open>A functor of a connection, run while the loop's queue is empty of the connection's functors.\<close>

lemma conn_task_reachable:
  assumes r: "conn_reachable U B resume wire (conn_view l m hc)"
    and ok: "conn_task_legal t (conn_view l m hc)"
    and s: "run_conn_task U resume t (conn_view l m hc) = Inr s"
  shows "conn_reachable U B resume wire s"
proof -
  define v where "v = (conn_view l m hc)\<lparr>cs_loop := (loop_view l)\<lparr>lp_pending := [t]\<rparr>\<rparr>"
  have r1: "conn_reachable U B resume wire v" unfolding v_def using r by (intro conn_reachable.other_loop) simp_all
  have "loop_view l\<lparr>lp_pending := []\<rparr> = loop_view l" by (simp add: loop_view_def)
  then have "task_taken [] v = conn_view l m hc" by (simp add: v_def task_taken_def conn_view_def)
  with s have s': "run_conn_task U resume t (task_taken [] v) = Inr s" by simp
  have ok': "conn_task_legal t v" using ok by (cases t) (simp_all add: v_def co_elsewhere_def)
  have p: "lp_pending (cs_loop v) = [t]" by (simp add: v_def)
  show ?thesis
  proof (cases t)
    case DestroyConnection
    show ?thesis by (rule conn_reachable.destroy [OF r1 p [unfolded DestroyConnection] s' [unfolded DestroyConnection]])
  next
    case (RecvSuspended h)
    have "co_elsewhere v" using ok' RecvSuspended by simp
    from conn_reachable.recv_functor [OF r1 this p [unfolded RecvSuspended] s' [unfolded RecvSuspended]]
    show ?thesis .
  next
    case (SendSuspended data h)
    have "co_elsewhere v" "sq_admits data (wc_buffer (the_write v))" using ok' SendSuspended by simp_all
    from conn_reachable.send_functor [OF r1 this(1) p [unfolded SendSuspended] this(2) s' [unfolded SendSuspended]]
    show ?thesis .
  qed
qed

lemma conn_task_ok:
  assumes "uring_laws U queued handed n" and "0 < n" and "resume_ok U B resume"
    and "conn_reachable U B resume wire s"
    and "conn_task_legal t s"
  shows "\<exists>s'. run_conn_task U resume t s = Inr s'"
proof -
  note inv = conn_reachable_inv [OF assms(1-4)]
  show ?thesis
  proof (cases t)
    case (RecvSuspended h)
    then show ?thesis using assms(5) recv_functor_ok [OF assms(1,3) inv, of h] by auto
  next
    case (SendSuspended data h)
    then show ?thesis using assms(5) send_functor_ok [OF assms(1,3) inv, of data h] by auto
  qed simp
qed

lemma conn_exec_ok:
  assumes env: "host_env_ok E N" and inv: "host_inv E N (ConnTask c t # ts) (l, w)"
    and legal: "task_legal (ConnTask c t) (l, w)"
  shows "\<exists>s'. host_exec E (ConnTask c t) (l, w) = Inr s' \<and> host_inv E N ts s'"
proof -
  obtain queued handed n where laws: "uring_laws (he_uring E) queued handed n" "0 < n"
    and co: "resume_ok (he_uring E) (he_bufs E) (he_resume E)"
    using env unfolding host_env_ok_def by blast
  obtain hc where c: "ho_conns w c = Some hc" using legal by (auto split: option.splits)
  let ?v = "conn_view l (ho_manager w) hc"
  have inv': "host_inv E N ts (l, w)" using inv by (simp add: host_inv_def loop_inv_def)
  have r: "conn_reachable (he_uring E) (he_bufs E) (he_resume E) (hc_wire hc) ?v"
    using inv' c by (simp add: host_inv_def conns_inv_def)
  have ok: "conn_task_legal t ?v" using legal c by simp
  obtain s where s: "run_conn_task (he_uring E) (he_resume E) t ?v = Inr s"
    using conn_task_ok [OF laws co r ok] by blast
  show ?thesis
    using with_conn_moves [where f = "run_conn_task (he_uring E) (he_resume E) t" and taken = "\<lambda>_. []",
        OF env inv' c s] conn_task_reachable [OF r ok s] moving.R_conn_task [OF co s] by simp
qed

lemma start_exec_ok:
  assumes env: "host_env_ok E N" and inv: "host_inv E N (StartConnection conn h # ts) (l, w)"
    and legal: "task_legal (StartConnection conn h) (l, w)"
  shows "\<exists>s'. host_exec E (StartConnection conn h) (l, w) = Inr s' \<and> host_inv E N ts s'"
proof -
  obtain queued handed n where laws: "uring_laws (he_uring E) queued handed n"
    and co: "resume_ok (he_uring E) (he_bufs E) (he_resume E)"
    using env unfolding host_env_ok_def by blast
  let ?hc = "\<lparr>hc_conn = conn, hc_reads = 0, hc_writes = 0, hc_accepted = [], hc_wire = []\<rparr>" and ?m = "ho_manager w"
  let ?v = "conn_view l ?m ?hc"
  have li: "loop_inv E N ts l" and ci: "conns_inv E l w" using inv by (simp_all add: host_inv_def loop_inv_def)
  have wf: "manager_wf ?m" using ci by (auto simp: conns_inv_def chunks_inv_def)
  have fresh: "fresh_connection ?v"
    using legal wf li unfolding fresh_connection_def by (auto simp: loop_inv_def)
  let ?v1 = "set_conn (\<lambda>c. c\<lparr>tc_task := True, tc_done := False\<rparr>) ?v"
  obtain s where s: "co_resume (he_resume E) h ?v1 = Inr s"
    using co_resume_inv [OF laws co fresh_connection_inv [OF fresh], of h] by auto
  then have es: "Established (he_resume E) h ?v = Inr s" by (simp add: Established_def)
  have r: "conn_reachable (he_uring E) (he_bufs E) (he_resume E) [] s"
    by (rule conn_reachable.start [OF fresh es])
  have "conn_moves (he_bufs E) ?v ?v1" by (rule conn_moves_loop) (simp_all add: loop_kept_def)
  then have mv: "conn_moves (he_bufs E) ?v s" using moving.R_resume [OF co s] conn_moves_trans by blast
  have "icb_rep ?m (rc_buffer (tc_read conn)) []"
    using legal icb_rep_empty [OF wf] by (auto simp: TcpConnection_def WriteContext_def ReadContext_def outcome_iff)
  then obtain xs' where k: "loop_kept (loop_view l) (cs_loop s)"
    and xs': "icb_rep (cs_manager s) (rc_buffer (the_read s)) xs'" "pool_frame (he_bufs E) (set [] \<union> {}) (set xs') ?m (cs_manager s)"
    using mv by (auto simp: conn_moves_def)
  have "conn_moved E w (tc_number conn) [] {} s xs'" using legal xs' by (simp add: conn_moved_def)
  then have "conns_inv E (loop_back (tc_number conn) l (cs_loop s)) (after_move w (tc_number conn) {} [] s)"
    using k by (intro conns_inv_move [OF env ci _ r]) (simp_all add: loop_kept_def)
  moreover have "loop_inv E N ts (loop_back (tc_number conn) l (cs_loop s))"
    using li k by (simp add: loop_inv_def loop_kept_def)
  ultimately show ?thesis using es by (simp add: with_conn_def host_inv_def after_move_def)
qed

lemma host_exec_ok:
  assumes env: "host_env_ok E N" and inv: "host_inv E N (t # ts) s" and legal: "task_legal t s"
  shows "\<exists>s'. host_exec E t s = Inr s' \<and> host_inv E N ts s'"
proof (cases t)
  case (TimerTask k)
  have al: "alloc_ok (he_alloc E)" "script_bound N (he_script E)" using env by (simp_all add: host_env_ok_def)
  have tr: "timer_reachable (he_alloc E) (he_script E) N (lp_timers (fst s)) (k # timer_tasks (ts @ lp_pending (fst s)))"
    using inv TimerTask by (simp add: host_inv_def loop_inv_def)
  obtain q where q: "run_timer_task True k (lp_timers (fst s)) = Inr q"
    using run_timer_task_ok timer_reachable_inv [OF tr al] by blast
  have "timer_reachable (he_alloc E) (he_script E) N q (timer_tasks (ts @ lp_pending (fst s)))"
    using timer_reachable.task [OF tr q] .
  then have "host_inv E N ts ((fst s)\<lparr>lp_timers := q\<rparr>, snd s)"
    using inv conns_inv_loop [of E "fst s" "snd s" "(fst s)\<lparr>lp_timers := q\<rparr>"] by (simp add: host_inv_def loop_inv_def)
  then show ?thesis using TimerTask q by simp
qed (use assms conn_exec_ok [OF env] start_exec_ok [OF env] in \<open>cases s; auto\<close>)+

text \<open>All completions of a round, and all functors.\<close>

lemma host_cqe_simps:
  "cqe_user_data c = None \<Longrightarrow> host_cqe E c s = Inr s"
  "cqe_user_data c = Some ctx \<Longrightarrow> host_cqe E c s = host_complete E ctx (cqe_res c) (cqe_flags c) s"
  by (simp_all add: host_cqe_def andThen_def split: sum.split)

lemma dispatch_ok:
  assumes env: "host_env_ok E N"
  shows "host_inv E N ts s \<Longrightarrow> all_legal cqe_legal (host_cqe E) cqes s \<Longrightarrow>
    \<exists>s'. dispatch (host_complete E) cqes s = Inr s' \<and> host_inv E N ts s'"
proof (induction cqes arbitrary: s)
  case (Cons c cqes)
  show ?case
  proof (cases "cqe_user_data c")
    case None
    then show ?thesis using Cons by (simp add: host_cqe_simps)
  next
    case (Some ctx)
    then have "ctx_legal ctx (cqe_res c) (cqe_flags c) s" using Cons.prems(2) by (simp add: cqe_legal_def)
    then obtain s1 where s1: "host_complete E ctx (cqe_res c) (cqe_flags c) s = Inr s1" "host_inv E N ts s1"
      using host_complete_ok [OF env Cons.prems(1)] by blast
    then have "all_legal cqe_legal (host_cqe E) cqes s1" using Cons.prems(2) Some by (simp add: host_cqe_simps)
    from Cons.IH [OF s1(2) this] s1(1) Some show ?thesis by simp
  qed
qed simp

lemma run_functors_ok:
  assumes env: "host_env_ok E N"
  shows "host_inv E N ts s \<Longrightarrow> all_legal task_legal (host_exec E) ts s \<Longrightarrow>
    \<exists>s'. run_functors (host_exec E) ts s = Inr s' \<and> host_inv E N [] s'"
proof (induction ts arbitrary: s)
  case (Cons t ts)
  then obtain s1 where s1: "host_exec E t s = Inr s1" "host_inv E N ts s1"
    using host_exec_ok [OF env Cons.prems(1)] by auto
  with Cons show ?case by auto
qed simp

section \<open>Rounds\<close>

text \<open>The 64-bit counter of timers does not wrap in the round; no callback makes more than \<open>N\<close> calls.\<close>

definition timer_room :: "nat \<Rightarrow> ('r, 'k host_task, 'cb) io_loop \<times> ('b, 'k) host \<Rightarrow> bool" where
  "timer_room N s \<longleftrightarrow>
     tq_sequence (lp_timers (fst s)) + int N * int (length (tq_list (lp_timers (fst s)))) \<le> LLONG_MAX"

lemma waiting_drops:
  assumes env: "host_env_ok E N" and "WakeupCtx \<notin> set (lp_waiting l)"
  obtains r k where "doingSubmitWaitingTask (he_uring E) fds datas l =
    Inr (l\<lparr>lp_ring := r, lp_waiting := drop k (lp_waiting l)\<rparr>)"
proof -
  obtain queued handed n where laws: "uring_laws (he_uring E) queued handed n"
    using env unfolding host_env_ok_def by blast
  from waiting_loop_ok [OF laws assms(2), of fds datas 0]
  have "\<exists>k r. waiting_loop (he_uring E) fds datas 0 l = Inr (l\<lparr>lp_ring := r, lp_waiting := drop k (lp_waiting l)\<rparr>)"
    by (elim exE conjE) (intro exI)
  then show thesis using that unfolding doingSubmitWaitingTask_def by (elim exE)
qed

lemma waiting_ok:
  assumes env: "host_env_ok E N" and inv: "host_inv E N ts (l, w)"
  shows "\<exists>l'. doingSubmitWaitingTask (he_uring E) fds datas l = Inr l' \<and> host_inv E N ts (l', w) \<and>
    lp_pending l' = lp_pending l"
proof -
  have "WakeupCtx \<notin> set (lp_waiting l)" using inv by (simp add: host_inv_def loop_inv_def)
  from waiting_drops [OF env this, of fds datas] obtain r k where
    r: "doingSubmitWaitingTask (he_uring E) fds datas l =
      Inr (l\<lparr>lp_ring := r, lp_waiting := drop k (lp_waiting l)\<rparr>)" (is "_ = Inr ?l") .
  have "conns_inv E ?l w" using conns_inv_loop [of E l w] inv by (simp add: host_inv_def)
  moreover have "loop_inv E N ts ?l"
    using inv set_drop_subset [of k "lp_waiting l"] by (auto simp: host_inv_def loop_inv_def)
  ultimately show ?thesis using r by (simp add: host_inv_def)
qed

lemma timers_ok:
  assumes env: "host_env_ok E N" and inv: "host_inv E N ts s" and room: "timer_room N s"
  shows "\<exists>q. handleRead (he_alloc E) (he_script E) True now (lp_timers (fst s)) = Inr q \<and>
    host_inv E N ts ((fst s)\<lparr>lp_timers := q\<rparr>, snd s)"
proof -
  have al: "alloc_ok (he_alloc E)" "script_bound N (he_script E)" using env by (simp_all add: host_env_ok_def)
  have tr: "timer_reachable (he_alloc E) (he_script E) N (lp_timers (fst s)) (timer_tasks (ts @ lp_pending (fst s)))"
    using inv by (simp add: host_inv_def loop_inv_def)
  have room': "tq_sequence (lp_timers (fst s)) + int N * int (length (tq_list (lp_timers (fst s)))) \<le> LLONG_MAX"
    using room by (simp add: timer_room_def)
  obtain q where q: "handleRead (he_alloc E) (he_script E) True now (lp_timers (fst s)) = Inr q"
    using handleRead_inv [OF conjunct1 [OF timer_reachable_inv [OF tr al]] al room', of now] by blast
  have "host_inv E N ts ((fst s)\<lparr>lp_timers := q\<rparr>, snd s)"
    using inv timer_reachable.expire [OF tr room' q]
      conns_inv_loop [of E "fst s" "snd s" "(fst s)\<lparr>lp_timers := q\<rparr>"]
    by (simp add: host_inv_def loop_inv_def)
  with q show ?thesis by (intro exI conjI)
qed

lemma functors_ok:
  assumes env: "host_env_ok E N" and inv: "host_inv E N [] (l, w)"
    and legal: "all_legal task_legal (host_exec E) (lp_pending l) (snd (take_pending l), w)"
  shows "\<exists>s'. doingPendingFunctors (host_exec E) (l, w) = Inr s' \<and> host_inv E N [] s'"
proof -
  let ?l = "l\<lparr>lp_calling := True, lp_pending := []\<rparr>"
  have "conns_inv E ?l w" using conns_inv_loop [of E l w] inv by (simp add: host_inv_def)
  then have "host_inv E N (lp_pending l) (?l, w)" using inv by (simp add: host_inv_def loop_inv_def)
  then obtain l1 w1 where s1: "run_functors (host_exec E) (lp_pending l) (?l, w) = Inr (l1, w1)"
    "host_inv E N [] (l1, w1)"
    using run_functors_ok [OF env, of "lp_pending l" "(?l, w)"] legal by (auto simp: take_pending_def)
  have "conns_inv E (l1\<lparr>lp_calling := False\<rparr>) w1"
    using conns_inv_loop [of E l1 w1] s1(2) by (simp add: host_inv_def)
  then have "host_inv E N [] (l1\<lparr>lp_calling := False\<rparr>, w1)" using s1(2) by (simp add: host_inv_def loop_inv_def)
  with s1(1) show ?thesis by (simp add: doingPendingFunctors_def take_pending_def)
qed

lemma round_ok:
  assumes env: "host_env_ok E N" and inv: "host_inv E N [] s" and room: "timer_room N s"
    and legal: "round_legal E now cqes s"
  shows "\<exists>s'. host_round E now cqes s = Inr s' \<and> host_inv E N [] s'"
proof -
  obtain q where q: "handleRead (he_alloc E) (he_script E) True now (lp_timers (fst s)) = Inr q"
    "host_inv E N [] ((fst s)\<lparr>lp_timers := q\<rparr>, snd s)"
    using timers_ok [OF env inv room] by blast
  obtain l w where d: "dispatch (host_complete E) cqes ((fst s)\<lparr>lp_timers := q\<rparr>, snd s) = Inr (l, w)"
    "host_inv E N [] (l, w)"
    using dispatch_ok [OF env q(2), of cqes] legal q(1) by (auto simp: round_legal_def)
  obtain l1 where l1: "doingSubmitWaitingTask (he_uring E) (host_fd w) (host_data w) l = Inr l1"
    "host_inv E N [] (l1, w)"
    using waiting_ok [OF env d(2)] by blast
  obtain s' where "doingPendingFunctors (host_exec E) (l1, w) = Inr s'" "host_inv E N [] s'"
    using functors_ok [OF env l1(2)] legal q(1) d(1) l1(1) by (auto simp: round_legal_def)
  then show ?thesis using q(1) d(1) l1(1) by (simp add: host_round_def loop_round_def)
qed

section \<open>Destruction of a connection\<close>

lemma connection_destroy_ok:
  assumes inv: "conn_inv False False wire s" and rep: "icb_rep (cs_manager s) (rc_buffer (the_read s)) xs"
  shows "\<exists>s'. connection_destroy B s = Inr s' \<and> consumed B (set xs) xs (cs_manager s) (cs_manager s')"
proof -
  obtain ys k where "sq_rep (wc_buffer (the_write s)) ys k" using inv by (auto simp: conn_inv_def write_inv_def)
  then obtain q where "sq_destroy (wc_buffer (the_write s)) = Some (Inr q)"
    using sq_destroy_ok by (auto simp: sq_rep_def)
  moreover obtain m b where "icb_destroy B (cs_manager s) (rc_buffer (the_read s)) = Inr (m, b)"
    "consumed B (set xs) xs (cs_manager s) m"
    using icb_destroy_shape [of "cs_manager s" "rc_buffer (the_read s)" xs B] rep
    by (auto simp: icb_rep_def icb_links_def)
  ultimately show ?thesis by (simp add: connection_destroy_def)
qed

text \<open>A connection without chunks can leave the table.\<close>

lemma chunks_inv_remove:
  assumes inv: "chunks_inv E w rs" and c: "ho_conns w c = Some hc" "foot (ho_manager w) hc = {}"
  shows "chunks_inv E (w\<lparr>ho_conns := (ho_conns w)(c := None)\<rparr>) rs"
proof -
  have "(\<Union>d\<in>dom (ho_conns w). foot (ho_manager w) (the (ho_conns w d))) =
      (\<Union>d\<in>dom (ho_conns w) - {c}. foot (ho_manager w) (the (ho_conns w d)))"
    using c by auto
  then have "(\<Union>hc\<in>ran (ho_conns w). foot (ho_manager w) hc) =
      (\<Union>hc\<in>ran ((ho_conns w)(c := None)). foot (ho_manager w) hc)"
    by (simp add: Union_ran)
  then have "set rs \<union> ho_kernel w \<union> (\<Union>hc\<in>ran ((ho_conns w)(c := None)). foot (ho_manager w) hc) = {..<he_chunks E}"
    using chunks_invD(6) [OF inv] by simp
  then show ?thesis using inv unfolding chunks_inv_def by (simp split: if_splits)
qed

text \<open>The chunks of the connection are in the ring afterwards, behind the others.\<close>

lemma host_destroy_ok:
  assumes env: "host_env_ok E N" and ci: "conns_inv E l w" and c: "ho_conns w c = Some hc"
  shows "\<exists>m. host_destroy E c (l, w) = Inr (l, w\<lparr>ho_manager := m, ho_conns := (ho_conns w)(c := None)\<rparr>) \<and>
    conns_inv E l (w\<lparr>ho_manager := m, ho_conns := (ho_conns w)(c := None)\<rparr>) \<and>
    he_avail E (cm_ring m) = he_avail E (cm_ring (ho_manager w)) @
      map (chunk_buf (ho_manager w)) (icb_chain (ho_manager w) (rc_buffer (tc_read (hc_conn hc)))) \<and>
    (\<forall>d od. d \<noteq> c \<longrightarrow> ho_conns w d = Some od \<longrightarrow> foot m od = foot (ho_manager w) od)"
proof -
  let ?m = "ho_manager w" and ?v = "conn_view l (ho_manager w) hc"
  obtain queued handed n where laws: "uring_laws (he_uring E) queued handed n" "0 < n"
    and co: "resume_ok (he_uring E) (he_bufs E) (he_resume E)"
    using env unfolding host_env_ok_def by blast
  obtain rs where rs: "chunks_inv E w rs" using ci by (auto simp: conns_inv_def)
  obtain xs where xs: "icb_rep ?m (rc_buffer (tc_read (hc_conn hc))) xs" "foot ?m hc = set xs"
    using hosted_rep [OF env ci c] by blast
  have "conn_reachable (he_uring E) (he_bufs E) (he_resume E) (hc_wire hc) ?v"
    using ci c by (simp add: conns_inv_def)
  then obtain s where s: "connection_destroy (he_bufs E) ?v = Inr s"
    "consumed (he_bufs E) (set xs) xs ?m (cs_manager s)"
    using connection_destroy_ok [OF conn_reachable_inv [OF laws co]] xs(1) by fastforce
  let ?t = "set_read (\<lambda>r. r\<lparr>rc_buffer := InputChainBuffer\<rparr>) s" and ?w = "w\<lparr>ho_manager := cs_manager s, ho_conns := (ho_conns w)(c := None)\<rparr>"
  have fr: "pool_frame (he_bufs E) (set xs) (set []) ?m (cs_manager s)"
    using pool_frame_consumed [OF xs(1) s(2), of "[]"] by simp
  have "icb_rep (cs_manager ?t) (rc_buffer (the_read ?t)) []"
    using icb_rep_empty [of "cs_manager s"] fr by (simp add: pool_frame_def)
  then have mv: "conn_moved E w c xs {} ?t []" using c xs(2) fr by (simp add: conn_moved_def)
  obtain rs' where rs': "chunks_inv E (after_move w c {} [] ?t) rs'" using chunks_inv_move [OF env ci rs mv] by blast
  have "foot (cs_manager s) (hosted_of [] ?t) = {}" using mover_foot(1) [OF mv] by simp
  then have "chunks_inv E ?w rs'"
    using chunks_inv_remove [OF rs', of c "hosted_of [] ?t"] by (simp add: after_move_def)
  moreover have "conn_reachable (he_uring E) (he_bufs E) (he_resume E) (hc_wire od) (conn_view l (cs_manager s) od)"
    if d: "ho_conns w d = Some od" "d \<noteq> c" for d od
    using ci d(1) others_kept(1) [OF env ci rs mv d] unfolding conns_inv_def
    by (auto intro: conn_reachable_elsewhere [where m = ?m and l = l])
  ultimately have "conns_inv E l ?w" by (auto simp: conns_inv_def)
  moreover have "distinct (rs @ xs)" "set (rs @ xs) \<subseteq> {..<he_chunks E}"
    using chunks_invD(2) [OF rs] chunks_invD(4) [OF rs c] icb_rep_chunks [OF xs(1)] chunks_inv_bound(1) [OF rs]
      chunks_inv_bound(3) [OF rs c] xs(2) by auto
  then have "he_avail E (cm_ring (cs_manager s)) = he_avail E (cm_ring ?m) @ map (chunk_buf ?m) xs"
    using pool_refill [OF env rs] s(2) chunks_invD(9) [OF rs] by (simp add: consumed_def)
  ultimately show ?thesis
    using c s(1) others_kept(2) [OF env ci rs mv] icb_chain_rep [OF xs(1)]
    by (intro exI [of _ "cs_manager s"]) (simp add: host_destroy_def)
qed

section \<open>Reachable states of the loop\<close>

text \<open>
  A new loop serves nobody, and its ring holds all chunks. It makes rounds; the kernel takes chunks from
  the ring; other threads queue functors, create and cancel timers, write to the eventfd and set \<open>quit_\<close>;
  a connection is destroyed between two rounds, when nothing refers to it any more.
\<close>

inductive host_reachable ::
    "('r, 'cb, 'b, 'k) host_env \<Rightarrow> nat \<Rightarrow> ('r, 'k host_task, 'cb) io_loop \<times> ('b, 'k) host \<Rightarrow> bool"
  for E N where
  new_loop: "manager_wf (ho_manager w) \<Longrightarrow> length (cm_chunks_data (ho_manager w)) = he_chunks E \<Longrightarrow>
    he_avail E (cm_ring (ho_manager w)) = map (chunk_buf (ho_manager w)) [0..<he_chunks E] \<Longrightarrow>
    \<forall>i < he_chunks E. fresh (ho_manager w) i \<Longrightarrow> ho_conns w = Map.empty \<Longrightarrow> ho_kernel w = {} \<Longrightarrow> 0 < lp_low_water l \<Longrightarrow> lp_waiting l = [] \<Longrightarrow> lp_pending l = [] \<Longrightarrow>
    lp_timers l = TimerQueue \<Longrightarrow> host_reachable E N (l, w)"
| a_round: "host_reachable E N (l, w) \<Longrightarrow> s = (l\<lparr>lp_ring := ur_submit (he_uring E) (lp_ring l)\<rparr>, w) \<Longrightarrow>
    timer_room N s \<Longrightarrow> round_legal E now cqes s \<Longrightarrow> host_round E now cqes s = Inr s' \<Longrightarrow> host_reachable E N s'"
| kernel_take: "host_reachable E N (l, w) \<Longrightarrow>
    he_avail E (cm_ring (ho_manager w)) = (a, len, i) # rest \<Longrightarrow> he_avail E r = rest \<Longrightarrow>
    host_reachable E N (l, w\<lparr>ho_manager := (ho_manager w)\<lparr>cm_ring := r\<rparr>, ho_kernel := insert (unat i) (ho_kernel w)\<rparr>)"
| destroyed: "host_reachable E N (l, w) \<Longrightarrow> ho_conns w c = Some hc \<Longrightarrow> host_refs c l hc = 0 \<Longrightarrow>
    host_destroy E c (l, w) = Inr s \<Longrightarrow> host_reachable E N s"
| read_eventfd: "host_reachable E N (l, w) \<Longrightarrow> loop_on_completion (he_uring E) l = Inr l' \<Longrightarrow> host_reachable E N (l', w)"
| queue_task: "host_reachable E N (l, w) \<Longrightarrow> timer_tasks [t] = [] \<Longrightarrow> host_reachable E N (queueInLoop False t l, w)"
| queue_add: "host_reachable E N (l, w) \<Longrightarrow> tq_sequence (lp_timers l) < LLONG_MAX \<Longrightarrow>
    addTimer (he_alloc E) cb t0 interval (lp_timers l) = (task, tid, q) \<Longrightarrow>
    host_reachable E N (queueInLoop False (TimerTask task) (l\<lparr>lp_timers := q\<rparr>), w)"
| queue_cancel: "host_reachable E N (l, w) \<Longrightarrow>
    host_reachable E N (queueInLoop False (TimerTask (cancelTimer tid)) l, w)"
| flags: "host_reachable E N (l, w) \<Longrightarrow>
    host_reachable E N (l\<lparr>lp_looping := looping, lp_quit := quitting, lp_eventfd := counter\<rparr>, w)"

lemma host_inv_queue:
  assumes "host_inv E N [] (l, w)"
    and "timer_reachable (he_alloc E) (he_script E) N q (timer_tasks (lp_pending l @ [t]))"
  shows "host_inv E N [] (queueInLoop False t (l\<lparr>lp_timers := q\<rparr>), w)"
proof -
  let ?l = "queueInLoop False t (l\<lparr>lp_timers := q\<rparr>)"
  have l: "lp_low_water ?l = lp_low_water l" "lp_waiting ?l = lp_waiting l" "lp_pending ?l = lp_pending l @ [t]"
    "lp_timers ?l = q"
    by (simp_all add: queueInLoop_def queue_push_def queue_wake_def wakeUp_def)
  with assms conns_inv_loop [of E l w ?l] show ?thesis by (simp add: host_inv_def loop_inv_def)
qed

lemma host_inv_ring: "host_inv E N ts (l, w) \<Longrightarrow> host_inv E N ts (l\<lparr>lp_ring := r\<rparr>, w)"
  using conns_inv_loop [of E l w "l\<lparr>lp_ring := r\<rparr>"] by (simp add: host_inv_def loop_inv_def)

text \<open>Taking the first chunk of the ring moves it to the kernel and touches nothing else.\<close>

lemma chunks_inv_take:
  assumes inv: "chunks_inv E w rs" and hd: "he_avail E (cm_ring (ho_manager w)) = (a, len, i) # rest"
    and r: "he_avail E r = rest"
  shows "chunks_inv E (w\<lparr>ho_manager := (ho_manager w)\<lparr>cm_ring := r\<rparr>, ho_kernel := insert (unat i) (ho_kernel w)\<rparr>) (tl rs)"
proof -
  let ?m = "ho_manager w" and ?m' = "(ho_manager w)\<lparr>cm_ring := r\<rparr>"
  from inv hd obtain k rs' where rs: "rs = k # rs'" and k: "chunk_buf ?m k = (a, len, i)"
    and tl: "rest = map (chunk_buf ?m) rs'"
    by (auto simp: chunks_inv_def map_eq_Cons_conv)
  have "k < length (cm_chunks_data ?m)" "manager_wf ?m" using inv rs by (auto simp: chunks_inv_def)
  then have "i = of_nat k" "k < 65536" using k by (auto simp: manager_wf_def chunk_buf_def)
  then have ik: "unat i = k" by (simp add: unat_of_nat)
  have wf: "manager_wf ?m'" using inv by (auto simp: chunks_inv_def manager_wf_def)
  have same: "chunk_buf ?m' = chunk_buf ?m" "fresh ?m' = fresh ?m" "foot ?m' = foot ?m"
    by (simp_all add: fun_eq_iff chunk_buf_def fresh_def foot_def icb_chain_def)
  show ?thesis using inv rs r tl ik wf unfolding chunks_inv_def by (auto simp: same)
qed

lemma conns_inv_take:
  assumes inv: "conns_inv E l w" and hd: "he_avail E (cm_ring (ho_manager w)) = (a, len, i) # rest"
    and r: "he_avail E r = rest"
  shows "conns_inv E l (w\<lparr>ho_manager := (ho_manager w)\<lparr>cm_ring := r\<rparr>, ho_kernel := insert (unat i) (ho_kernel w)\<rparr>)"
proof -
  obtain rs where rs: "chunks_inv E w rs" using inv by (auto simp: conns_inv_def)
  then have "manager_wf ((ho_manager w)\<lparr>cm_ring := r\<rparr>)" by (auto simp: chunks_inv_def manager_wf_def)
  then have "icb_rep ((ho_manager w)\<lparr>cm_ring := r\<rparr>) b xs" if "icb_rep (ho_manager w) b xs" for b xs
    by (rule icb_rep_frame [OF that]) simp_all
  then have "conn_reachable (he_uring E) (he_bufs E) (he_resume E) (hc_wire hc)
      (conn_view l ((ho_manager w)\<lparr>cm_ring := r\<rparr>) hc)" if "ho_conns w c = Some hc" for c hc
    using inv that unfolding conns_inv_def by (blast intro: conn_reachable_elsewhere)
  then show ?thesis using chunks_inv_take [OF rs hd r] by (auto simp: conns_inv_def)
qed

lemma host_reachable_inv:
  assumes env: "host_env_ok E N" and "host_reachable E N s"
  shows "host_inv E N [] s"
  using assms(2)
proof induction
  case (new_loop w l)
  then have "chunks_inv E w [0..<he_chunks E]" by (auto simp: chunks_inv_def)
  then have "conns_inv E l w" using new_loop by (auto simp: conns_inv_def)
  then show ?case using new_loop by (simp add: host_inv_def loop_inv_def timer_reachable.start)
next
  case (kernel_take l w a len i rest r)
  then show ?case using conns_inv_take [OF _ kernel_take.hyps(2,3), of l] by (simp add: host_inv_def)
next
  case (a_round l w s now cqes s')
  then show ?case using round_ok [OF env _ a_round.hyps(3,4)] host_inv_ring [OF a_round.IH] by auto
next
  case (destroyed l w c hc s)
  then show ?case using host_destroy_ok [OF env _ destroyed.hyps(2), of l] by (auto simp: host_inv_def)
next
  case (read_eventfd l w l')
  have "loop_kept l l' \<and> lp_pending l' = lp_pending l"
    using read_eventfd.hyps(2) submit_sqe_kept submit_sqe_low_water unfolding loop_on_completion_def by blast
  then show ?case
    using read_eventfd.IH conns_inv_loop [of E l w l'] by (auto simp: host_inv_def loop_inv_def loop_kept_def)
next
  case (queue_task l w t)
  have "timer_reachable (he_alloc E) (he_script E) N (lp_timers l) (timer_tasks (lp_pending l @ [t]))"
    using queue_task.IH queue_task.hyps(2) by (simp add: host_inv_def loop_inv_def)
  from host_inv_queue [OF queue_task.IH this] show ?case by simp
next
  case (queue_add l w cb t0 interval task tid q)
  have "timer_reachable (he_alloc E) (he_script E) N q (timer_tasks (lp_pending l) @ [task])"
    using queue_add.IH by (intro timer_reachable.add [OF _ queue_add.hyps(2,3)]) (simp add: host_inv_def loop_inv_def)
  with host_inv_queue [OF queue_add.IH, of q "TimerTask task"] show ?case by simp
next
  case (queue_cancel l w tid)
  have "timer_reachable (he_alloc E) (he_script E) N (lp_timers l) (timer_tasks (lp_pending l) @ [cancelTimer tid])"
    using queue_cancel.IH by (intro timer_reachable.cancel) (simp add: host_inv_def loop_inv_def)
  with host_inv_queue [OF queue_cancel.IH, of "lp_timers l" "TimerTask (cancelTimer tid)"] show ?case by simp
next
  case (flags l w)
  have "conns_inv E l' w" if "lp_low_water l' = lp_low_water l" for l'
    using conns_inv_loop [OF _ that, of E w] flags.IH by (simp add: host_inv_def)
  with flags.IH show ?case by (simp add: host_inv_def loop_inv_def)
qed

section \<open>Properties of the whole loop\<close>

text \<open>
  What may happen in the rounds of \<open>loop ()\<close>: \<open>rounds\<close> are the time and the completions each round sees,
  until one finds \<open>quit_\<close> set.
\<close>

fun rounds_legal ::
    "('r, 'cb, 'b, 'k) host_env \<Rightarrow> nat \<Rightarrow> (timestamp \<times> cqe list) list \<Rightarrow>
     ('r, 'k host_task, 'cb) io_loop \<times> ('b, 'k) host \<Rightarrow> bool" where
  "rounds_legal E N [] s \<longleftrightarrow> True"
| "rounds_legal E N ((now, cqes) # rs) (l, w) \<longleftrightarrow>
     lp_quit l \<or>
     (let s = (l\<lparr>lp_ring := ur_submit (he_uring E) (lp_ring l)\<rparr>, w)
      in timer_room N s \<and> round_legal E now cqes s \<and>
         (case host_round E now cqes s of Inl _ \<Rightarrow> True | Inr s' \<Rightarrow> rounds_legal E N rs s'))"

lemma stop_reachable: "host_reachable E N (l, w) \<Longrightarrow> host_reachable E N (l\<lparr>lp_looping := False\<rparr>, w)"
  using host_reachable.flags [of E N l w, where looping = False and quitting = "lp_quit l" and counter = "lp_eventfd l"]
  by simp

lemma loop_rounds_ok:
  assumes env: "host_env_ok E N"
  shows "host_reachable E N s \<Longrightarrow> rounds_legal E N rounds s \<Longrightarrow>
    \<exists>s'. loop_rounds (he_uring E) (host_round E) rounds s = Inr s' \<and> host_reachable E N s'"
proof (induction rounds arbitrary: s)
  case Nil
  then show ?case using stop_reachable by (cases s) auto
next
  case (Cons r rs)
  obtain now cqes l w where [simp]: "r = (now, cqes)" "s = (l, w)" by (cases r, cases s)
  show ?case
  proof (cases "lp_quit l")
    case True
    then show ?thesis using Cons.prems(1) stop_reachable by auto
  next
    case False
    let ?s = "(l\<lparr>lp_ring := ur_submit (he_uring E) (lp_ring l)\<rparr>, w)"
    have ok: "timer_room N ?s" "round_legal E now cqes ?s" using Cons.prems(2) False by (simp_all add: Let_def)
    have "host_inv E N [] ?s" using host_reachable_inv [OF env Cons.prems(1)] by (simp add: host_inv_ring)
    then obtain s1 where s1: "host_round E now cqes ?s = Inr s1" using round_ok [OF env _ ok] by blast
    have "host_reachable E N s1" using host_reachable.a_round [OF _ refl ok s1] Cons.prems(1) by simp
    moreover have "rounds_legal E N rs s1" using Cons.prems(2) False s1 by (simp add: Let_def)
    ultimately show ?thesis using Cons.IH [of s1] False s1 by simp
  qed
qed


text \<open>
  C2 Connections on one loop do not disturb each other: in every reachable state of a loop, every
  connection is, seen alone, in a state it can reach with the loop and the pool to itself, so that
  what it has sent is what the kernel has taken followed by its queue; every chunk of the pool is in the
  ring, with the kernel or in the input buffer of one connection, and in one of these only, and it is
  empty unless a connection holds it; and the timer queue is in a state it can reach alone.
\<close>

theorem connections_do_not_interfere:
  assumes "host_env_ok E N" and "host_reachable E N (l, w)"
  shows "(\<forall>c hc. ho_conns w c = Some hc \<longrightarrow>
      conn_reachable (he_uring E) (he_bufs E) (he_resume E) (hc_wire hc) (conn_view l (ho_manager w) hc) \<and>
      hc_accepted hc = hc_wire hc @ sq_content (wc_buffer (tc_write (hc_conn hc)))) \<and>
    (\<exists>rs. he_avail E (cm_ring (ho_manager w)) = map (chunk_buf (ho_manager w)) rs \<and> distinct rs \<and>
      set rs \<inter> ho_kernel w = {} \<and>
      (\<forall>c hc. ho_conns w c = Some hc \<longrightarrow> foot (ho_manager w) hc \<inter> (set rs \<union> ho_kernel w) = {}) \<and>
      (\<forall>c d hc od. ho_conns w c = Some hc \<longrightarrow> ho_conns w d = Some od \<longrightarrow> c \<noteq> d \<longrightarrow>
        foot (ho_manager w) hc \<inter> foot (ho_manager w) od = {}) \<and>
      set rs \<union> ho_kernel w \<union> (\<Union>hc\<in>ran (ho_conns w). foot (ho_manager w) hc) = {..<he_chunks E} \<and>
      (\<forall>i\<in>set rs \<union> ho_kernel w. fresh (ho_manager w) i)) \<and>
    timer_reachable (he_alloc E) (he_script E) N (lp_timers l) (timer_tasks (lp_pending l))"
proof -
  have inv: "loop_inv E N [] l" "conns_inv E l w"
    using host_reachable_inv [OF assms] by (simp_all add: host_inv_def)
  obtain queued handed n where laws: "uring_laws (he_uring E) queued handed n" "0 < n"
    and co: "resume_ok (he_uring E) (he_bufs E) (he_resume E)"
    using assms(1) unfolding host_env_ok_def by blast
  have "hc_accepted hc = hc_wire hc @ sq_content (wc_buffer (tc_write (hc_conn hc)))"
    if "ho_conns w c = Some hc" for c hc
  proof -
    have "conn_reachable (he_uring E) (he_bufs E) (he_resume E) (hc_wire hc) (conn_view l (ho_manager w) hc)"
      using inv(2) that by (simp add: conns_inv_def)
    from conn_reachable_inv [OF laws co this] show ?thesis by (simp add: conn_inv_def write_inv_def)
  qed
  then have conns: "\<forall>c hc. ho_conns w c = Some hc \<longrightarrow>
      conn_reachable (he_uring E) (he_bufs E) (he_resume E) (hc_wire hc) (conn_view l (ho_manager w) hc) \<and>
      hc_accepted hc = hc_wire hc @ sq_content (wc_buffer (tc_write (hc_conn hc)))"
    using inv(2) by (simp add: conns_inv_def)
  obtain rs where rs: "chunks_inv E w rs" using inv(2) by (auto simp: conns_inv_def)
  show ?thesis
    by (intro conjI exI [of _ rs]) (use conns rs inv(1) in \<open>simp_all add: chunks_inv_def loop_inv_def\<close>)
qed

section \<open>A concrete loop\<close>

text \<open>Two connections of the coroutine of Connection_Runs, started by one round of a new loop.\<close>

definition demo_env :: "(slots, unit, list_ring_state, nat) host_env" where
  "demo_env =
     \<lparr>he_uring = slot_ring, he_bufs = list_ring, he_avail = snd, he_chunks = 4, he_resume = demo_resume, he_alloc = next_address,
      he_script = \<lambda>_ _. []\<rparr>"

definition demo_new_loop :: "(slots, nat host_task, unit) io_loop" where
  "demo_new_loop =
     \<lparr>lp_ring = ([], []), lp_looping = False, lp_quit = False, lp_time_out = kPollTimeS,
      lp_low_water = 1, lp_bgid = 3, lp_pending = [], lp_calling = False, lp_wakeup_fd = 9,
      lp_eventfd = 0, lp_waiting = [], lp_timers = TimerQueue\<rparr>"

definition demo_conn :: "nat \<Rightarrow> nat tcp_connection" where
  "demo_conn number =
     (case TcpConnection number ''echo'' 5 demo_addr demo_addr 1024 8 1024 of Inr c \<Rightarrow> c\<lparr>tc_close_callback := True\<rparr>)"

definition demo_two :: "(slots, nat host_task, unit) io_loop \<times> (list_ring_state, nat) host" where
  "demo_two =
     (queueInLoop False (StartConnection (demo_conn 8) 1) (queueInLoop False (StartConnection (demo_conn 7) 0) demo_new_loop),
      \<lparr>ho_manager = demo_manager, ho_conns = Map.empty, ho_kernel = {}\<rparr>)"

lemma demo_env_ok: "host_env_ok demo_env 0"
proof -
  have "uring_laws slot_ring (\<lambda>r. take 2 (fst r)) snd 2 \<and> 0 < (2 :: nat)" using slot_ring_laws by simp
  then have "\<exists>queued handed n. uring_laws slot_ring queued handed n \<and> 0 < n" by (intro exI)
  moreover have "\<exists>slot. buf_ring_laws list_ring snd slot 4"
    using demo_manager_start(4) by (intro exI) (simp add: demo_manager_length)
  ultimately show ?thesis
    by (simp add: host_env_ok_def demo_env_def demo_resume_ok next_address_ok script_bound_def)
qed

lemma demo_two_reachable: "host_reachable demo_env 0 demo_two"
proof -
  have "host_reachable demo_env 0 (demo_new_loop, \<lparr>ho_manager = demo_manager, ho_conns = Map.empty, ho_kernel = {}\<rparr>)"
    by (rule host_reachable.new_loop) (use demo_manager_start in \<open>simp_all add: demo_new_loop_def demo_env_def demo_manager_length\<close>)
  then show ?thesis unfolding demo_two_def by (intro host_reachable.queue_task) simp_all
qed

lemma start_conns:
  assumes "host_exec E (StartConnection conn h) s = Inr s'"
  shows "\<exists>hc. ho_conns (snd s') = (ho_conns (snd s))(tc_number conn \<mapsto> hc)"
  using assms by (auto simp: with_conn_def outcome_iff)

lemma demo_conn_new: "tc_number (demo_conn number) = number"
  "\<exists>number' name fd here peer a b c conn0. TcpConnection number' name fd here peer a b c = Inr conn0 \<and>
     demo_conn number = conn0\<lparr>tc_close_callback := True\<rparr>"
proof -
  obtain conn :: "nat tcp_connection" where c: "TcpConnection number ''echo'' 5 demo_addr demo_addr 1024 8 1024 = Inr conn"
    "tc_number conn = number" by (simp add: TcpConnection_def WriteContext_def)
  then show "tc_number (demo_conn number) = number" by (simp add: demo_conn_def)
  have "demo_conn number = conn\<lparr>tc_close_callback := True\<rparr>" using c(1) by (simp add: demo_conn_def)
  with c(1) show "\<exists>number' name fd here peer a b c conn0. TcpConnection number' name fd here peer a b c = Inr conn0 \<and>
     demo_conn number = conn0\<lparr>tc_close_callback := True\<rparr>" by blast
qed

lemma idle_waiting: "lp_waiting l = [] \<Longrightarrow> doingSubmitWaitingTask U fds datas l = Inr l"
  unfolding doingSubmitWaitingTask_def by (subst waiting_loop.simps) simp

lemma idle_timers: "handleRead alloc script True now TimerQueue = Inr TimerQueue"
  by (simp add: handleRead_def TimerQueue_def)

text \<open>The loop as the round sees it: two functors, and nothing else to do.\<close>

lemma demo_two_fields:
  obtains l w where "demo_two = (l, w)" "lp_waiting l = []" "lp_timers l = TimerQueue" "lp_quit l = False"
    "lp_pending l = [StartConnection (demo_conn 7) 0, StartConnection (demo_conn 8) 1]" "ho_conns w = Map.empty"
  by (rule that [of "fst demo_two" "snd demo_two"])
    (auto simp: demo_two_def demo_new_loop_def queueInLoop_def queue_push_def queue_wake_def wakeUp_def)

lemma demo_two_round:
  obtains l w where "demo_two = (l, w)" "lp_quit l = False"
    "timer_room 0 (l\<lparr>lp_ring := ur_submit slot_ring (lp_ring l)\<rparr>, w)"
    "round_legal demo_env (Timestamp 0) [] (l\<lparr>lp_ring := ur_submit slot_ring (lp_ring l)\<rparr>, w)"
    "\<forall>s. host_round demo_env (Timestamp 0) [] (l\<lparr>lp_ring := ur_submit slot_ring (lp_ring l)\<rparr>, w) = Inr s \<longrightarrow>
     ho_conns (snd s) 7 \<noteq> None \<and> ho_conns (snd s) 8 \<noteq> None"
proof -
  let ?ts = "[StartConnection (demo_conn 7) 0, StartConnection (demo_conn 8) 1]"
  obtain l w where s: "demo_two = (l, w)" and l: "lp_waiting l = []" "lp_timers l = TimerQueue" "lp_quit l = False"
    "lp_pending l = ?ts" "ho_conns w = Map.empty"
    using demo_two_fields .
  have "ho_conns (snd s') 8 = None"
    if "host_exec demo_env (StartConnection (demo_conn 7) 0) (l', w) = Inr s'" for l' s'
    using start_conns [OF that] l(5) by (auto simp: demo_conn_new(1))
  then have start: "all_legal task_legal (host_exec demo_env) ?ts (l', w)" for l'
    using l(5) demo_conn_new by (auto simp del: host_exec.simps split: sum.split)
  let ?l = "l\<lparr>lp_ring := ur_submit slot_ring (lp_ring l)\<rparr>"
  have "round_legal demo_env (Timestamp 0) [] (?l, w)"
    using l start by (simp add: round_legal_def idle_timers idle_waiting take_pending_def)
  moreover have "timer_room 0 (?l, w)" using l(2) by (simp add: timer_room_def TimerQueue_def LLONG_MAX_def)
  moreover have "ho_conns (snd s) 7 \<noteq> None \<and> ho_conns (snd s) 8 \<noteq> None"
    if r: "host_round demo_env (Timestamp 0) [] (?l, w) = Inr s" for s
  proof -
    obtain l1 s1 s2 where "host_exec demo_env (StartConnection (demo_conn 7) 0) (l1, w) = Inr s1"
      "host_exec demo_env (StartConnection (demo_conn 8) 1) s1 = Inr s2" "snd s = snd s2"
      using r l
      by (auto simp: host_round_def loop_round_def idle_timers idle_waiting doingPendingFunctors_def take_pending_def
          outcome_iff simp del: host_exec.simps)
    then show ?thesis
      using start_conns [of demo_env "demo_conn 7" 0 "(l1, w)" s1] start_conns [of demo_env "demo_conn 8" 1 s1 s2]
      by (auto simp: demo_conn_new(1) simp del: host_exec.simps)
  qed
  ultimately show thesis using that s l(3) by blast
qed

lemma demo_two_legal: "rounds_legal demo_env 0 [(Timestamp 0, [])] demo_two"
proof -
  obtain l w where s: "demo_two = (l, w)"
    and ok: "timer_room 0 (l\<lparr>lp_ring := ur_submit slot_ring (lp_ring l)\<rparr>, w)"
    "round_legal demo_env (Timestamp 0) [] (l\<lparr>lp_ring := ur_submit slot_ring (lp_ring l)\<rparr>, w)"
    using demo_two_round by metis
  have "he_uring demo_env = slot_ring" by (simp add: demo_env_def)
  with ok show ?thesis unfolding s rounds_legal.simps Let_def by (simp split: sum.split)
qed

text \<open>After the round both connections exist.\<close>

lemma demo_two_started:
  "\<exists>l w a b. host_reachable demo_env 0 (l, w) \<and> ho_conns w 7 = Some a \<and> ho_conns w 8 = Some b"
proof -
  obtain l w where s: "demo_two = (l, w)" "timer_room 0 (l\<lparr>lp_ring := ur_submit slot_ring (lp_ring l)\<rparr>, w)"
    "round_legal demo_env (Timestamp 0) [] (l\<lparr>lp_ring := ur_submit slot_ring (lp_ring l)\<rparr>, w)"
    and two: "\<forall>s. host_round demo_env (Timestamp 0) [] (l\<lparr>lp_ring := ur_submit slot_ring (lp_ring l)\<rparr>, w) = Inr s \<longrightarrow>
      ho_conns (snd s) 7 \<noteq> None \<and> ho_conns (snd s) 8 \<noteq> None"
    using demo_two_round by metis
  have r: "host_reachable demo_env 0 (l, w)" using demo_two_reachable s(1) by simp
  have "host_inv demo_env 0 [] (l\<lparr>lp_ring := ur_submit slot_ring (lp_ring l)\<rparr>, w)"
    by (rule host_inv_ring [OF host_reachable_inv [OF demo_env_ok r]])
  then obtain l' w' where e: "host_round demo_env (Timestamp 0) [] (l\<lparr>lp_ring := ur_submit slot_ring (lp_ring l)\<rparr>, w) = Inr (l', w')"
    using round_ok [OF demo_env_ok _ s(2,3)] by fastforce
  have "ur_submit (he_uring demo_env) = ur_submit slot_ring" by (simp add: demo_env_def)
  then have "host_reachable demo_env 0 (l', w')"
    using host_reachable.a_round [OF r refl, of "Timestamp 0" "[]" "(l', w')"] s(2,3) e by simp
  then show ?thesis using two e by fastforce
qed


theorem connections_do_not_interfere_witness:
  "\<exists>l w a b. host_reachable demo_env 0 (l, w) \<and> ho_conns w 7 = Some a \<and> ho_conns w 8 = Some b \<and>
     foot (ho_manager w) a \<inter> foot (ho_manager w) b = {} \<and>
     hc_accepted a = hc_wire a @ sq_content (wc_buffer (tc_write (hc_conn a)))"
proof -
  obtain l w a b where s: "host_reachable demo_env 0 (l, w)" "ho_conns w 7 = Some a" "ho_conns w 8 = Some b"
    using demo_two_started by blast
  note i = connections_do_not_interfere [OF demo_env_ok s(1)]
  have "foot (ho_manager w) a \<inter> foot (ho_manager w) b = {}"
    using i s(2,3) by (elim conjE exE) (metis numeral_eq_iff semiring_norm(89,90))
  moreover have "hc_accepted a = hc_wire a @ sq_content (wc_buffer (tc_write (hc_conn a)))"
    using conjunct1 [OF i] s(2) by blast
  ultimately show ?thesis using s by blast
qed

end
