(* ===== verification/Loop_System_Contexts.thy ===== *)
theory Loop_System_Contexts
  imports Loop_System_Safety
begin

text \<open>
  Contexts are members of connections, and a loop that keeps a request back holds a bare pointer to the
  context (\<open>waiting_submit_queue_\<close>). Here: every such pointer is to a living connection, whose \<open>holder_\<close>
  keeps it alive, and a connection that is destroyed leaves nothing behind.
\<close>

section \<open>What a handler adds to the requests kept back\<close>

text \<open>
  Only requests of the connection itself are added, and every one added is counted; those in the hands
  of the kernel, the difference of the two counts, do not get fewer.
\<close>

definition waits_own :: "('r, 'cb, 'b, 'k) conn_sys \<Rightarrow> ('r, 'cb, 'b, 'k) conn_sys \<Rightarrow> bool" where
  "waits_own s s' \<longleftrightarrow>
     (let c = tc_number (cs_conn s); W = count_list (lp_waiting (cs_loop s)); W' = count_list (lp_waiting (cs_loop s'))
      in tc_number (cs_conn s') = c \<and> (\<forall>ctx. ctx \<noteq> ReadCtx c \<longrightarrow> ctx \<noteq> WriteCtx c \<longrightarrow> W' ctx = W ctx) \<and>
         W' (ReadCtx c) + cs_reads s \<le> W (ReadCtx c) + cs_reads s' \<and>
         W' (WriteCtx c) + cs_writes s \<le> W (WriteCtx c) + cs_writes s')"

lemma submit_sqe_waiting: "submit_sqe U f q l = Inr l' \<Longrightarrow> lp_waiting l' = lp_waiting l"
  by (auto simp: submit_sqe_def getIoUringSqe_def outcome_iff split: if_splits option.splits prod.splits)

lemma submit_waiting_cases:
  "submitWriteMsg U fd vs ctx l = Inr l' \<Longrightarrow> lp_waiting l' = lp_waiting l \<or> lp_waiting l' = lp_waiting l @ [ctx]"
  "submitReadMultishut U fd ctx l = Inr l' \<Longrightarrow> lp_waiting l' = lp_waiting l \<or> lp_waiting l' = lp_waiting l @ [ctx]"
  "submitCancel U ctx l = Inr l' \<Longrightarrow> lp_waiting l' = lp_waiting l"
  by (auto simp: submit_defs submitCancel_def outcome_iff split: if_splits dest!: submit_sqe_waiting)

lemma queueInLoop_waiting [simp]: "lp_waiting (queueInLoop b t l) = lp_waiting l"
  by (simp add: queueInLoop_def queue_push_def queue_wake_def wakeUp_def)

lemma waits_own_same:
  assumes "lp_waiting (cs_loop s') = lp_waiting (cs_loop s)" and "cs_reads s' = cs_reads s"
    and "cs_writes s' = cs_writes s" and "tc_number (cs_conn s') = tc_number (cs_conn s)"
  shows "waits_own s s'"
  using assms by (simp add: waits_own_def)

lemma waits_own_trans: "waits_own s t \<Longrightarrow> waits_own t u \<Longrightarrow> waits_own s u"
  by (auto simp: waits_own_def Let_def)

interpretation waiting: conn_relation "waits_own :: ('r, 'cb, 'b, 'k) conn_sys \<Rightarrow> _" U B
  for U :: "'r uring_api" and B :: "'b buf_ring_api"
proof unfold_locales
  show "submitWrite U s = Inr s' \<Longrightarrow> waits_own s s'" for s s' :: "('r, 'cb, 'b, 'k) conn_sys"
    by (auto simp: submitWrite_def waits_own_def outcome_iff dest!: submit_waiting_cases(1))
  show "submitRead U s = Inr s' \<Longrightarrow> waits_own s s'" for s s' :: "('r, 'cb, 'b, 'k) conn_sys"
    by (auto simp: submitRead_def waits_own_def outcome_iff Let_def dest!: submit_waiting_cases(2))
  show "conn_retrieve B n s = Inr s' \<Longrightarrow> waits_own s s'" for s s' :: "('r, 'cb, 'b, 'k) conn_sys" and n
    by (auto simp: conn_retrieve_def outcome_iff intro!: waits_own_same)
  show "conn_read mem B n s = Inr (str, s') \<Longrightarrow> waits_own s s'"
    for s s' :: "('r, 'cb, 'b, 'k) conn_sys" and mem n str
    by (auto simp: conn_read_def outcome_iff intro!: waits_own_same)
qed (auto intro: waits_own_trans waits_own_same simp: queue_task_def)

section \<open>The requests kept back by a loop\<close>

definition reads_of :: "('b, 'k) host \<Rightarrow> nat \<Rightarrow> nat" where
  "reads_of w c = (case ho_conns w c of None \<Rightarrow> 0 | Some hc \<Rightarrow> hc_reads hc)"

definition writes_of :: "('b, 'k) host \<Rightarrow> nat \<Rightarrow> nat" where
  "writes_of w c = (case ho_conns w c of None \<Rightarrow> 0 | Some hc \<Rightarrow> hc_writes hc)"

text \<open>A request kept back is one of the outstanding requests of an existing connection.\<close>

definition waits_inv :: "io_context list \<Rightarrow> ('b, 'k) host \<Rightarrow> bool" where
  "waits_inv ws w \<longleftrightarrow>
     (\<forall>c hc. ho_conns w c = Some hc \<longrightarrow> tc_number (hc_conn hc) = c) \<and>
     (\<forall>c. count_list ws (ReadCtx c) \<le> reads_of w c) \<and> (\<forall>c. count_list ws (WriteCtx c) \<le> writes_of w c) \<and>
     (\<forall>c. AcceptCtx c \<notin> set ws) \<and> WakeupCtx \<notin> set ws"

abbreviation waits_ok :: "('r, 'k host_task, 'cb) io_loop \<times> ('b, 'k) host \<Rightarrow> bool" where
  "waits_ok s \<equiv> waits_inv (lp_waiting (fst s)) (snd s)"

lemma with_conn_waits:
  assumes inv: "waits_inv (lp_waiting l) w" and c: "ho_conns w c = Some hc"
    and f: "f (conn_view l (ho_manager w) hc) = Inr s" and r: "with_conn c f taken (l, w) = Inr s'"
    and v: "waits_own v s" "tc_number (cs_conn v) = c" "lp_waiting (cs_loop v) = lp_waiting l"
      "count_list (lp_waiting l) (ReadCtx c) \<le> cs_reads v" "count_list (lp_waiting l) (WriteCtx c) \<le> cs_writes v"
  shows "waits_ok s'"
proof -
  have s': "lp_waiting (fst s') = lp_waiting (cs_loop s)" "\<exists>wire. ho_conns (snd s') = (ho_conns w)(c \<mapsto> hosted_of wire s)"
    using r c f by (auto simp: with_conn_def)
  have own: "tc_number (cs_conn s) = c" "count_list (lp_waiting (cs_loop s)) (ReadCtx c) \<le> cs_reads s"
    "count_list (lp_waiting (cs_loop s)) (WriteCtx c) \<le> cs_writes s"
    "\<And>ctx. ctx \<noteq> ReadCtx c \<Longrightarrow> ctx \<noteq> WriteCtx c \<Longrightarrow>
      count_list (lp_waiting (cs_loop s)) ctx = count_list (lp_waiting l) ctx"
    using v by (auto simp: waits_own_def Let_def)
  have "AcceptCtx d \<notin> set (lp_waiting (cs_loop s))" "WakeupCtx \<notin> set (lp_waiting (cs_loop s))" for d
    using own(4) [of "AcceptCtx d"] own(4) [of WakeupCtx] inv by (auto simp: waits_inv_def simp flip: count_list_0_iff)
  moreover have "count_list (lp_waiting (cs_loop s)) (ReadCtx d) \<le> reads_of (snd s') d"
    "count_list (lp_waiting (cs_loop s)) (WriteCtx d) \<le> writes_of (snd s') d" for d
    using s'(2) own(2-4) inv by (cases "d = c"; auto simp: waits_inv_def reads_of_def writes_of_def hosted_of_def)+
  ultimately show ?thesis using s' own(1) inv by (auto simp: waits_inv_def hosted_of_def split: if_splits)
qed

lemma waits_existing:
  "waits_inv ws w \<Longrightarrow> ho_conns w c = Some hc \<Longrightarrow>
   tc_number (hc_conn hc) = c \<and> count_list ws (ReadCtx c) \<le> hc_reads hc \<and> count_list ws (WriteCtx c) \<le> hc_writes hc"
  by (auto simp: waits_inv_def reads_of_def writes_of_def dest: spec [of _ c])

lemma read_data_waiting:
  assumes "read_data U s = Inr s'"
  shows "lp_waiting (cs_loop s') = lp_waiting (cs_loop s) \<and> cs_reads s' = cs_reads s \<and> cs_writes s' = cs_writes s \<and>
    tc_number (cs_conn s') = tc_number (cs_conn s)"
  using assms
  by (auto simp: read_data_def conn_submitCancel_def outcome_iff Let_def split: if_splits dest!: submit_waiting_cases(3))

lemma read_completion_waits:
  assumes co: "resume_ok U B resume" and "read_on_completion U resume s = Inr s'"
  shows "waits_own s s'"
proof -
  obtain close s1 where s1: "read_arrived U s s1" "read_tail U resume close s1 = Inr s'"
    using read_on_completion_tail [OF assms(2)] by blast
  have "waits_own s s1"
    using s1(1) read_data_waiting [of U s s1] by (auto simp: read_arrived_def intro!: waits_own_same split: if_splits)
  with waiting.R_read_tail [OF co s1(2)] show ?thesis by (rule waits_own_trans [rotated])
qed

lemma host_complete_waits:
  assumes co: "resume_ok (he_uring E) (he_bufs E) (he_resume E)" and inv: "waits_ok s"
    and legal: "ctx_legal ctx res fl s" and r: "host_complete E ctx res fl s = Inr s'"
  shows "waits_ok s'"
proof -
  obtain l w where [simp]: "s = (l, w)" by (cases s)
  note ex = waits_existing [OF inv, simplified]
  show ?thesis
  proof (cases ctx)
    case (ReadCtx c)
    let ?f = "\<lambda>t. read_on_completion (he_uring E) (he_resume E) (read_delivered res fl t)"
    obtain hc where c: "ho_conns w c = Some hc" "count_list (lp_waiting l) (ReadCtx c) < hc_reads hc"
      using legal ReadCtx by (auto split: option.splits)
    let ?v = "conn_view l (ho_manager w) hc"
    obtain l' w' where w': "with_conn c ?f (\<lambda>_. []) (l, w) = Inr (l', w')"
      "s' = (l', w'\<lparr>ho_kernel := ho_kernel w' - taken_chunks res fl\<rparr>)"
      using r ReadCtx by (auto simp: outcome_iff)
    obtain t where t: "?f ?v = Inr t" using w'(1) c(1) by (auto simp: with_conn_def outcome_iff)
    have "waits_ok (l', w')"
      by (rule with_conn_waits [where f = ?f, OF _ c(1) t w'(1) read_completion_waits [OF co t]])
        (use inv ex [OF c(1)] c(2) in \<open>auto simp: read_delivered_def\<close>)
    then show ?thesis using w'(2) by (simp add: waits_inv_def reads_of_def writes_of_def)
  next
    case (WriteCtx c)
    let ?f = "\<lambda>t. write_on_completion (he_uring E) (he_resume E) (write_delivered res fl t)"
    obtain hc where c: "ho_conns w c = Some hc" "count_list (lp_waiting l) (WriteCtx c) < hc_writes hc"
      using legal WriteCtx by (auto split: option.splits)
    let ?v = "conn_view l (ho_manager w) hc"
    obtain t where t: "?f ?v = Inr t" using r WriteCtx c(1) by (auto simp: with_conn_def outcome_iff)
    show ?thesis
      by (rule with_conn_waits [where f = ?f and taken = "\<lambda>t. take (nat res) (batch_bytes t)",
            OF _ c(1) t _ waiting.R_write_completion [OF co t]])
        (use inv ex [OF c(1)] c(2) r WriteCtx in \<open>auto simp: write_delivered_def\<close>)
  next
    case WakeupCtx
    then show ?thesis using r inv by (auto simp: loop_on_completion_def outcome_iff dest!: submit_sqe_waiting)
  qed (use legal in simp)
qed

lemma host_exec_waits:
  assumes co: "resume_ok (he_uring E) (he_bufs E) (he_resume E)" and inv: "waits_ok s"
    and legal: "task_legal t s" and r: "host_exec E t s = Inr s'"
  shows "waits_ok s'"
proof -
  obtain l w where [simp]: "s = (l, w)" by (cases s)
  note ex = waits_existing [OF inv, simplified]
  show ?thesis
  proof (cases t)
    case (ConnTask c k)
    then obtain hc where c: "ho_conns w c = Some hc" using legal by (auto split: option.splits)
    obtain u where u: "run_conn_task (he_uring E) (he_resume E) k (conn_view l (ho_manager w) hc) = Inr u"
      using r ConnTask c by (auto simp: with_conn_def outcome_iff)
    show ?thesis
      by (rule with_conn_waits [where f = "run_conn_task (he_uring E) (he_resume E) k" and taken = "\<lambda>_. []",
            OF _ c u _ waiting.R_conn_task [OF co u]])
        (use inv ex [OF c] r ConnTask in auto)
  next
    case (StartConnection conn h)
    let ?c = "tc_number conn" and ?hc = "\<lparr>hc_conn = conn, hc_reads = 0, hc_writes = 0, hc_accepted = [], hc_wire = []\<rparr>"
    let ?w = "w\<lparr>ho_conns := (ho_conns w)(?c \<mapsto> ?hc)\<rparr>"
    have new: "ho_conns w ?c = None" using legal StartConnection by simp
    then have "count_list (lp_waiting l) (ReadCtx ?c) \<le> 0" "count_list (lp_waiting l) (WriteCtx ?c) \<le> 0"
      using inv by (auto simp: waits_inv_def reads_of_def writes_of_def dest: spec [of _ ?c])
    then have inv': "waits_inv (lp_waiting l) ?w"
      using inv by (auto simp: waits_inv_def reads_of_def writes_of_def)
    let ?v = "set_conn (\<lambda>c. c\<lparr>tc_task := True, tc_done := False\<rparr>) (conn_view l (ho_manager ?w) ?hc)"
    have r': "with_conn ?c (Established (he_resume E) h) (\<lambda>_. []) (l, ?w) = Inr s'" using r StartConnection by simp
    then obtain u where u: "Established (he_resume E) h (conn_view l (ho_manager ?w) ?hc) = Inr u"
      by (auto simp: with_conn_def outcome_iff)
    then have "waits_own ?v u" unfolding Established_def by (rule waiting.R_resume [OF co])
    then show ?thesis
      by (intro with_conn_waits [where v = ?v, OF inv' _ u r']) (use waits_existing [OF inv', of ?c ?hc] in auto)
  next
    case (TimerTask k)
    then show ?thesis using r inv by (auto simp: outcome_iff)
  qed
qed

section \<open>Runs\<close>

text \<open>What every legal step keeps is kept by a list of them.\<close>

lemma dispatch_keeps:
  assumes "\<And>ctx res fl s s'. P s \<Longrightarrow> ctx_legal ctx res fl s \<Longrightarrow> host_complete E ctx res fl s = Inr s' \<Longrightarrow> P s'"
  shows "P s \<Longrightarrow> all_legal cqe_legal (host_cqe E) cqes s \<Longrightarrow> dispatch (host_complete E) cqes s = Inr s' \<Longrightarrow> P s'"
proof (induction cqes arbitrary: s)
  case (Cons c cqes)
  show ?case
  proof (cases "cqe_user_data c")
    case None
    then show ?thesis using Cons by (simp add: host_cqe_simps)
  next
    case (Some ctx)
    then obtain s1 where s1: "host_complete E ctx (cqe_res c) (cqe_flags c) s = Inr s1"
      "dispatch (host_complete E) cqes s1 = Inr s'" using Cons.prems(3) by (auto simp: outcome_iff)
    have "P s1" using assms [OF Cons.prems(1) _ s1(1)] Cons.prems(2) Some by (simp add: cqe_legal_def)
    then show ?thesis using Cons.IH [OF _ _ s1(2)] Cons.prems(2) Some s1(1) by (simp add: host_cqe_simps)
  qed
qed simp

lemma run_functors_keeps:
  assumes "\<And>t s s'. P s \<Longrightarrow> task_legal t s \<Longrightarrow> host_exec E t s = Inr s' \<Longrightarrow> P s'"
  shows "P s \<Longrightarrow> all_legal task_legal (host_exec E) ts s \<Longrightarrow> run_functors (host_exec E) ts s = Inr s' \<Longrightarrow> P s'"
proof (induction ts arbitrary: s)
  case (Cons t ts)
  then obtain s1 where s1: "host_exec E t s = Inr s1" "run_functors (host_exec E) ts s1 = Inr s'"
    by (auto simp: outcome_iff)
  have "P s1" using assms [OF Cons.prems(1) _ s1(1)] Cons.prems(2) by simp
  then show ?case using Cons.IH [OF _ _ s1(2)] Cons.prems(2) s1(1) by simp
qed simp

lemma count_list_drop: "count_list (drop k xs) x \<le> count_list xs x"
  using count_list_append [of "take k xs" "drop k xs" x] by simp

lemma waits_inv_drop: "waits_inv ws w \<Longrightarrow> waits_inv (drop k ws) w"
  using set_drop_subset [of k ws] unfolding waits_inv_def by (auto intro: order_trans [OF count_list_drop])

lemma host_round_waits:
  assumes env: "host_env_ok E N" and inv: "waits_ok s" and legal: "round_legal E now cqes s"
    and r: "host_round E now cqes s = Inr s'"
  shows "waits_ok s'"
proof -
  have co: "resume_ok (he_uring E) (he_bufs E) (he_resume E)" using env by (simp add: host_env_ok_def)
  obtain q l w l1 where q: "handleRead (he_alloc E) (he_script E) True now (lp_timers (fst s)) = Inr q"
    and d: "dispatch (host_complete E) cqes ((fst s)\<lparr>lp_timers := q\<rparr>, snd s) = Inr (l, w)"
    and l1: "doingSubmitWaitingTask (he_uring E) (host_fd w) (host_data w) l = Inr l1"
    and f: "doingPendingFunctors (host_exec E) (l1, w) = Inr s'"
    using r by (auto simp: host_round_def loop_round_def outcome_iff)
  have lw: "waits_ok (l, w)"
    by (rule dispatch_keeps [where P = waits_ok, OF host_complete_waits [OF co] _ _ d])
      (use inv legal q in \<open>simp_all add: round_legal_def\<close>)
  then have "WakeupCtx \<notin> set (lp_waiting l)" by (simp add: waits_inv_def)
  from waiting_drops [OF env this, of "host_fd w" "host_data w"]
  obtain k ring where "l1 = l\<lparr>lp_ring := ring, lp_waiting := drop k (lp_waiting l)\<rparr>"
    using l1 by (metis Inr_inject)
  then have "waits_ok (l1, w)" using waits_inv_drop [of "lp_waiting l" w k] lw by simp
  then have "waits_ok (snd (take_pending l1), w)" by (simp add: take_pending_def)
  moreover have "all_legal task_legal (host_exec E) (lp_pending l1) (snd (take_pending l1), w)"
    using legal q d l1 by (simp add: round_legal_def)
  moreover obtain s2 where s2: "run_functors (host_exec E) (lp_pending l1) (snd (take_pending l1), w) = Inr s2"
    "lp_waiting (fst s') = lp_waiting (fst s2)" "snd s' = snd s2"
    using f by (auto simp: doingPendingFunctors_def take_pending_def outcome_iff)
  ultimately have "waits_ok s2"
    by (intro run_functors_keeps [where P = waits_ok, OF host_exec_waits [OF co] _ _ s2(1)])
  then show ?thesis using s2(2,3) by simp
qed

text \<open>A connection nobody refers to has no request outstanding.\<close>

lemma unreferenced_idle:
  assumes env: "host_env_ok E N" and "host_reachable E N (l, w)" and c: "ho_conns w c = Some hc" "host_refs c l hc = 0"
  shows "hc_reads hc = 0" and "hc_writes hc = 0"
proof -
  obtain queued handed n where laws: "uring_laws (he_uring E) queued handed n" "0 < n"
    and co: "resume_ok (he_uring E) (he_bufs E) (he_resume E)"
    using env unfolding host_env_ok_def by blast
  have "conn_reachable (he_uring E) (he_bufs E) (he_resume E) (hc_wire hc) (conn_view l (ho_manager w) hc)"
    using host_reachable_inv [OF assms(1,2)] c(1) by (simp add: host_inv_def conns_inv_def)
  from conn_reachable_inv [OF laws co this] show "hc_reads hc = 0" "hc_writes hc = 0"
    using c(2) by (auto simp: conn_inv_def read_inv_def write_inv_def host_refs_def split: if_splits)
qed

lemma host_reachable_waits:
  assumes env: "host_env_ok E N" and "host_reachable E N s"
  shows "waits_ok s"
  using assms(2)
proof induction
  case (a_round l w s now cqes s')
  then show ?case using host_round_waits [OF env _ a_round.hyps(4,5)] by simp
next
  case (destroyed l w c hc s)
  have "waits_inv (lp_waiting l) (w\<lparr>ho_conns := (ho_conns w)(c := None)\<rparr>)"
    using destroyed.IH unreferenced_idle [OF env destroyed.hyps(1-3)] waits_existing [of "lp_waiting l" w c hc] destroyed.hyps(2)
    by (auto simp: waits_inv_def reads_of_def writes_of_def split: if_splits)
  then show ?case
    using destroyed.hyps(2,4) by (auto simp: host_destroy_def outcome_iff waits_inv_def reads_of_def writes_of_def)
next
  case (read_eventfd l w l')
  then show ?case by (auto simp: loop_on_completion_def dest!: submit_sqe_waiting)
qed (simp_all add: waits_inv_def reads_of_def writes_of_def)

section \<open>Contexts and destruction\<close>

lemma distinct_counts: "(\<And>x. count_list xs x \<le> 1) \<Longrightarrow> distinct xs"
proof (induction xs)
  case (Cons x xs)
  have "count_list xs y \<le> 1" for y using Cons.prems [of y] by (simp split: if_splits)
  moreover have "x \<notin> set xs" using Cons.prems [of x] by (simp add: count_list_0_iff)
  ultimately show ?case using Cons.IH by simp
qed simp

text \<open>
  C3 No context dangles: in every reachable state of a loop, also after connections were destroyed, every
  request the loop keeps back is the receive or the write of a connection that exists, whose context
  holds it through \<open>holder_\<close>; and no context is kept back twice.
\<close>

theorem waiting_contexts_alive:
  assumes "host_env_ok E N" and "host_reachable E N (l, w)"
  shows "(\<forall>ctx\<in>set (lp_waiting l). \<exists>c hc. ho_conns w c = Some hc \<and>
      (ctx = ReadCtx c \<and> rc_holder (tc_read (hc_conn hc)) \<or> ctx = WriteCtx c \<and> wc_holder (tc_write (hc_conn hc)))) \<and>
    distinct (lp_waiting l)"
proof -
  obtain queued handed n where laws: "uring_laws (he_uring E) queued handed n" "0 < n"
    and co: "resume_ok (he_uring E) (he_bufs E) (he_resume E)"
    using assms(1) unfolding host_env_ok_def by blast
  have wi: "waits_inv (lp_waiting l) w" using host_reachable_waits [OF assms] by simp
  have ci: "conn_inv False False (hc_wire hc) (conn_view l (ho_manager w) hc)" if "ho_conns w c = Some hc" for c hc
    using host_reachable_inv [OF assms] that
    by (intro conn_reachable_inv [OF laws co]) (simp add: host_inv_def conns_inv_def)
  have held: "hc_reads hc \<le> 1" "hc_writes hc \<le> 1" "0 < hc_reads hc \<Longrightarrow> rc_holder (tc_read (hc_conn hc))"
    "0 < hc_writes hc \<Longrightarrow> wc_holder (tc_write (hc_conn hc))" if "ho_conns w c = Some hc" for c hc
    using ci [OF that] by (auto simp: conn_inv_def read_inv_def write_inv_def split: if_splits)
  have "count_list (lp_waiting l) ctx \<le> 1" for ctx
  proof (cases ctx)
    case (ReadCtx c)
    have "reads_of w c \<le> 1" using held(1) by (auto simp: reads_of_def split: option.split)
    moreover have "count_list (lp_waiting l) ctx \<le> reads_of w c" using wi ReadCtx by (simp add: waits_inv_def)
    ultimately show ?thesis by simp
  next
    case (WriteCtx c)
    have "writes_of w c \<le> 1" using held(2) by (auto simp: writes_of_def split: option.split)
    moreover have "count_list (lp_waiting l) ctx \<le> writes_of w c" using wi WriteCtx by (simp add: waits_inv_def)
    ultimately show ?thesis by simp
  qed (use wi in \<open>simp_all add: waits_inv_def count_list_0_iff\<close>)
  then have "distinct (lp_waiting l)" by (rule distinct_counts)
  moreover have "\<exists>c hc. ho_conns w c = Some hc \<and>
      (ctx = ReadCtx c \<and> rc_holder (tc_read (hc_conn hc)) \<or> ctx = WriteCtx c \<and> wc_holder (tc_write (hc_conn hc)))"
    if "ctx \<in> set (lp_waiting l)" for ctx
  proof -
    have pos: "0 < count_list (lp_waiting l) ctx" using that by (simp add: count_list_0_iff neq0_conv [symmetric] del: neq0_conv)
    show ?thesis
    proof (cases ctx)
      case (ReadCtx c)
      then have "0 < reads_of w c" using wi pos by (auto simp: waits_inv_def intro: less_le_trans)
      then show ?thesis using ReadCtx held(3) by (auto simp: reads_of_def split: option.splits)
    next
      case (WriteCtx c)
      then have "0 < writes_of w c" using wi pos by (auto simp: waits_inv_def intro: less_le_trans)
      then show ?thesis using WriteCtx held(4) by (auto simp: writes_of_def split: option.splits)
    qed (use wi that in \<open>auto simp: waits_inv_def\<close>)
  qed
  ultimately show ?thesis by blast
qed


section \<open>Concrete loops\<close>

text \<open>
  A loop with a coroutine \<open>resume\<close> and low-water mark \<open>lw\<close> that finds the functors \<open>ts\<close> in its queue, and
  its first round.
\<close>

definition run_env ::
    "(nat \<Rightarrow> (slots, unit, list_ring_state, nat) conn_sys \<Rightarrow> (slots, unit, list_ring_state, nat) conn_sys outcome) \<Rightarrow>
     (slots, unit, list_ring_state, nat) host_env" where
  "run_env resume = demo_env\<lparr>he_resume := resume\<rparr>"

definition task_loop :: "size_t \<Rightarrow> nat host_task list \<Rightarrow> (slots, nat host_task, unit) io_loop" where
  "task_loop lw ts = fold (queueInLoop False) ts (demo_new_loop\<lparr>lp_low_water := lw\<rparr>)"

abbreviation new_host :: "(list_ring_state, nat) host" where
  "new_host \<equiv> \<lparr>ho_manager = demo_manager, ho_conns = Map.empty, ho_kernel = {}\<rparr>"

lemma run_env_ok: "resume_ok slot_ring list_ring resume \<Longrightarrow> host_env_ok (run_env resume) 0"
  using demo_env_ok by (simp add: host_env_ok_def run_env_def demo_env_def)

lemma queued_reachable:
  assumes "host_reachable E N (l, w)" and "timer_tasks ts = []"
  shows "host_reachable E N (fold (queueInLoop False) ts l, w)"
  using assms
proof (induction ts arbitrary: l)
  case (Cons t ts)
  have "timer_tasks [t] = []" "timer_tasks ts = []" using Cons.prems(2) by (cases t; simp)+
  then show ?case using Cons.IH [OF host_reachable.queue_task] Cons.prems(1) by simp
qed simp

lemma task_loop_reachable:
  assumes "0 < lw" and "timer_tasks ts = []"
  shows "host_reachable (run_env resume) 0 (task_loop lw ts, new_host)"
proof -
  have "host_reachable (run_env resume) 0 (demo_new_loop\<lparr>lp_low_water := lw\<rparr>, new_host)"
    by (rule host_reachable.new_loop)
      (use demo_manager_start assms(1) in \<open>simp_all add: demo_new_loop_def run_env_def demo_env_def demo_manager_length\<close>)
  then show ?thesis unfolding task_loop_def by (rule queued_reachable [OF _ assms(2)])
qed

lemma queued_fields:
  "lp_waiting (fold (queueInLoop False) ts l) = lp_waiting l" "lp_timers (fold (queueInLoop False) ts l) = lp_timers l"
  "lp_pending (fold (queueInLoop False) ts l) = lp_pending l @ ts"
  "lp_low_water (fold (queueInLoop False) ts l) = lp_low_water l" "lp_ring (fold (queueInLoop False) ts l) = lp_ring l"
  by (induction ts arbitrary: l) (simp_all add: queueInLoop_def queue_push_def queue_wake_def wakeUp_def)

lemma task_loop_fields:
  "lp_waiting (task_loop lw ts) = []" "lp_timers (task_loop lw ts) = TimerQueue" "lp_pending (task_loop lw ts) = ts"
  "lp_low_water (task_loop lw ts) = lw" "lp_ring (task_loop lw ts) = ([], [])"
  by (simp_all add: task_loop_def queued_fields demo_new_loop_def)

lemma task_loop_round:
  assumes co: "resume_ok slot_ring list_ring resume" and "0 < lw" "timer_tasks ts = []"
    and legal: "\<And>l. all_legal task_legal (host_exec (run_env resume)) ts (l, new_host)"
  obtains l w l0 s where "host_reachable (run_env resume) 0 (l, w)"
    "run_functors (host_exec (run_env resume)) ts (l0, new_host) = Inr s" "l = (fst s)\<lparr>lp_calling := False\<rparr>" "w = snd s"
    "lp_pending l0 = []" "lp_waiting l0 = []" "lp_low_water l0 = lw" "lp_ring l0 = ([], [])"
proof -
  let ?E = "run_env resume" and ?l = "task_loop lw ts"
  note reach = task_loop_reachable [OF assms(2,3), of resume] and env = run_env_ok [OF co] and f = task_loop_fields
  let ?l1 = "?l\<lparr>lp_ring := ur_submit (he_uring ?E) (lp_ring ?l)\<rparr>"
  let ?l0 = "?l1\<lparr>lp_timers := TimerQueue, lp_calling := True, lp_pending := []\<rparr>"
  have rl: "round_legal ?E (Timestamp 0) [] (?l1, new_host)"
    using legal by (simp add: round_legal_def idle_timers idle_waiting take_pending_def f)
  have room: "timer_room 0 (?l1, new_host)" by (simp add: timer_room_def f TimerQueue_def LLONG_MAX_def)
  have "host_inv ?E 0 [] (?l1, new_host)" by (rule host_inv_ring [OF host_reachable_inv [OF env reach]])
  then obtain l w where r: "host_round ?E (Timestamp 0) [] (?l1, new_host) = Inr (l, w)"
    using round_ok [OF env _ room rl] by fastforce
  then obtain s where s: "run_functors (host_exec ?E) ts (?l0, new_host) = Inr s"
    "l = (fst s)\<lparr>lp_calling := False\<rparr>" "w = snd s"
    by (auto simp: host_round_def loop_round_def idle_timers idle_waiting doingPendingFunctors_def take_pending_def
        outcome_iff f simp del: host_exec.simps)
  have "lp_ring ?l0 = ([], [])" by (simp add: f run_env_def demo_env_def slot_ring_def)
  then show thesis
    using that [OF host_reachable.a_round [OF reach refl room rl r] s] f by simp
qed

lemma demo_conn_fields:
  "tc_closing (demo_conn n) = False" "rc_handle (tc_read (demo_conn n)) = None" "wc_handle (tc_write (demo_conn n)) = None"
  "rc_holder (tc_read (demo_conn n)) = False" "wc_holder (tc_write (demo_conn n)) = False"
  "rc_buffer (tc_read (demo_conn n)) = InputChainBuffer" "rc_status (tc_read (demo_conn n)) = STOPED"
  by (simp_all add: demo_conn_def TcpConnection_def WriteContext_def ReadContext_def)

text \<open>
  A coroutine that waits for data, on a loop whose low-water mark is above the size of its ring, so that
  every request is kept back.
\<close>

definition wait_resume ::
    "nat \<Rightarrow> (slots, unit, list_ring_state, nat) conn_sys \<Rightarrow> (slots, unit, list_ring_state, nat) conn_sys outcome" where
  "wait_resume h s = Inr (demo_recv h s)"

lemma wait_resume_ok: "resume_ok slot_ring list_ring wait_resume"
  using demo_recv_step [of list_ring] by (simp add: resume_ok_def wait_resume_def)

lemma always_below: "lp_ring l = ([], []) \<Longrightarrow> lp_low_water l = 3 \<Longrightarrow> below_low_water slot_ring l"
  by (simp add: below_low_water_def remainedSqe_def slot_ring_def)

lemma wait_exec:
  assumes "lp_ring l = ([], [])" and "lp_low_water l = 3" and "lp_waiting l = []"
    and "host_exec (run_env wait_resume) (StartConnection (demo_conn 7) 0) (l, new_host) = Inr s"
  shows "lp_waiting (fst s) = [ReadCtx 7]"
proof -
  have "below_low_water slot_ring (loop_view l)" using assms(1,2) by (intro always_below) (simp_all add: loop_view_def)
  then show ?thesis
    using assms(3,4)
    by (auto simp: run_env_def demo_conn_new(1) with_conn_def Established_def co_resume_def wait_resume_def demo_recv_def
        recv_await_ready_def recv_await_suspend_def read_isEmpty_def submitRead_def submitReadMultishut_def
        InputChainBuffer_def demo_conn_fields Let_def)
qed

lemma wait_kept_back: "\<exists>l w. host_reachable (run_env wait_resume) 0 (l, w) \<and> lp_waiting l = [ReadCtx 7]"
proof -
  let ?ts = "[StartConnection (demo_conn 7) 0]"
  have legal: "all_legal task_legal (host_exec (run_env wait_resume)) ?ts (l, new_host)" for l
    using demo_conn_new by (auto split: sum.split)
  have pre: "0 < (3 :: size_t)" "timer_tasks ?ts = []" by simp_all
  obtain l w l0 s where
    r: "host_reachable (run_env wait_resume) 0 (l, w)" "run_functors (host_exec (run_env wait_resume)) ?ts (l0, new_host) = Inr s"
    "l = (fst s)\<lparr>lp_calling := False\<rparr>" "w = snd s" "lp_pending l0 = []" "lp_waiting l0 = []" "lp_low_water l0 = 3"
    "lp_ring l0 = ([], [])"
    by (rule task_loop_round [OF wait_resume_ok pre legal])
  from r(2) have x: "host_exec (run_env wait_resume) (StartConnection (demo_conn 7) 0) (l0, new_host) = Inr s"
    by (auto simp: outcome_iff simp del: host_exec.simps)
  have "lp_waiting l = [ReadCtx 7]" using wait_exec [OF r(8,7,6) x] r(3) by simp
  with r(1) show ?thesis by blast
qed

text \<open>
  A coroutine that ends at once. \<open>Destroyed\<close> is called twice: the first call closes the connection, the
  second destroys the frame.
\<close>

definition end_resume ::
    "nat \<Rightarrow> (slots, unit, list_ring_state, nat) conn_sys \<Rightarrow> (slots, unit, list_ring_state, nat) conn_sys outcome" where
  "end_resume h s =
     Inr (if rc_handle (the_read s) = None \<and> wc_handle (the_write s) = None
          then set_conn (\<lambda>c. c\<lparr>tc_done := True\<rparr>) s else s)"

lemma end_resume_ok: "resume_ok slot_ring list_ring end_resume"
  by (auto simp: resume_ok_def end_resume_def intro!: r_into_rtranclp user_finish)

definition end_tasks :: "nat host_task list" where
  "end_tasks = [StartConnection (demo_conn 7) 0, ConnTask 7 DestroyConnection, ConnTask 7 DestroyConnection]"

lemma end_exec:
  "host_exec (run_env end_resume) (StartConnection (demo_conn 7) 0) (l, new_host) = Inr s1 \<Longrightarrow>
   host_exec (run_env end_resume) (ConnTask 7 DestroyConnection) s1 = Inr s2 \<Longrightarrow>
   host_exec (run_env end_resume) (ConnTask 7 DestroyConnection) s2 = Inr s3 \<Longrightarrow>
   \<exists>hc. ho_conns (snd s3) 7 = Some hc \<and> \<not> rc_holder (tc_read (hc_conn hc)) \<and> \<not> wc_holder (tc_write (hc_conn hc)) \<and>
     \<not> tc_task (hc_conn hc) \<and> lp_pending (fst s3) = lp_pending l"
  by (auto simp: run_env_def demo_conn_new(1) with_conn_def Established_def co_resume_def end_resume_def hosted_of_def
    handleClose_def Let_def demo_conn_fields split: prod.splits)

lemma end_unreferenced:
  "\<exists>l w hc. host_reachable (run_env end_resume) 0 (l, w) \<and> ho_conns w 7 = Some hc \<and> host_refs 7 l hc = 0"
proof -
  have legal: "all_legal task_legal (host_exec (run_env end_resume)) end_tasks (l, new_host)" for l
    unfolding end_tasks_def using demo_conn_new
    by (auto simp: with_conn_def outcome_iff split: sum.split option.split prod.splits)
  have pre: "0 < (1 :: size_t)" "timer_tasks end_tasks = []" by (simp_all add: end_tasks_def)
  obtain l w l0 s where
    r: "host_reachable (run_env end_resume) 0 (l, w)" "run_functors (host_exec (run_env end_resume)) end_tasks (l0, new_host) = Inr s"
    "l = (fst s)\<lparr>lp_calling := False\<rparr>" "w = snd s" "lp_pending l0 = []" "lp_waiting l0 = []" "lp_low_water l0 = 1"
    "lp_ring l0 = ([], [])"
    by (rule task_loop_round [OF end_resume_ok pre legal])
  then have "\<exists>hc. ho_conns (snd s) 7 = Some hc \<and> host_refs 7 l hc = 0"
    unfolding end_tasks_def using end_exec [of l0 _ _ s]
    by (force simp: outcome_iff host_refs_def simp del: host_exec.simps)
  with r(1,4) show ?thesis by blast
qed

theorem waiting_contexts_alive_witness:
  "\<exists>l w hc. host_reachable (run_env wait_resume) 0 (l, w) \<and> lp_waiting l = [ReadCtx 7] \<and>
     ho_conns w 7 = Some hc \<and> rc_holder (tc_read (hc_conn hc))"
proof -
  obtain l w where s: "host_reachable (run_env wait_resume) 0 (l, w)" "lp_waiting l = [ReadCtx 7]"
    using wait_kept_back by blast
  with waiting_contexts_alive [OF run_env_ok [OF wait_resume_ok] s(1)] show ?thesis by auto
qed


end
