(* ===== verification/Connection_Receive.thy ===== *)
theory Connection_Receive
  imports Loop_System_Safety
begin

text \<open>
  The receiving side of a connection with the memory of the pool: the kernel writes what has arrived into
  a chunk it has taken and reports it, the coroutine reads the buffer whenever it is resumed, and
  the bytes come out in the order in which they arrived.
\<close>

section \<open>The bytes a connection has not read yet\<close>

definition unread_bytes :: "memory \<Rightarrow> ('r, 'cb, 'b, 'k) conn_sys \<Rightarrow> byte list" where
  "unread_bytes mem s = icb_content (mem, cs_manager s, rc_buffer (the_read s))"

lemma unread_bytes_rep:
  "icb_rep (cs_manager s) (rc_buffer (the_read s)) xs \<Longrightarrow> unread_bytes mem s = icb_bytes mem (cs_manager s) xs"
  by (simp add: unread_bytes_def icb_content_def icb_chain_rep)

text \<open>\<open>reads_off mem s s'\<close>: between the states bytes were only taken from the front of the buffer.\<close>

definition reads_off :: "memory \<Rightarrow> ('r, 'cb, 'b, 'k) conn_sys \<Rightarrow> ('r, 'cb, 'b, 'k) conn_sys \<Rightarrow> bool" where
  "reads_off mem s s' \<longleftrightarrow>
     (\<forall>xs. icb_rep (cs_manager s) (rc_buffer (the_read s)) xs \<longrightarrow>
        (\<exists>xs' k. icb_rep (cs_manager s') (rc_buffer (the_read s')) xs' \<and>
           icb_bytes mem (cs_manager s') xs' = drop k (icb_bytes mem (cs_manager s) xs)))"

lemma reads_off_same:
  "cs_manager s' = cs_manager s \<Longrightarrow> rc_buffer (the_read s') = rc_buffer (the_read s) \<Longrightarrow> reads_off mem s s'"
  by (metis drop0 reads_off_def)

lemma reads_off_trans: "reads_off mem s t \<Longrightarrow> reads_off mem t u \<Longrightarrow> reads_off mem s u"
  unfolding reads_off_def by (metis drop_drop)

lemma conn_retrieve_reads:
  assumes "conn_retrieve B n s = Inr s'"
  shows "reads_off mem s s'"
  unfolding reads_off_def
proof (intro allI impI)
  fix xs assume rep: "icb_rep (cs_manager s) (rc_buffer (the_read s)) xs"
  obtain m b xs' where r: "icb_retrieve B (cs_manager s) (rc_buffer (the_read s)) n = Some (Inr (m, b))"
    "icb_rep m b xs'" "icb_bytes mem m xs' = drop (unat n) (icb_bytes mem (cs_manager s) xs)"
    using icb_retrieve_ok [OF rep, of B n mem] by blast
  then have "s' = set_read (\<lambda>r. r\<lparr>rc_buffer := b\<rparr>) (s\<lparr>cs_manager := m\<rparr>)" using assms by (simp add: conn_retrieve_def)
  with r(2,3) show "\<exists>xs' k. icb_rep (cs_manager s') (rc_buffer (the_read s')) xs' \<and>
      icb_bytes mem (cs_manager s') xs' = drop k (icb_bytes mem (cs_manager s) xs)" by auto
qed

text \<open>A \<open>read\<close> returns the next bytes of the memory as it is.\<close>

lemma conn_read_exact:
  assumes rep: "icb_rep (cs_manager s) (rc_buffer (the_read s)) xs"
  shows "\<exists>s'. conn_read mem B n s = Inr (take (unat n) (unread_bytes mem s), s') \<and>
    unread_bytes mem s' = drop (unat n) (unread_bytes mem s)"
proof -
  obtain m b xs' where r: "removeAsString mem B (cs_manager s) (rc_buffer (the_read s)) n =
      Some (Inr (m, b, take (unat n) (icb_bytes mem (cs_manager s) xs)))"
    "icb_rep m b xs'" "icb_bytes mem m xs' = drop (unat n) (icb_bytes mem (cs_manager s) xs)"
    using removeAsString_ok [OF rep, of mem B n] by blast
  let ?s = "set_read (\<lambda>r. r\<lparr>rc_buffer := b\<rparr>) (s\<lparr>cs_manager := m\<rparr>)"
  have "unread_bytes mem ?s = drop (unat n) (unread_bytes mem s)"
    using r(2,3) rep by (simp add: unread_bytes_rep)
  then show ?thesis using r(1) rep by (intro exI [of _ ?s]) (simp add: conn_read_def unread_bytes_rep)
qed

lemma conn_read_reads:
  assumes "conn_read mem' B n s = Inr (str, s')"
  shows "reads_off mem s s'"
  unfolding reads_off_def
proof (intro allI impI)
  fix xs assume rep: "icb_rep (cs_manager s) (rc_buffer (the_read s)) xs"
  obtain m b xs' where r: "removeAsString mem' B (cs_manager s) (rc_buffer (the_read s)) n =
      Some (Inr (m, b, take (unat n) (icb_bytes mem' (cs_manager s) xs)))" "icb_rep m b xs'"
    "icb_bytes mem m xs' = drop (unat n) (icb_bytes mem (cs_manager s) xs)"
    using removeAsString_any [OF rep, of mem' B n] by blast
  then have "s' = set_read (\<lambda>r. r\<lparr>rc_buffer := b\<rparr>) (s\<lparr>cs_manager := m\<rparr>)" using assms by (simp add: conn_read_def)
  with r(2,3) show "\<exists>xs' k. icb_rep (cs_manager s') (rc_buffer (the_read s')) xs' \<and>
      icb_bytes mem (cs_manager s') xs' = drop k (icb_bytes mem (cs_manager s) xs)" by auto
qed

interpretation receiving: conn_relation "reads_off mem :: ('r, 'cb, 'b, 'k) conn_sys \<Rightarrow> _" U B
  for mem and U :: "'r uring_api" and B :: "'b buf_ring_api"
proof unfold_locales
  show "submitWrite U s = Inr s' \<Longrightarrow> reads_off mem s s'" for s s' :: "('r, 'cb, 'b, 'k) conn_sys"
    by (auto simp: submitWrite_def outcome_iff intro!: reads_off_same)
  show "submitRead U s = Inr s' \<Longrightarrow> reads_off mem s s'" for s s' :: "('r, 'cb, 'b, 'k) conn_sys"
    by (auto simp: submitRead_def outcome_iff Let_def intro!: reads_off_same)
qed (auto intro: reads_off_trans conn_retrieve_reads conn_read_reads reads_off_same simp: queue_task_def)

section \<open>The arrival of data\<close>

text \<open>The kernel writes into a chunk that is in no buffer: no unread byte changes.\<close>

lemma kernel_write_apart:
  assumes "icb_rep m b xs" and "i < length (cm_chunks_data m)" and "i \<notin> set xs" and "length bs \<le> unat (cm_chunk_size m)"
  shows "icb_bytes (write_mem mem (ck_data_ptr (cm_chunks_data m ! i)) bs) m xs = icb_bytes mem m xs"
proof -
  have "icb_links m b xs" using assms(1) by (simp add: icb_rep_def)
  then show ?thesis
    unfolding icb_bytes_def using chunk_bytes_write_other [OF _ _ assms(2) _ assms(4)] assms(3)
    by (intro arg_cong [of _ _ concat] map_cong refl) metis
qed

lemma read_data_appends:
  assumes "read_data U s = Inr s'" and rep: "icb_rep (cs_manager s) (rc_buffer (the_read s)) xs"
    and legal: "receive_legal (rc_res (the_read s)) (rc_flags (the_read s)) s" "0 < rc_res (the_read s)"
    and i: "i = unat (cqe_buffer (rc_flags (the_read s)))"
  shows "\<exists>xs'. icb_rep (cs_manager s') (rc_buffer (the_read s')) xs' \<and>
    icb_bytes mem (cs_manager s') xs' = icb_bytes mem (cs_manager s) xs @
      read_mem mem (ck_data_ptr (cm_chunks_data (cs_manager s) ! i)) (nat (rc_res (the_read s)))"
proof -
  let ?m = "cs_manager s" and ?i = "cqe_buffer (rc_flags (the_read s))"
  have i': "unat ?i < length (cm_chunks_data ?m)" "unat ?i \<notin> set xs" "fresh ?m (unat ?i)"
    "nat (rc_res (the_read s)) \<le> unat (cm_chunk_size ?m)"
    using legal icb_chain_rep [OF rep] by (auto simp: receive_legal_def)
  obtain m b where a: "icb_append ?m (rc_buffer (the_read s)) ?i (rc_res (the_read s)) = Inr (m, b)"
    "icb_rep m b (xs @ [unat ?i])" "icb_bytes mem m (xs @ [unat ?i]) = icb_bytes mem ?m xs @
      read_mem mem (ck_data_ptr (cm_chunks_data ?m ! unat ?i)) (nat (rc_res (the_read s)))"
    using icb_append_ok [OF rep i'(1-3) legal(2) i'(4), of mem] by blast
  have "cs_manager s' = m" "rc_buffer (the_read s') = b"
    using assms(1) a(1)
    by (auto simp: read_data_def conn_submitCancel_def outcome_iff Let_def split: if_splits)
  with a(2,3) i show ?thesis by blast
qed

text \<open>The whole handler: the bytes join at the end, and the coroutine takes some from the front.\<close>

lemma arrival_reads:
  assumes co: "resume_ok U B resume" and r: "read_on_completion U resume (read_delivered res fl s) = Inr s'"
    and rep: "icb_rep (cs_manager s) (rc_buffer (the_read s)) xs" and legal: "receive_legal res fl s" "0 < res"
    and bs: "length bs = nat res"
    and mem': "mem' = write_mem mem (ck_data_ptr (cm_chunks_data (cs_manager s) ! unat (cqe_buffer fl))) bs"
  shows "\<exists>xs' k. icb_rep (cs_manager s') (rc_buffer (the_read s')) xs' \<and>
    icb_bytes mem' (cs_manager s') xs' = drop k (icb_bytes mem (cs_manager s) xs @ bs)"
proof -
  let ?d = "read_delivered res fl s" and ?i = "unat (cqe_buffer fl)"
  obtain close s1 where s1: "read_arrived U ?d s1" "read_tail U resume close s1 = Inr s'"
    using read_on_completion_tail [OF r] by blast
  have l: "?i < length (cm_chunks_data (cs_manager s))" "?i \<notin> set xs" "length bs \<le> unat (cm_chunk_size (cs_manager s))"
    using legal bs icb_chain_rep [OF rep] by (auto simp: receive_legal_def)
  have "receive_legal (rc_res (the_read ?d)) (rc_flags (the_read ?d)) ?d"
    using legal by (simp add: receive_legal_def)
  then obtain ys where ys: "icb_rep (cs_manager s1) (rc_buffer (the_read s1)) ys"
    "icb_bytes mem' (cs_manager s1) ys = icb_bytes mem' (cs_manager s) xs @
      read_mem mem' (ck_data_ptr (cm_chunks_data (cs_manager s) ! ?i)) (nat res)"
    using read_data_appends [of U ?d s1 xs ?i mem'] s1(1) rep legal(2) by (auto simp: read_arrived_def)
  have "length bs \<le> 2 ^ 64" using l(3) unat_bound64 [of "cm_chunk_size (cs_manager s)"] by simp
  then have "read_mem mem' (ck_data_ptr (cm_chunks_data (cs_manager s) ! ?i)) (nat res) = bs"
    using read_write_mem bs by (metis mem')
  moreover have "icb_bytes mem' (cs_manager s) xs = icb_bytes mem (cs_manager s) xs"
    unfolding mem' by (rule kernel_write_apart [OF rep l])
  ultimately have "icb_bytes mem' (cs_manager s1) ys = icb_bytes mem (cs_manager s) xs @ bs" using ys(2) by simp
  then show ?thesis using receiving.R_read_tail [OF co s1(2), of mem'] ys(1) by (metis reads_off_def)
qed

lemma no_data_reads:
  assumes co: "resume_ok U B resume" and r: "read_on_completion U resume (read_delivered res fl s) = Inr s'"
    and "res \<le> 0"
  shows "reads_off mem s s'"
proof -
  obtain close s1 where s1: "read_arrived U (read_delivered res fl s) s1" "read_tail U resume close s1 = Inr s'"
    using read_on_completion_tail [OF r] by blast
  have "reads_off mem s s1" using s1(1) assms(3) by (intro reads_off_same) (auto simp: read_arrived_def)
  then show ?thesis using receiving.R_read_tail [OF co s1(2)] reads_off_trans by blast
qed

section \<open>Runs with the memory\<close>

text \<open>
  \<open>recv_reachable U B resume rx mem wire s\<close>: the connection is in state \<open>s\<close>, the pool in memory \<open>mem\<close>, and
  \<open>rx\<close> is all the kernel has reported. A completion with data \<open>bs\<close> is preceded by the kernel's writing it
  into the chunk. What others do to the loop, the pool and the memory leaves the connection's
  buffer and its bytes alone.
\<close>

inductive recv_reachable ::
    "'r uring_api \<Rightarrow> 'b buf_ring_api \<Rightarrow>
     ('k \<Rightarrow> ('r, 'cb, 'b, 'k) conn_sys \<Rightarrow> ('r, 'cb, 'b, 'k) conn_sys outcome) \<Rightarrow>
     byte list \<Rightarrow> memory \<Rightarrow> byte list \<Rightarrow> ('r, 'cb, 'b, 'k) conn_sys \<Rightarrow> bool"
  for U B resume where
  start: "fresh_connection s \<Longrightarrow> Established resume h s = Inr s' \<Longrightarrow> recv_reachable U B resume [] mem [] s'"
| arrival: "recv_reachable U B resume rx mem wire s \<Longrightarrow> 0 < cs_reads s \<Longrightarrow> receive_legal res fl s \<Longrightarrow> 0 < res \<Longrightarrow>
    length bs = nat res \<Longrightarrow>
    mem' = write_mem mem (ck_data_ptr (cm_chunks_data (cs_manager s) ! unat (cqe_buffer fl))) bs \<Longrightarrow>
    read_on_completion U resume (read_delivered res fl s) = Inr s' \<Longrightarrow>
    recv_reachable U B resume (rx @ bs) mem' wire s'"
| no_data: "recv_reachable U B resume rx mem wire s \<Longrightarrow> 0 < cs_reads s \<Longrightarrow> receive_legal res fl s \<Longrightarrow> res \<le> 0 \<Longrightarrow>
    read_on_completion U resume (read_delivered res fl s) = Inr s' \<Longrightarrow>
    recv_reachable U B resume rx mem wire s'"
| written: "recv_reachable U B resume rx mem wire s \<Longrightarrow> 0 < cs_writes s \<Longrightarrow> write_legal res s \<Longrightarrow>
    write_on_completion U resume (write_delivered res fl s) = Inr s' \<Longrightarrow>
    recv_reachable U B resume rx mem (wire @ take (nat res) (batch_bytes s)) s'"
| run_functor: "recv_reachable U B resume rx mem wire s \<Longrightarrow> lp_pending (cs_loop s) = t # ts \<Longrightarrow> conn_task_legal t s \<Longrightarrow>
    run_conn_task U resume t (task_taken ts s) = Inr s' \<Longrightarrow> recv_reachable U B resume rx mem wire s'"
| elsewhere: "recv_reachable U B resume rx mem wire s \<Longrightarrow> lp_low_water l = lp_low_water (cs_loop s) \<Longrightarrow>
    (\<And>xs. icb_rep (cs_manager s) (rc_buffer (the_read s)) xs \<Longrightarrow>
      icb_rep m (rc_buffer (the_read s)) xs \<and> icb_bytes mem' m xs = icb_bytes mem (cs_manager s) xs) \<Longrightarrow>
    recv_reachable U B resume rx mem' wire (s\<lparr>cs_loop := l, cs_manager := m\<rparr>)"

lemma recv_reachable_conn:
  "recv_reachable U B resume rx mem wire s \<Longrightarrow> conn_reachable U B resume wire s"
proof (induction rule: recv_reachable.induct)
  case (run_functor rx mem wire s t ts s')
  then show ?case
    by (cases t) (auto intro: conn_reachable.destroy conn_reachable.recv_functor conn_reachable.send_functor)
next
  case (elsewhere rx mem wire s l m mem')
  have "conn_reachable U B resume wire (s\<lparr>cs_loop := l\<rparr>)" using elsewhere by (intro conn_reachable.other_loop)
  then have "conn_reachable U B resume wire ((s\<lparr>cs_loop := l\<rparr>)\<lparr>cs_manager := m\<rparr>)"
    by (rule conn_reachable.other_pool) (use elsewhere.hyps(3) in simp)
  then show ?case by simp
qed (auto intro: conn_reachable.start conn_reachable.write_done conn_reachable.read_done)

lemma recv_reachable_stream:
  assumes laws: "uring_laws U queued handed n" "0 < n" and co: "resume_ok U B resume"
    and "recv_reachable U B resume rx mem wire s"
  shows "\<exists>xs k. icb_rep (cs_manager s) (rc_buffer (the_read s)) xs \<and> icb_bytes mem (cs_manager s) xs = drop k rx"
  using assms(4)
proof induction
  case (start s h s' mem)
  obtain xs where "icb_rep (cs_manager s) (rc_buffer (the_read s)) xs \<and> icb_bytes mem (cs_manager s) xs = []"
    using start(1) icb_rep_empty [of "cs_manager s"]
    by (force simp: fresh_connection_def TcpConnection_def WriteContext_def ReadContext_def outcome_iff)
  moreover have "reads_off mem s s'"
    using start(2) unfolding Established_def
    by (intro reads_off_trans [OF reads_off_same receiving.R_resume [OF co]]) simp_all
  ultimately show ?case by (metis drop_Nil reads_off_def)
next
  case (arrival rx mem wire s res fl bs mem' s')
  obtain xs k where xs: "icb_rep (cs_manager s) (rc_buffer (the_read s)) xs"
    "icb_bytes mem (cs_manager s) xs = drop k rx" using arrival.IH by blast
  have "drop k rx @ bs = drop (min k (length rx)) (rx @ bs)" by (simp add: min_def)
  with arrival_reads [OF co arrival.hyps(7) xs(1) arrival.hyps(3-6)] xs(2) show ?case by (metis drop_drop)
next
  case (no_data rx mem wire s res fl s')
  then show ?case using no_data_reads [OF co no_data.hyps(5,4)] by (metis drop_drop reads_off_def)
next
  case (written rx mem wire s res fl s')
  have "reads_off mem s (write_delivered res fl s)" by (rule reads_off_same) (simp_all add: write_delivered_def)
  then have "reads_off mem s s'" using receiving.R_write_completion [OF co written.hyps(4)] reads_off_trans by blast
  then show ?case using written.IH by (metis drop_drop reads_off_def)
next
  case (run_functor rx mem wire s t ts s')
  have "reads_off mem s (task_taken ts s)" by (rule reads_off_same) simp_all
  then have "reads_off mem s s'" using receiving.R_conn_task [OF co run_functor.hyps(4)] reads_off_trans by blast
  then show ?case using run_functor.IH by (metis drop_drop reads_off_def)
next
  case (elsewhere rx mem wire s l m mem')
  then show ?case by fastforce
qed


section \<open>What others do, on one loop\<close>

text \<open>
  The step \<open>elsewhere\<close> is all that happens to a connection of a loop through others: a handler of another
  connection, and the kernel writing into a chunk it has taken.
\<close>

lemma others_bytes_kept:
  assumes env: "host_env_ok E N" and inv: "conns_inv E l w" "chunks_inv E w rs" and mv: "conn_moved E w c xs X s xs'"
    and d: "ho_conns w d = Some od" "d \<noteq> c" and ys: "icb_rep (ho_manager w) (rc_buffer (tc_read (hc_conn od))) ys"
  shows "icb_bytes mem (cs_manager s) ys = icb_bytes mem (ho_manager w) ys"
proof (rule icb_bytes_cong)
  fix i assume "i \<in> set ys"
  then have "i \<in> foot (ho_manager w) od" using icb_chain_rep [OF ys] by (simp add: foot_def)
  then have "i \<notin> set xs \<union> X" using mover_apart(3) [OF inv(2) mv d] by blast
  then show "cm_chunks_data (cs_manager s) ! i = cm_chunks_data (ho_manager w) ! i"
    using mv by (simp add: conn_moved_def pool_frame_def)
qed

text \<open>
  What the kernel writes reaches nobody it is not meant for: in every reachable state of a loop, data
  the kernel writes into a chunk it has taken from the ring, as long as it fits the chunk, changes no
  unread byte of any connection.
\<close>

theorem kernel_writes_private:
  assumes "host_env_ok E N" and "host_reachable E N (l, w)" and "i \<in> ho_kernel w"
    and "length bs \<le> unat (cm_chunk_size (ho_manager w))" and "ho_conns w c = Some hc"
  shows "unread_bytes (write_mem mem (ck_data_ptr (cm_chunks_data (ho_manager w) ! i)) bs) (conn_view l (ho_manager w) hc) =
    unread_bytes mem (conn_view l (ho_manager w) hc)"
proof -
  have ci: "conns_inv E l w" using host_reachable_inv [OF assms(1,2)] by (simp add: host_inv_def)
  then obtain rs where rs: "chunks_inv E w rs" by (auto simp: conns_inv_def)
  obtain xs where xs: "icb_rep (ho_manager w) (rc_buffer (tc_read (hc_conn hc))) xs" "foot (ho_manager w) hc = set xs"
    using hosted_rep [OF assms(1) ci assms(5)] by blast
  have "i < length (cm_chunks_data (ho_manager w))" "i \<notin> set xs"
    using kernel_chunk [OF rs assms(3)] assms(5) xs(2) by auto
  then show ?thesis using kernel_write_apart [OF xs(1) _ _ assms(4)] xs(1) by (simp add: unread_bytes_rep)
qed

section \<open>A connection that has received three bytes\<close>

lemma demo_started_pool:
  "icb_rep (cs_manager demo_started) (rc_buffer (the_read demo_started)) []"
  "pool_frame list_ring {} {} demo_manager (cs_manager demo_started)"
proof -
  let ?s = "set_conn (\<lambda>c. c\<lparr>tc_task := True, tc_done := False\<rparr>) demo_sys"
  have "co_resume demo_resume 0 ?s = Inr demo_started"
    by (simp add: demo_started_def Established_def co_resume_def demo_resume_def)
  from moving.R_resume [OF demo_resume_ok this] have mv: "conn_moves list_ring ?s demo_started" .
  have "the_read ?s = ReadContext 1024 8 5" "cs_manager ?s = demo_manager"
    by (simp_all add: demo_sys_def TcpConnection_def WriteContext_def)
  then have "icb_rep (cs_manager ?s) (rc_buffer (the_read ?s)) []"
    using icb_rep_empty [OF demo_manager_wf] by (simp add: ReadContext_def)
  then obtain xs where xs: "icb_rep (cs_manager demo_started) (rc_buffer (the_read demo_started)) xs"
    "pool_frame list_ring {} (set xs) demo_manager (cs_manager demo_started)"
    using mv \<open>cs_manager ?s = demo_manager\<close> by (auto simp: conn_moves_def)
  then have "xs = []" by (simp add: pool_frame_def)
  with xs show "icb_rep (cs_manager demo_started) (rc_buffer (the_read demo_started)) []"
    "pool_frame list_ring {} {} demo_manager (cs_manager demo_started)" by simp_all
qed

lemma demo_received:
  "\<exists>mem s. recv_reachable slot_ring list_ring demo_resume [7, 8, 9] mem [] s"
proof -
  have s: "Established demo_resume 0 demo_sys = Inr demo_started"
    by (simp add: demo_started_def Established_def co_resume_def demo_resume_def)
  note r = recv_reachable.start [OF demo_sys_fresh s, of slot_ring list_ring "\<lambda>_. 0"]
  have m: "length (cm_chunks_data (cs_manager demo_started)) = 4" "fresh (cs_manager demo_started) 0"
    "unat (cm_chunk_size (cs_manager demo_started)) \<ge> 3"
    using demo_started_pool(2) demo_manager_start(3) demo_manager_length
    by (simp_all add: pool_frame_def fresh_def demo_manager_fields Chunk_def)
  have "cqe_buffer 1 = 0" by (simp add: cqe_buffer_def)
  then have legal: "receive_legal 3 1 demo_started"
    using m icb_chain_rep [OF demo_started_pool(1)] by (simp add: receive_legal_def cqe_has_buffer_def)
  obtain s' where s': "read_on_completion slot_ring demo_resume (read_delivered 3 1 demo_started) = Inr s'"
    using read_completion_ok [OF slot_ring_laws _ demo_resume_ok
        conn_reachable_inv [OF slot_ring_laws _ demo_resume_ok recv_reachable_conn [OF r]] _ legal] demo_started_fields(2)
    by auto
  have "recv_reachable slot_ring list_ring demo_resume ([] @ [7, 8, 9])
      (write_mem (\<lambda>_. 0) (ck_data_ptr (cm_chunks_data (cs_manager demo_started) ! unat (cqe_buffer 1))) [7, 8, 9]) [] s'"
    by (rule recv_reachable.arrival [OF r _ legal _ _ refl s']) (simp_all add: demo_started_fields)
  then show ?thesis by auto
qed


end
