(* ===== verification/Loop_Lifetime.thy ===== *)
theory Loop_Lifetime
  imports Io_Uring_Loop Chunk_Pool
begin

text \<open>
  Construction and destruction of an \<open>IoUringLoop\<close> with what it owns (src/IoUringLoop.cc,
  src/ChunkPoolManagerInput.cc, include/ChunkPool.h): the eventfd, the \<open>io_uring\<close> object and its
  kernel ring, the buffer group registered with it, the two memory mappings of the buffer manager and
  the thread-local pointer that allows one loop per thread. The resources of the process are explicit,
  so that the destructors can be compared with the constructors.
\<close>

section \<open>Resources\<close>

text \<open>
  \<open>rs_heap\<close> holds the live \<open>io_uring\<close> objects by address, \<open>rs_rings\<close> those whose kernel ring is open,
  and \<open>rs_slot\<close> is \<open>t_loopInThisThread\<close> of the thread in question.
\<close>

record resources =
  rs_fds :: "int set"
  rs_heap :: "nat set"
  rs_rings :: "nat set"
  rs_groups :: "(nat \<times> u16) set"
  rs_maps :: "(addr \<times> size_t) set"
  rs_slot :: bool

record ('r, 'f, 'cb, 'b) loop_object =
  lo_loop :: "('r, 'f, 'cb) io_loop"
  lo_ring :: nat
  lo_manager :: "'b chunk_manager"

text \<open>\<open>createEventFd\<close>, for the result of \<open>eventfd\<close>.\<close>

definition createEventFd :: "int \<Rightarrow> int outcome" where
  "createEventFd evtfd = (if evtfd < 0 then Inl (Exit (- 1)) else Inr evtfd)"

section \<open>The constructor\<close>

text \<open>
  \<open>ring_ptr\<close> is the address of the new \<open>io_uring\<close> object, \<open>ring\<close> what \<open>io_uring_queue_init\<close> makes of it,
  \<open>fd\<close> the result of \<open>eventfd\<close>; \<open>mmap\<close> and \<open>ring_mmap\<close> are the kernel's answers to the mappings of the
  manager, and \<open>bid\<close> is the counter of \<open>generateBid\<close>.
\<close>

definition loop_create ::
    "'b buf_ring_api \<Rightarrow> (bool \<Rightarrow> size_t \<Rightarrow> addr option) \<Rightarrow> (size_t \<Rightarrow> addr option) \<Rightarrow> nat \<Rightarrow> 'r \<Rightarrow> int \<Rightarrow>
     size_t \<Rightarrow> size_t \<Rightarrow> size_t \<Rightarrow> u16 \<Rightarrow> resources \<Rightarrow> (('r, 'f, 'cb, 'b) loop_object \<times> u16 \<times> resources) outcome" where
  "loop_create B mmap ring_mmap ring_ptr ring fd low_water_mark chunk_size chunk_num bid w =
     andThen (createEventFd fd) (\<lambda>wakeup_fd.
     andThen (IoUringLoop (rs_slot w) ring wakeup_fd bid low_water_mark chunk_num) (\<lambda>l.
     andThen (ChunkPoolManagerInput B mmap ring_mmap chunk_size chunk_num bid) (\<lambda>(m, bid').
       Inr (\<lparr>lo_loop = l, lo_ring = ring_ptr, lo_manager = m\<rparr>, bid',
            w\<lparr>rs_fds := insert wakeup_fd (rs_fds w), rs_heap := insert ring_ptr (rs_heap w),
              rs_rings := insert ring_ptr (rs_rings w), rs_groups := insert (ring_ptr, cm_bgid m) (rs_groups w),
              rs_maps := rs_maps w \<union> {(cp_data_ptr (cm_pool m), cp_bytes (cm_pool m)),
                                      (cm_ring_addr m, cm_ring_size m)},
              rs_slot := True\<rparr>))))"

section \<open>The destructors\<close>

definition chunk_pool_destroy :: "chunk_pool \<Rightarrow> resources \<Rightarrow> resources" where
  "chunk_pool_destroy p w =
     (if cp_data_ptr p \<noteq> 0 then w\<lparr>rs_maps := rs_maps w - {(cp_data_ptr p, cp_bytes p)}\<rparr> else w)"

text \<open>
  \<open>~ChunkPoolManagerInput\<close>: \<open>ring_ptr\<close> is the value of \<open>loop_.ring_\<close>, 0 when null. The group is
  unregistered through the \<open>io_uring\<close> object it points to; then the members follow, the pool last.
\<close>

definition manager_destroy :: "nat \<Rightarrow> 'b chunk_manager \<Rightarrow> resources \<Rightarrow> resources outcome" where
  "manager_destroy ring_ptr m w =
     andThen (if ring_ptr \<noteq> 0
              then andThen (check (ring_ptr \<in> rs_heap w) NullDeref) (\<lambda>_.
                     Inr (w\<lparr>rs_groups := rs_groups w - {(ring_ptr, cm_bgid m)}\<rparr>))
              else Inr w) (\<lambda>w1.
       let w2 = (if cm_ring_addr m \<noteq> 0
                 then w1\<lparr>rs_maps := rs_maps w1 - {(cm_ring_addr m, cm_ring_size m)}\<rparr> else w1)
       in Inr (chunk_pool_destroy (cm_pool m) w2))"

text \<open>
  The body of \<open>~IoUringLoop\<close>. \<open>io_uring_queue_exit\<close> closes the kernel ring and with it the groups
  registered there; \<open>delete\<close> frees the object, and the pointer keeps its value.
\<close>

definition loop_destructor_body :: "('r, 'f, 'cb, 'b) loop_object \<Rightarrow> resources \<Rightarrow> resources outcome" where
  "loop_destructor_body obj w =
     andThen (check (lo_ring obj \<in> rs_heap w) NullDeref) (\<lambda>_.
       Inr (w\<lparr>rs_fds := rs_fds w - {lp_wakeup_fd (lo_loop obj)},
              rs_rings := rs_rings w - {lo_ring obj},
              rs_groups := {g \<in> rs_groups w. fst g \<noteq> lo_ring obj},
              rs_heap := rs_heap w - {lo_ring obj}, rs_slot := False\<rparr>))"

text \<open>
  The whole destructor: the body, and then the members in the reverse of their declaration; of these
  only \<open>input_chunk_manager_\<close> owns resources modelled here.
\<close>

definition loop_destroy :: "('r, 'f, 'cb, 'b) loop_object \<Rightarrow> resources \<Rightarrow> resources outcome" where
  "loop_destroy obj w = andThen (loop_destructor_body obj w) (manager_destroy (lo_ring obj) (lo_manager obj))"

section \<open>What a loop owns\<close>

text \<open>Answers of the kernel that are new to the process.\<close>

definition fresh_resources ::
    "(bool \<Rightarrow> size_t \<Rightarrow> addr option) \<Rightarrow> (size_t \<Rightarrow> addr option) \<Rightarrow> nat \<Rightarrow> int \<Rightarrow> resources \<Rightarrow> bool" where
  "fresh_resources mmap ring_mmap ring_ptr fd w \<longleftrightarrow>
     ring_ptr \<noteq> 0 \<and> ring_ptr \<notin> rs_heap w \<and> ring_ptr \<notin> rs_rings w \<and> ring_ptr \<notin> fst ` rs_groups w \<and> fd \<notin> rs_fds w \<and>
     (\<forall>huge n p. mmap huge n = Some p \<longrightarrow> p \<noteq> 0 \<and> p \<notin> fst ` rs_maps w) \<and>
     (\<forall>n p. ring_mmap n = Some p \<longrightarrow> p \<noteq> 0 \<and> p \<notin> fst ` rs_maps w)"

lemma manager_mappings:
  assumes "ChunkPoolManagerInput B mmap ring_mmap chunk_size chunk_num bid = Inr (m, bid')"
  shows "\<exists>huge n. mmap huge n = Some (cp_data_ptr (cm_pool m))"
    and "ring_mmap (cm_ring_size m) = Some (cm_ring_addr m)" and "cm_bgid m = bid"
proof -
  obtain pool where p: "ChunkPool mmap chunk_size chunk_num = Inr pool" "cm_pool m = pool"
    "ring_mmap (cm_ring_size m) = Some (cm_ring_addr m)" "cm_bgid m = bid"
    using assms by (auto simp: ChunkPoolManagerInput_def Let_def outcome_iff generateBid_def
        split: if_splits option.splits)
  then show "ring_mmap (cm_ring_size m) = Some (cm_ring_addr m)" "cm_bgid m = bid" by simp_all
  show "\<exists>huge n. mmap huge n = Some (cp_data_ptr (cm_pool m))"
  proof -
    have "mmap True (chunk_size * chunk_num) = Some (cp_data_ptr pool) \<or>
        mmap False (chunk_size * chunk_num) = Some (cp_data_ptr pool)"
      using p(1) by (auto simp: ChunkPool_def Let_def split: option.splits)
    then show ?thesis unfolding p(2) by (elim disjE) (rule exI, rule exI, assumption)+
  qed
qed

lemma loop_create_cases:
  assumes "loop_create B mmap ring_mmap ring_ptr ring fd low chunk_size chunk_num bid w = Inr (obj, bid', w')"
  shows "ChunkPoolManagerInput B mmap ring_mmap chunk_size chunk_num bid = Inr (lo_manager obj, bid')"
    and "lo_ring obj = ring_ptr" and "lp_wakeup_fd (lo_loop obj) = fd" and "\<not> rs_slot w" and "0 \<le> fd"
    and "w' = w\<lparr>rs_fds := insert fd (rs_fds w), rs_heap := insert ring_ptr (rs_heap w),
      rs_rings := insert ring_ptr (rs_rings w), rs_groups := insert (ring_ptr, cm_bgid (lo_manager obj)) (rs_groups w),
      rs_maps := rs_maps w \<union> {(cp_data_ptr (cm_pool (lo_manager obj)), cp_bytes (cm_pool (lo_manager obj))),
                              (cm_ring_addr (lo_manager obj), cm_ring_size (lo_manager obj))},
      rs_slot := True\<rparr>"
  using assms by (auto simp: loop_create_def createEventFd_def IoUringLoop_def outcome_iff split: if_splits)


text \<open>
  C38 The destructor of a loop uses freed memory: its body deletes the \<open>io_uring\<close> object but leaves \<open>ring_\<close>
  pointing to it, and the buffer manager, destroyed after the body, unregisters its group through
  that pointer. This happens to every loop that was ever created.
\<close>

theorem loop_destructor_dangles:
  assumes "fresh_resources mmap ring_mmap ring_ptr fd w"
    and "loop_create B mmap ring_mmap ring_ptr ring fd low chunk_size chunk_num bid w = Inr (obj, bid', w')"
  shows "\<exists>w''. loop_destructor_body obj w' = Inr w'' \<and> loop_destroy obj w' = Inl NullDeref"
proof -
  note c = loop_create_cases [OF assms(2)]
  have "ring_ptr \<noteq> 0" using assms(1) by (simp add: fresh_resources_def)
  then show ?thesis
    using c(2) unfolding c(6) by (simp add: loop_destroy_def loop_destructor_body_def manager_destroy_def)
qed

text \<open>
  No chunks, no loop: the test for a power of two lets 0 pass, a mapping of 0 bytes is refused by the
  kernel, and the process exits. The parameters of the example in the README leave \<open>chunk_size_\<close> and
  \<open>chunk_num_\<close> at 0.
\<close>

theorem zero_chunks_exit:
  assumes "\<And>huge. mmap huge 0 = None" and "\<not> rs_slot w" and "0 \<le> fd"
  shows "loop_create B mmap ring_mmap ring_ptr ring fd low chunk_size 0 bid w = Inl (Exit 1)"
  using assms by (simp add: loop_create_def createEventFd_def IoUringLoop_def ChunkPoolManagerInput_def ChunkPool_def)

section \<open>A concrete loop\<close>

definition no_resources :: resources where
  "no_resources = \<lparr>rs_fds = {0, 1, 2}, rs_heap = {}, rs_rings = {}, rs_groups = {}, rs_maps = {}, rs_slot = False\<rparr>"

definition demo_object :: "(unit, unit, unit, (int \<Rightarrow> buf option) \<times> buf list) loop_object" where
  "demo_object =
     (case loop_create list_ring demo_mmap (\<lambda>_. Some 65536) 77 () 3 1 16 4 1 no_resources of
        Inr (obj, _) \<Rightarrow> obj)"

definition demo_resources :: resources where
  "demo_resources =
     (case loop_create list_ring demo_mmap (\<lambda>_. Some 65536) 77 () 3 1 16 4 1 no_resources of
        Inr (obj :: (unit, unit, unit, (int \<Rightarrow> buf option) \<times> buf list) loop_object, _, w) \<Rightarrow> w)"

lemma demo_created:
  "loop_create list_ring demo_mmap (\<lambda>_. Some 65536) 77 () 3 1 16 4 1 no_resources =
     Inr (demo_object, 2, demo_resources)"
  unfolding demo_object_def demo_resources_def
  by (simp add: loop_create_def createEventFd_def IoUringLoop_def demo_constructor no_resources_def)

lemma demo_fresh: "fresh_resources demo_mmap (\<lambda>_. Some 65536) 77 3 no_resources"
  by (simp add: fresh_resources_def demo_mmap_def no_resources_def)


theorem zero_chunks_exit_witness:
  "loop_create list_ring (\<lambda>huge n. if n = 0 then None else Some 4096) (\<lambda>_. Some 65536) 77 () 3 64 0 0 1 no_resources =
     (Inl (Exit 1) :: fault + (unit, unit, unit, (int \<Rightarrow> buf option) \<times> buf list) loop_object \<times> u16 \<times> resources)"
  by (rule zero_chunks_exit) (simp_all add: no_resources_def)

theorem loop_destructor_dangles_witness: "loop_destroy demo_object demo_resources = Inl NullDeref"
  using loop_destructor_dangles [OF demo_fresh demo_created] by blast

end
