(* ===== verification/Log_Output.thy ===== *)
theory Log_Output
  imports Text_Format Timestamps "HOL-Library.Signed_Division"
begin

text \<open>
  \<open>Timestamp::now\<close> and \<open>Timestamp::to_string\<close> (src/Timestamp.cc) and the \<open>Logger\<close> with its macros
  (src/Logger.cc, include/Logger.h). The system clock and the C library's \<open>localtime\<close> are parameters.
  The logger is one object shared by all threads without a lock, so besides the sequential calls there
  is a step relation in which the threads of the program log concurrently.
\<close>

section \<open>The text of a time stamp\<close>

record tm =
  tm_sec :: int
  tm_min :: int
  tm_hour :: int
  tm_mday :: int
  tm_mon :: int
  tm_year :: int

text \<open>\<open>duration_cast\<close> from the nanoseconds of the clock and \<open>/\<close> on \<open>int64_t\<close> truncate towards zero.\<close>

definition Timestamp_now :: "int \<Rightarrow> timestamp" where
  "Timestamp_now clock_ns = Timestamp (clock_ns sdiv 1000)"

text \<open>\<open>%4d\<close> and \<open>%02d\<close>.\<close>

definition fmt_4d :: "int \<Rightarrow> string" where
  "fmt_4d i = replicate (4 - length (dec_int i)) CHR '' '' @ dec_int i"

definition fmt_02d :: "int \<Rightarrow> string" where
  "fmt_02d i =
     (if i < 0 then CHR ''-'' # replicate (1 - length (dec (nat (- i)))) CHR ''0'' @ dec (nat (- i))
      else replicate (2 - length (dec (nat i))) CHR ''0'' @ dec (nat i))"

definition format_tm :: "tm \<Rightarrow> string" where
  "format_tm t =
     snprintf_buf 128
       (fmt_4d (tm_year t + 1900) @ CHR ''/'' # fmt_02d (tm_mon t + 1) @ CHR ''/'' # fmt_02d (tm_mday t) @
        CHR '' '' # fmt_02d (tm_hour t) @ CHR ''/'' # fmt_02d (tm_min t) @ CHR ''/'' # fmt_02d (tm_sec t))"

definition ts_to_string :: "(int \<Rightarrow> tm option) \<Rightarrow> timestamp \<Rightarrow> string outcome" where
  "ts_to_string localtime t =
     (case localtime (ts_us t sdiv 1000000) of None \<Rightarrow> Inl NullDeref | Some b \<Rightarrow> Inr (format_tm b))"

section \<open>The logger\<close>

datatype log_level = INFO | ERROR | FATAL | DEBUG

text \<open>\<open>lg_out\<close> is what has been written to \<open>std::cout\<close>. The static instance starts as zero, \<open>INFO\<close>.\<close>

record logger =
  lg_level :: log_level
  lg_out :: string

definition Logger :: logger where
  "Logger = \<lparr>lg_level = INFO, lg_out = []\<rparr>"

definition setLogLevel :: "log_level \<Rightarrow> logger \<Rightarrow> logger" where
  "setLogLevel level lg = lg\<lparr>lg_level := level\<rparr>"

fun log_prefix :: "log_level \<Rightarrow> string" where
  "log_prefix INFO = ''[INFO]''"
| "log_prefix ERROR = ''[ERROR]''"
| "log_prefix FATAL = ''[FATAL]''"
| "log_prefix DEBUG = ''[DEBUG]''"

text \<open>The four insertions into the stream.\<close>

definition log_pieces :: "string \<Rightarrow> string \<Rightarrow> string \<Rightarrow> string list" where
  "log_pieces pre stamp msg = [pre @ stamp, '':'', msg, [CHR 0x0A]]"

definition log_write :: "(int \<Rightarrow> tm option) \<Rightarrow> int \<Rightarrow> string \<Rightarrow> logger \<Rightarrow> logger outcome" where
  "log_write localtime clock_ns msg lg =
     andThen (ts_to_string localtime (Timestamp_now clock_ns)) (\<lambda>stamp.
       Inr (lg\<lparr>lg_out := lg_out lg @ concat (log_pieces (log_prefix (lg_level lg)) stamp msg)\<rparr>))"

text \<open>
  The macros: \<open>text\<close> is the message the format and its arguments denote. \<open>LOG_FATAL\<close> ends the process
  after the line is written, which the second component tells; \<open>LOG_DEBUG\<close> does nothing unless
  \<open>MUDEBUG\<close> is defined.
\<close>

definition log_call ::
    "(int \<Rightarrow> tm option) \<Rightarrow> int \<Rightarrow> log_level \<Rightarrow> string \<Rightarrow> logger \<Rightarrow> (logger \<times> fault option) outcome" where
  "log_call localtime clock_ns level text lg =
     andThen (log_write localtime clock_ns (snprintf_buf 1024 text) (setLogLevel level lg)) (\<lambda>lg1.
       Inr (lg1, if level = FATAL then Some (Exit (- 1)) else None))"

definition LOG_DEBUG ::
    "bool \<Rightarrow> (int \<Rightarrow> tm option) \<Rightarrow> int \<Rightarrow> string \<Rightarrow> logger \<Rightarrow> (logger \<times> fault option) outcome" where
  "LOG_DEBUG mudebug localtime clock_ns text lg =
     (if mudebug then log_call localtime clock_ns DEBUG text lg else Inr (lg, None))"

text \<open>A program that logs on one thread: the calls in order, up to the first fatal one.\<close>

fun log_calls ::
    "(int \<Rightarrow> tm option) \<Rightarrow> (int \<times> log_level \<times> string) list \<Rightarrow> logger \<Rightarrow> (logger \<times> fault option) outcome" where
  "log_calls localtime [] lg = Inr (lg, None)"
| "log_calls localtime ((ns, level, text) # cs) lg =
     andThen (log_call localtime ns level text lg) (\<lambda>(lg1, stop).
       case stop of None \<Rightarrow> log_calls localtime cs lg1 | Some e \<Rightarrow> Inr (lg1, Some e))"

section \<open>Fields of fixed width\<close>

text \<open>What \<open>localtime\<close> promises about the fields.\<close>

definition tm_ok :: "tm \<Rightarrow> bool" where
  "tm_ok t \<longleftrightarrow> tm_sec t \<in> {0..60} \<and> tm_min t \<in> {0..59} \<and> tm_hour t \<in> {0..23} \<and>
     tm_mday t \<in> {1..31} \<and> tm_mon t \<in> {0..11}"

definition localtime_law :: "(int \<Rightarrow> tm option) \<Rightarrow> bool" where
  "localtime_law localtime \<longleftrightarrow> (\<forall>s. \<exists>t. localtime s = Some t \<and> tm_ok t)"

text \<open>Reading the fields back from their columns.\<close>

definition column :: "nat \<Rightarrow> nat \<Rightarrow> string \<Rightarrow> int" where
  "column start width s = int (undec (take width (drop start s)))"

definition read_tm :: "string \<Rightarrow> tm" where
  "read_tm s =
     \<lparr>tm_sec = column 17 2 s, tm_min = column 14 2 s, tm_hour = column 11 2 s, tm_mday = column 8 2 s,
      tm_mon = column 5 2 s - 1, tm_year = column 0 4 s - 1900\<rparr>"

lemma undec_pad: "of_char c \<le> (48::nat) \<Longrightarrow> undec (replicate k c @ s) = undec s"
  by (induction k) (simp_all add: undec_def)

lemma length_dec_less: "n < 10 ^ k \<Longrightarrow> 0 < k \<Longrightarrow> length (dec n) \<le> k"
  using length_dec [of n "k - 1"] by (cases k) simp_all

lemma fmt_02d_field:
  assumes "0 \<le> i" and "i < 100"
  shows "length (fmt_02d i) = 2 \<and> undec (fmt_02d i) = nat i"
  using assms length_dec_less [of "nat i" 2] by (simp add: fmt_02d_def undec_pad)

lemma fmt_4d_field:
  assumes "0 \<le> i" and "i < 10000"
  shows "length (fmt_4d i) = 4 \<and> undec (fmt_4d i) = nat i"
proof -
  have "length (dec (nat i)) \<le> 4" using length_dec_less [of "nat i" 4] assms by simp
  then show ?thesis using assms by (simp add: fmt_4d_def dec_int_def undec_pad)
qed

lemma column_field:
  assumes "length pre = start" and "length f = width"
  shows "column start width (pre @ f @ rest) = int (undec f)"
  using assms by (simp add: column_def)

lemma format_tm_columns:
  assumes "length y = 4" "length mo = 2" "length d = 2" "length h = 2" "length mi = 2" "length s = 2"
  shows "read_tm (y @ c1 # mo @ c2 # d @ c3 # h @ c4 # mi @ c5 # s) =
    \<lparr>tm_sec = int (undec s), tm_min = int (undec mi), tm_hour = int (undec h), tm_mday = int (undec d),
     tm_mon = int (undec mo) - 1, tm_year = int (undec y) - 1900\<rparr>"
proof -
  let ?s = "y @ c1 # mo @ c2 # d @ c3 # h @ c4 # mi @ c5 # s"
  have "column 0 4 ?s = int (undec y)" "column 5 2 ?s = int (undec mo)" "column 8 2 ?s = int (undec d)"
    "column 11 2 ?s = int (undec h)" "column 14 2 ?s = int (undec mi)" "column 17 2 ?s = int (undec s)"
    using column_field [of "[]" 0 y 4] column_field [of "y @ [c1]" 5 mo 2]
      column_field [of "y @ c1 # mo @ [c2]" 8 d 2] column_field [of "y @ c1 # mo @ c2 # d @ [c3]" 11 h 2]
      column_field [of "y @ c1 # mo @ c2 # d @ c3 # h @ [c4]" 14 mi 2]
      column_field [of "y @ c1 # mo @ c2 # d @ c3 # h @ c4 # mi @ [c5]" 17 s 2 "[]"] assms
    by simp_all
  then show ?thesis by (simp add: read_tm_def)
qed

lemma format_tm_roundtrip:
  assumes "tm_ok t" and "tm_year t + 1900 \<in> {0..9999}"
  shows "length (format_tm t) = 19" and "read_tm (format_tm t) = t"
proof -
  have y: "length (fmt_4d (tm_year t + 1900)) = 4" "undec (fmt_4d (tm_year t + 1900)) = nat (tm_year t + 1900)"
    using fmt_4d_field [of "tm_year t + 1900"] assms(2) by auto
  have f: "length (fmt_02d i) = 2 \<and> undec (fmt_02d i) = nat i"
    if "i \<in> {tm_mon t + 1, tm_mday t, tm_hour t, tm_min t, tm_sec t}" for i
    using that assms(1) by (intro fmt_02d_field) (auto simp: tm_ok_def)
  have eq: "format_tm t = fmt_4d (tm_year t + 1900) @ CHR ''/'' # fmt_02d (tm_mon t + 1) @ CHR ''/'' #
      fmt_02d (tm_mday t) @ CHR '' '' # fmt_02d (tm_hour t) @ CHR ''/'' # fmt_02d (tm_min t) @
      CHR ''/'' # fmt_02d (tm_sec t)"
    unfolding format_tm_def using y f by (intro snprintf_buf_fits) simp
  show "length (format_tm t) = 19" unfolding eq using y f by simp
  have "read_tm (format_tm t) =
      \<lparr>tm_sec = tm_sec t, tm_min = tm_min t, tm_hour = tm_hour t, tm_mday = tm_mday t, tm_mon = tm_mon t,
       tm_year = tm_year t\<rparr>"
    unfolding eq using y f assms by (subst format_tm_columns) (auto simp: tm_ok_def)
  then show "read_tm (format_tm t) = t" by simp
qed

text \<open>
  The text of a time stamp of the years 0 to 9999 has 19 characters and fits its buffer, and the
  broken-down local time can be read back from its columns: two time stamps have the same text exactly
  when their local times agree.
\<close>

theorem to_string_roundtrip:
  assumes "localtime_law localtime" and "localtime (ts_us t sdiv 1000000) = Some b"
    and "tm_year b + 1900 \<in> {0..9999}"
  shows "\<exists>s. ts_to_string localtime t = Inr s \<and> length s = 19 \<and> read_tm s = b"
proof -
  have "tm_ok b" using assms(1,2) by (metis localtime_law_def option.inject)
  then show ?thesis using assms(2,3) format_tm_roundtrip [of b] by (simp add: ts_to_string_def)
qed

section \<open>Logging on one thread\<close>

text \<open>The line a call stands for.\<close>

definition log_line :: "(int \<Rightarrow> tm option) \<Rightarrow> int \<times> log_level \<times> string \<Rightarrow> string" where
  "log_line localtime c =
     (case c of (ns, level, text) \<Rightarrow>
        log_prefix level @ format_tm (the (localtime (ts_us (Timestamp_now ns) sdiv 1000000))) @ '':'' @
        snprintf_buf 1024 text @ [CHR 0x0A])"

lemma log_call_line:
  assumes "localtime_law localtime"
  shows "log_call localtime ns level text lg =
    Inr (\<lparr>lg_level = level, lg_out = lg_out lg @ log_line localtime (ns, level, text)\<rparr>,
         if level = FATAL then Some (Exit (- 1)) else None)"
proof -
  obtain b where "localtime (ts_us (Timestamp_now ns) sdiv 1000000) = Some b"
    using assms by (auto simp: localtime_law_def)
  then show ?thesis
    by (simp add: log_call_def log_write_def ts_to_string_def setLogLevel_def log_line_def log_pieces_def)
qed

text \<open>The calls that are carried out: those up to and including the first fatal one.\<close>

definition carried_out :: "(int \<times> log_level \<times> string) list \<Rightarrow> (int \<times> log_level \<times> string) list" where
  "carried_out cs = takeWhile (\<lambda>c. fst (snd c) \<noteq> FATAL) cs @ take 1 (dropWhile (\<lambda>c. fst (snd c) \<noteq> FATAL) cs)"

text \<open>
  A program that logs on one thread writes exactly the lines of its calls, each with its own level and
  its text cut at 1023 characters; the first fatal call writes its line and ends the process, and
  nothing after it is written.
\<close>

theorem log_sequence_exact:
  assumes "localtime_law localtime"
  shows "\<exists>lg' stop. log_calls localtime cs lg = Inr (lg', stop) \<and>
    lg_out lg' = lg_out lg @ concat (map (log_line localtime) (carried_out cs)) \<and>
    (stop = None \<longleftrightarrow> FATAL \<notin> (fst \<circ> snd) ` set cs)"
proof (induction cs arbitrary: lg)
  case Nil
  then show ?case by (simp add: carried_out_def)
next
  case (Cons c cs)
  obtain ns level msg where c: "c = (ns, level, msg)" by (rule prod_cases3)
  show ?case
  proof (cases "level = FATAL")
    case True
    then show ?thesis by (simp add: c log_call_line [OF assms] carried_out_def)
  next
    case False
    with Cons.IH [of "\<lparr>lg_level = level, lg_out = lg_out lg @ log_line localtime c\<rparr>"] show ?thesis
      by (auto simp: c log_call_line [OF assms] carried_out_def)
  qed
qed

section \<open>Logging on several threads\<close>

text \<open>
  One call on a thread, cut where another thread can come in between: the macro stores the level, \<open>log\<close>
  reads it, \<open>localtime\<close> fills the one static \<open>tm\<close> of the process, \<open>to_string\<close> reads that, and the four
  pieces are written one by one. The level of the call is kept to know how it ends.
\<close>

datatype log_pc =
    LIdle
  | LSet log_level string
  | LEnter log_level string
  | LStamp log_level string string
  | LFormat log_level string string
  | LPut log_level "string list"

text \<open>\<open>ls_written\<close> and \<open>ls_calls\<close> record the pieces written and the calls begun, with their threads.\<close>

record log_sys =
  ls_logger :: logger
  ls_tm :: tm
  ls_pc :: "nat \<Rightarrow> log_pc"
  ls_exited :: bool
  ls_written :: "(nat \<times> string) list"
  ls_calls :: "(nat \<times> log_level \<times> string) list"

definition log_goto :: "nat \<Rightarrow> log_pc \<Rightarrow> log_sys \<Rightarrow> log_sys" where
  "log_goto t pc s = s\<lparr>ls_pc := (ls_pc s)(t := pc)\<rparr>"

definition log_put :: "nat \<Rightarrow> string \<Rightarrow> log_sys \<Rightarrow> log_sys" where
  "log_put t p s =
     s\<lparr>ls_logger := (ls_logger s)\<lparr>lg_out := lg_out (ls_logger s) @ p\<rparr>, ls_written := ls_written s @ [(t, p)]\<rparr>"

inductive log_step :: "(int \<Rightarrow> tm option) \<Rightarrow> log_sys \<Rightarrow> log_sys \<Rightarrow> bool" for localtime where
  log_begin: "\<not> ls_exited s \<Longrightarrow> ls_pc s t = LIdle \<Longrightarrow>
    log_step localtime s (log_goto t (LSet level text) (s\<lparr>ls_calls := ls_calls s @ [(t, level, text)]\<rparr>))"
| log_set: "\<not> ls_exited s \<Longrightarrow> ls_pc s t = LSet level text \<Longrightarrow>
    log_step localtime s
      (log_goto t (LEnter level (snprintf_buf 1024 text)) (s\<lparr>ls_logger := setLogLevel level (ls_logger s)\<rparr>))"
| log_read: "\<not> ls_exited s \<Longrightarrow> ls_pc s t = LEnter level msg \<Longrightarrow>
    log_step localtime s (log_goto t (LStamp level (log_prefix (lg_level (ls_logger s))) msg) s)"
| log_time: "\<not> ls_exited s \<Longrightarrow> ls_pc s t = LStamp level pre msg \<Longrightarrow>
    localtime (ts_us (Timestamp_now ns) sdiv 1000000) = Some b \<Longrightarrow>
    log_step localtime s (log_goto t (LFormat level pre msg) (s\<lparr>ls_tm := b\<rparr>))"
| log_format: "\<not> ls_exited s \<Longrightarrow> ls_pc s t = LFormat level pre msg \<Longrightarrow>
    log_step localtime s (log_goto t (LPut level (log_pieces pre (format_tm (ls_tm s)) msg)) s)"
| log_piece: "\<not> ls_exited s \<Longrightarrow> ls_pc s t = LPut level (p # ps) \<Longrightarrow>
    log_step localtime s (log_goto t (LPut level ps) (log_put t p s))"
| log_end: "\<not> ls_exited s \<Longrightarrow> ls_pc s t = LPut level [] \<Longrightarrow> level \<noteq> FATAL \<Longrightarrow>
    log_step localtime s (log_goto t LIdle s)"
| log_exit: "\<not> ls_exited s \<Longrightarrow> ls_pc s t = LPut FATAL [] \<Longrightarrow>
    log_step localtime s (s\<lparr>ls_exited := True\<rparr>)"

definition log_start :: "tm \<Rightarrow> log_sys" where
  "log_start b = \<lparr>ls_logger = Logger, ls_tm = b, ls_pc = (\<lambda>_. LIdle), ls_exited = False, ls_written = [], ls_calls = []\<rparr>"

definition log_reachable :: "(int \<Rightarrow> tm option) \<Rightarrow> tm \<Rightarrow> log_sys \<Rightarrow> bool" where
  "log_reachable localtime b s \<longleftrightarrow> (log_step localtime)\<^sup>*\<^sup>* (log_start b) s"

subsection \<open>No message is lost\<close>

definition written_by :: "nat \<Rightarrow> log_sys \<Rightarrow> string list" where
  "written_by t s = map snd (filter (\<lambda>x. fst x = t) (ls_written s))"

definition messages_of :: "nat \<Rightarrow> log_sys \<Rightarrow> string list" where
  "messages_of t s = map (\<lambda>c. snprintf_buf 1024 (snd (snd c))) (filter (\<lambda>c. fst c = t) (ls_calls s))"

text \<open>A line as it is written: the prefix and the stamp may be any, the message is given.\<close>

definition line_pieces :: "string \<times> string \<times> string \<Rightarrow> string list" where
  "line_pieces l = (case l of (pre, stamp, msg) \<Rightarrow> log_pieces pre stamp msg)"

fun pieces_left :: "log_pc \<Rightarrow> string list" where
  "pieces_left (LPut level ps) = ps"
| "pieces_left _ = []"

fun message_waiting :: "log_pc \<Rightarrow> string list" where
  "message_waiting (LSet level tx) = [snprintf_buf 1024 tx]"
| "message_waiting (LEnter level msg) = [msg]"
| "message_waiting (LStamp level pre msg) = [msg]"
| "message_waiting (LFormat level pre msg) = [msg]"
| "message_waiting _ = []"

definition thread_lines :: "nat \<Rightarrow> log_sys \<Rightarrow> (string \<times> string \<times> string) list \<Rightarrow> bool" where
  "thread_lines t s ls \<longleftrightarrow>
     written_by t s @ pieces_left (ls_pc s t) = concat (map line_pieces ls) \<and>
     map (snd \<circ> snd) ls @ message_waiting (ls_pc s t) = messages_of t s"

lemmas log_defs = thread_lines_def written_by_def messages_of_def log_goto_def log_put_def

lemma log_step_lines:
  assumes "log_step localtime s s'" and "thread_lines t s ls"
  shows "\<exists>ls'. thread_lines t s' ls'"
  using assms
proof (cases rule: log_step.cases)
  case (log_format u level pre msg)
  let ?l = "(pre, format_tm (ls_tm s), msg)"
  show ?thesis
  proof (cases "u = t")
    case True
    then have "thread_lines t s' (ls @ [?l])"
      using assms(2) log_format by (simp add: log_defs line_pieces_def)
    then show ?thesis by blast
  next
    case False
    then have "thread_lines t s' ls" using assms(2) log_format by (simp add: log_defs)
    then show ?thesis by blast
  qed
next
  case (log_begin u level tx)
  then show ?thesis using assms(2) by (intro exI [of _ ls]) (auto simp: log_defs)
next
  case (log_set u level tx)
  then show ?thesis using assms(2) by (intro exI [of _ ls]) (auto simp: log_defs)
next
  case (log_read u level msg)
  then show ?thesis using assms(2) by (intro exI [of _ ls]) (auto simp: log_defs)
next
  case (log_time u level pre msg ns b)
  then show ?thesis using assms(2) by (intro exI [of _ ls]) (auto simp: log_defs)
next
  case (log_piece u level p ps)
  then show ?thesis using assms(2) by (intro exI [of _ ls]) (auto simp: log_defs)
next
  case (log_end u level)
  then show ?thesis using assms(2) by (intro exI [of _ ls]) (auto simp: log_defs)
next
  case (log_exit u)
  then show ?thesis using assms(2) by (intro exI [of _ ls]) (auto simp: log_defs)
qed

lemma log_step_out:
  "log_step localtime s s' \<Longrightarrow> lg_out (ls_logger s) = concat (map snd (ls_written s)) \<Longrightarrow>
   lg_out (ls_logger s') = concat (map snd (ls_written s'))"
  by (induction rule: log_step.induct) (simp_all add: log_goto_def log_put_def setLogLevel_def)

interpretation logging: step_invariant "log_step localtime"
  "\<lambda>s. (\<exists>ls. thread_lines t s ls) \<and> lg_out (ls_logger s) = concat (map snd (ls_written s))" for localtime t
  using log_step_lines log_step_out by unfold_locales blast

lemma log_reachable_lines:
  assumes "log_reachable localtime b s"
  shows "(\<exists>ls. thread_lines t s ls) \<and> lg_out (ls_logger s) = concat (map snd (ls_written s))"
proof (rule logging.inv_along_run)
  show "(log_step localtime)\<^sup>*\<^sup>* (log_start b) s" using assms by (simp add: log_reachable_def)
  have "thread_lines t (log_start b) []" by (simp add: log_defs log_start_def)
  then show "(\<exists>ls. thread_lines t (log_start b) ls) \<and>
      lg_out (ls_logger (log_start b)) = concat (map snd (ls_written (log_start b)))"
    by (auto simp: log_start_def Logger_def)
qed


subsection \<open>The level of a line can be that of another call\<close>

lemma log_reachable_start: "log_reachable localtime b (log_start b)"
  by (simp add: log_reachable_def)

lemma log_reachable_step: "log_reachable localtime b s \<Longrightarrow> log_step localtime s s' \<Longrightarrow> log_reachable localtime b s'"
  unfolding log_reachable_def by (rule rtranclp.rtrancl_into_rtrancl)

text \<open>The next step of a thread inside a call, when the clock shows \<open>b\<close>, and a schedule of such steps.\<close>

definition advance :: "tm \<Rightarrow> nat \<Rightarrow> log_sys \<Rightarrow> log_sys" where
  "advance b t s =
     (case ls_pc s t of
        LSet level tx \<Rightarrow>
          log_goto t (LEnter level (snprintf_buf 1024 tx)) (s\<lparr>ls_logger := setLogLevel level (ls_logger s)\<rparr>)
      | LEnter level msg \<Rightarrow> log_goto t (LStamp level (log_prefix (lg_level (ls_logger s))) msg) s
      | LStamp level pre msg \<Rightarrow> log_goto t (LFormat level pre msg) (s\<lparr>ls_tm := b\<rparr>)
      | LFormat level pre msg \<Rightarrow> log_goto t (LPut level (log_pieces pre (format_tm (ls_tm s)) msg)) s
      | LPut level (p # ps) \<Rightarrow> log_goto t (LPut level ps) (log_put t p s)
      | _ \<Rightarrow> s)"

definition clock_shows :: "(int \<Rightarrow> tm option) \<Rightarrow> tm \<Rightarrow> bool" where
  "clock_shows localtime b \<longleftrightarrow> (\<exists>ns. localtime (ts_us (Timestamp_now ns) sdiv 1000000) = Some b)"

lemma advance_reachable:
  assumes "log_reachable localtime b0 s" and "\<not> ls_exited s" and "clock_shows localtime b"
  shows "log_reachable localtime b0 (advance b t s)"
  using assms
  by (auto simp: advance_def clock_shows_def split: log_pc.split list.split
      intro: log_reachable_step log_set log_read log_time log_format log_piece)

lemma advance_running [simp]: "ls_exited (advance b t s) = ls_exited s"
  by (simp add: advance_def log_goto_def log_put_def split: log_pc.split list.split)

lemma advances_reachable:
  assumes "log_reachable localtime b0 s" and "\<not> ls_exited s" and "clock_shows localtime b"
  shows "log_reachable localtime b0 (fold (advance b) ts s)"
  using assms(1,2) by (induction ts arbitrary: s) (simp_all add: advance_reachable [OF _ _ assms(3)])

definition two_callers :: "tm \<Rightarrow> string \<Rightarrow> string \<Rightarrow> log_sys" where
  "two_callers b0 tx other =
     (log_start b0)\<lparr>ls_pc := (\<lambda>_. LIdle)(0 := LSet ERROR tx, 1 := LSet INFO other),
                    ls_calls := [(0, ERROR, tx), (1, INFO, other)]\<rparr>"

lemma two_callers_reachable: "log_reachable localtime b0 (two_callers b0 tx other)"
proof -
  let ?s = "log_goto 0 (LSet ERROR tx) ((log_start b0)\<lparr>ls_calls := ls_calls (log_start b0) @ [(0, ERROR, tx)]\<rparr>)"
  have "log_reachable localtime b0 ?s"
    by (rule log_reachable_step [OF log_reachable_start log_begin]) (simp_all add: log_start_def)
  then have "log_reachable localtime b0
      (log_goto 1 (LSet INFO other) (?s\<lparr>ls_calls := ls_calls ?s @ [(1, INFO, other)]\<rparr>))"
    by (rule log_reachable_step [OF _ log_begin]) (simp_all add: log_start_def log_goto_def)
  then show ?thesis by (simp add: two_callers_def log_goto_def log_start_def)
qed

text \<open>
  A log line can carry the level of another thread's call: the level is stored in the shared logger by
  the macro and read back by \<open>log\<close> without a lock. For every message there is a run of two threads in
  which it is logged as an error, the only output so far is its line, and that line says \<open>[INFO]\<close>.
\<close>

theorem log_level_mixed_up:
  assumes "localtime_law localtime"
  shows "\<exists>s stamp. log_reachable localtime b0 s \<and> ls_calls s = [(0, ERROR, tx), (1, INFO, other)] \<and>
    ls_pc s 0 = LPut ERROR [] \<and>
    lg_out (ls_logger s) = ''[INFO]'' @ stamp @ '':'' @ snprintf_buf 1024 tx @ [CHR 0x0A]"
proof -
  obtain b where b: "clock_shows localtime b"
    using assms unfolding localtime_law_def clock_shows_def by blast
  let ?s = "fold (advance b) [0, 1, 0, 0, 0, 0, 0, 0, 0] (two_callers b0 tx other)"
  have "log_reachable localtime b0 ?s"
    by (rule advances_reachable [OF two_callers_reachable _ b]) (simp add: two_callers_def log_start_def)
  moreover have "ls_calls ?s = [(0, ERROR, tx), (1, INFO, other)] \<and> ls_pc ?s 0 = LPut ERROR [] \<and>
      lg_out (ls_logger ?s) = ''[INFO]'' @ format_tm b @ '':'' @ snprintf_buf 1024 tx @ [CHR 0x0A]"
    by (simp add: advance_def two_callers_def log_start_def log_goto_def log_put_def setLogLevel_def
        log_pieces_def Logger_def)
  ultimately show ?thesis by blast
qed

section \<open>Concrete runs\<close>

definition new_year :: tm where
  "new_year = \<lparr>tm_sec = 5, tm_min = 4, tm_hour = 3, tm_mday = 1, tm_mon = 0, tm_year = 125\<rparr>"

lemma new_year_law: "localtime_law (\<lambda>_. Some new_year)"
  by (simp add: localtime_law_def tm_ok_def new_year_def)

theorem to_string_roundtrip_witness:
  "\<exists>s. ts_to_string (\<lambda>_. Some new_year) (Timestamp 0) = Inr s \<and> length s = 19 \<and> read_tm s = new_year"
  by (rule to_string_roundtrip [OF new_year_law refl]) (simp add: new_year_def)

theorem log_sequence_exact_witness:
  "\<exists>lg'. log_calls (\<lambda>_. Some new_year) [(0, FATAL, ''no''), (0, INFO, ''yes'')] Logger = Inr (lg', Some (Exit (- 1))) \<and>
     lg_out lg' = log_line (\<lambda>_. Some new_year) (0, FATAL, ''no'')"
  using log_sequence_exact [OF new_year_law, of "[(0, FATAL, ''no''), (0, INFO, ''yes'')]" Logger]
  by (auto simp: carried_out_def Logger_def log_call_line [OF new_year_law])

text \<open>Thread 0 has logged its error and returned, thread 1 is about to log.\<close>

definition one_logged :: log_sys where
  "one_logged = log_goto 0 LIdle (fold (advance new_year) (replicate 8 0) (two_callers new_year ''disk'' ''ok''))"

lemma one_logged_reachable: "log_reachable (\<lambda>_. Some new_year) new_year one_logged"
  unfolding one_logged_def
proof (rule log_reachable_step [OF advances_reachable [OF two_callers_reachable] log_end])
  show "ls_pc (fold (advance new_year) (replicate 8 0) (two_callers new_year ''disk'' ''ok'')) 0 = LPut ERROR []"
    by (simp add: numeral_eq_Suc advance_def two_callers_def log_start_def log_goto_def log_put_def
        setLogLevel_def log_pieces_def)
qed (simp_all add: two_callers_def log_start_def clock_shows_def numeral_eq_Suc)


theorem log_level_mixed_up_witness:
  "\<exists>s. log_reachable (\<lambda>_. Some new_year) new_year s \<and> ls_calls s = [(0, ERROR, ''disk''), (1, INFO, ''ok'')]"
  using log_level_mixed_up [OF new_year_law, of new_year "''disk''" "''ok''"] by blast

end
