(* ===== verification/Current_Thread.thy ===== *)
theory Current_Thread
  imports Proactor_Prelude
begin

text \<open>
  \<open>CurrentThread\<close> (src/CurrentThread.cc, include/CurrentThread.h): the thread id that \<open>tid\<close> caches in a
  thread-local variable, and \<open>IoUringLoop::isInLoopThread\<close>, which compares it with the id the loop
  remembered when it was made. The kernel's \<open>gettid\<close> is a parameter; the code relies on it being
  positive and different for different threads.
\<close>

section \<open>The cached id\<close>

text \<open>\<open>ct_cache t\<close> is \<open>t_cachedTid\<close> of the thread \<open>t\<close>; \<open>ct_calls t\<close> counts the system calls it made.\<close>

record 't thread_ids =
  ct_cache :: "'t \<Rightarrow> int"
  ct_calls :: "'t \<Rightarrow> nat"

definition no_cache :: "'t thread_ids" where
  "no_cache = \<lparr>ct_cache = (\<lambda>_. 0), ct_calls = (\<lambda>_. 0)\<rparr>"

definition cacheTid :: "('t \<Rightarrow> int) \<Rightarrow> 't \<Rightarrow> 't thread_ids \<Rightarrow> 't thread_ids" where
  "cacheTid gettid t s =
     (if ct_cache s t = 0
      then s\<lparr>ct_cache := (ct_cache s)(t := gettid t), ct_calls := (ct_calls s)(t := ct_calls s t + 1)\<rparr>
      else s)"

definition tid :: "('t \<Rightarrow> int) \<Rightarrow> 't \<Rightarrow> 't thread_ids \<Rightarrow> int \<times> 't thread_ids" where
  "tid gettid t s =
     (let s1 = (if ct_cache s t = 0 then cacheTid gettid t s else s) in (ct_cache s1 t, s1))"

text \<open>The reference: every call asks the kernel.\<close>

definition tid_uncached :: "('t \<Rightarrow> int) \<Rightarrow> 't \<Rightarrow> 't thread_ids \<Rightarrow> int \<times> 't thread_ids" where
  "tid_uncached gettid t s = (gettid t, s\<lparr>ct_calls := (ct_calls s)(t := ct_calls s t + 1)\<rparr>)"

text \<open>A history of calls by several threads, in the order they happen, and their results.\<close>

fun tids :: "('t \<Rightarrow> 't thread_ids \<Rightarrow> int \<times> 't thread_ids) \<Rightarrow> 't list \<Rightarrow> 't thread_ids \<Rightarrow>
    int list \<times> 't thread_ids" where
  "tids f [] s = ([], s)"
| "tids f (t # ts) s = (case f t s of (i, s1) \<Rightarrow> case tids f ts s1 of (is, s2) \<Rightarrow> (i # is, s2))"

section \<open>The loop's thread\<close>

text \<open>The constructor of a loop stores \<open>tid\<close> of its thread in \<open>thread_id_\<close>.\<close>

definition isInLoopThread :: "('t \<Rightarrow> int) \<Rightarrow> int \<Rightarrow> 't \<Rightarrow> 't thread_ids \<Rightarrow> bool \<times> 't thread_ids" where
  "isInLoopThread gettid thread_id t s = (case tid gettid t s of (i, s1) \<Rightarrow> (thread_id = i, s1))"

section \<open>Caching changes nothing but the number of system calls\<close>

text \<open>What the code relies on, and what holds of the caches at any time.\<close>

definition gettid_law :: "('t \<Rightarrow> int) \<Rightarrow> bool" where
  "gettid_law gettid \<longleftrightarrow> inj gettid \<and> (\<forall>t. 0 < gettid t)"

definition entry_ok :: "int \<Rightarrow> int \<Rightarrow> nat \<Rightarrow> bool" where
  "entry_ok kernel_tid cached calls \<longleftrightarrow> cached = 0 \<and> calls = 0 \<or> cached = kernel_tid \<and> calls = 1"

definition cache_inv :: "('t \<Rightarrow> int) \<Rightarrow> 't thread_ids \<Rightarrow> bool" where
  "cache_inv gettid s \<longleftrightarrow> (\<forall>t. entry_ok (gettid t) (ct_cache s t) (ct_calls s t))"

lemma no_cache_inv [simp]: "cache_inv gettid no_cache"
  by (simp add: cache_inv_def no_cache_def entry_ok_def)

lemma tid_inv:
  assumes "gettid_law gettid" and "cache_inv gettid s" and "tid gettid t s = (i, s')"
  shows "i = gettid t" and "cache_inv gettid s'" and "ct_calls s' t = 1"
    and "u \<noteq> t \<Longrightarrow> ct_calls s' u = ct_calls s u"
proof -
  have ok: "entry_ok (gettid u) (ct_cache s u) (ct_calls s u)" for u
    using assms(2) by (simp add: cache_inv_def)
  then consider (empty) "ct_cache s t = 0" "ct_calls s t = 0"
    | (cached) "ct_cache s t = gettid t" "ct_calls s t = 1"
    using entry_ok_def by metis
  then have "i = gettid t \<and> cache_inv gettid s' \<and> ct_calls s' t = 1 \<and> (u \<noteq> t \<longrightarrow> ct_calls s' u = ct_calls s u)"
  proof cases
    case empty
    with assms(3) have "i = gettid t" "s' = s\<lparr>ct_cache := (ct_cache s)(t := gettid t), ct_calls := (ct_calls s)(t := 1)\<rparr>"
      by (auto simp: tid_def cacheTid_def)
    with ok show ?thesis by (simp add: cache_inv_def entry_ok_def)
  next
    case cached
    moreover have "gettid t \<noteq> 0" using assms(1) by (metis gettid_law_def less_irrefl)
    ultimately show ?thesis using assms by (auto simp: tid_def)
  qed
  then show "i = gettid t" "cache_inv gettid s'" "ct_calls s' t = 1" "u \<noteq> t \<Longrightarrow> ct_calls s' u = ct_calls s u"
    by auto
qed

lemma tids_inv:
  assumes "gettid_law gettid" and "cache_inv gettid s" and "tids (tid gettid) ts s = (is, s')"
  shows "is = map gettid ts \<and> cache_inv gettid s' \<and>
    (\<forall>t. ct_calls s' t = (if t \<in> set ts then 1 else ct_calls s t))"
  using assms(2,3)
proof (induction ts arbitrary: s "is" s')
  case Nil
  then show ?case by simp
next
  case (Cons t ts)
  obtain i s1 where t: "tid gettid t s = (i, s1)" by fastforce
  obtain js s2 where ts: "tids (tid gettid) ts s1 = (js, s2)" by fastforce
  note inv = tid_inv [OF assms(1) Cons.prems(1) t]
  from Cons.IH [OF inv(2) ts] inv Cons.prems(2) t ts show ?case by auto
qed

lemma tids_uncached: "fst (tids (tid_uncached gettid) ts s) = map gettid ts"
  by (induction ts arbitrary: s) (simp_all add: tid_uncached_def case_prod_beta)

lemma tids_uncached_calls: "ct_calls (snd (tids (tid_uncached gettid) ts s)) t = ct_calls s t + count_list ts t"
  by (induction ts arbitrary: s) (simp_all add: tid_uncached_def case_prod_beta)

text \<open>
  Caching the thread id is transparent: for every history of calls by any threads, \<open>tid\<close> returns what
  asking the kernel at each call would return, while each thread makes the system call at most once,
  where the reference makes it at every call.
\<close>

theorem tid_cache_transparent:
  assumes "gettid_law gettid"
  shows "fst (tids (tid gettid) ts no_cache) = fst (tids (tid_uncached gettid) ts no_cache) \<and>
    ct_calls (snd (tids (tid gettid) ts no_cache)) t =
      min 1 (ct_calls (snd (tids (tid_uncached gettid) ts no_cache)) t)"
proof -
  obtain "is" s where r: "tids (tid gettid) ts no_cache = (is, s)" by fastforce
  have "count_list ts t = 0 \<longleftrightarrow> t \<notin> set ts" by (rule count_list_0_iff)
  with tids_inv [OF assms no_cache_inv r] r show ?thesis
    by (auto simp: tids_uncached tids_uncached_calls no_cache_def)
qed

text \<open>
  \<open>isInLoopThread\<close> decides which thread runs the caller: a loop made by the thread \<open>u\<close> answers true
  exactly to calls on \<open>u\<close>.
\<close>

theorem isInLoopThread_exact:
  assumes "gettid_law gettid" and "cache_inv gettid s" and "tid gettid u s = (thread_id, s1)"
    and "isInLoopThread gettid thread_id t s1 = (b, s2)"
  shows "b \<longleftrightarrow> t = u"
proof -
  obtain i s3 where t: "tid gettid t s1 = (i, s3)" by fastforce
  note u = tid_inv [OF assms(1-3)]
  have "b \<longleftrightarrow> gettid u = gettid t"
    using assms(4) t u(1) tid_inv(1) [OF assms(1) u(2) t] by (simp add: isInLoopThread_def)
  then show ?thesis using assms(1) by (auto simp: gettid_law_def inj_eq)
qed

section \<open>Three calls on two threads\<close>

theorem tid_cache_transparent_witness:
  "fst (tids (tid (\<lambda>t::nat. int t + 1)) [0, 1, 0] no_cache) = [1, 2, 1] \<and>
   ct_calls (snd (tids (tid (\<lambda>t::nat. int t + 1)) [0, 1, 0] no_cache)) 0 = 1"
proof -
  have law: "gettid_law (\<lambda>t::nat. int t + 1)" by (simp add: gettid_law_def inj_def)
  show ?thesis
    using tid_cache_transparent [OF law, of "[0, 1, 0]" 0]
    unfolding tids_uncached tids_uncached_calls by (simp add: no_cache_def)
qed

theorem isInLoopThread_exact_witness:
  "\<not> fst (isInLoopThread (\<lambda>t::nat. int t + 1) 1 1 (snd (tid (\<lambda>t::nat. int t + 1) 0 no_cache)))"
proof -
  have law: "gettid_law (\<lambda>t::nat. int t + 1)" by (simp add: gettid_law_def inj_def)
  obtain s1 where u: "tid (\<lambda>t::nat. int t + 1) 0 no_cache = (1, s1)"
    by (auto simp: tid_def cacheTid_def no_cache_def)
  obtain b s2 where t: "isInLoopThread (\<lambda>t::nat. int t + 1) 1 1 s1 = (b, s2)" by fastforce
  from isInLoopThread_exact [OF law no_cache_inv u t] u t show ?thesis by simp
qed

end
