(* ===== verification/Spec2Isabelle.thy ===== *)
theory Spec2Isabelle
  imports Chunk_Ownership Wakeup_Protocol Connection_Findings Connection_Stream Server_Correctness
    Thread_Pool Coroutine_Task Loop_Thread Connection_Lifetime Loop_System_Contexts Connection_Receive Loop_Lifetime Log_Output Current_Thread
begin

text \<open>
  \<^bold>\<open>A verification development for mylib-proactor\<close>, a C++20 network library in which every event loop owns
  an \<open>io_uring\<close>, connections are served by coroutines, and received data stays in buffers the kernel
  fills.

  \<^bold>\<open>The program.\<close> An \<open>IoUringLoop\<close> (src/IoUringLoop.cc) runs on one thread. It submits requests for
  contexts (\<open>ReadContext\<close>, \<open>WriteContext\<close>, \<open>AcceptContext\<close>), waits for completions or for the next
  timer, dispatches each completion to its context, runs expired timers and then the functors other
  threads have queued with \<open>queueInLoop\<close>, which wakes the loop through an eventfd. A \<open>TcpConnection\<close>
  (src/TcpConnection.cc) owns a read and a write context and the \<open>Task\<close> of its coroutine; the awaiters
  \<open>RecvDataAwaiter\<close> and \<open>SendDataAwaiter\<close> suspend the coroutine and the contexts resume it. Received
  bytes sit in chunks of the loop's \<open>ChunkPoolManagerInput\<close>, linked into the \<open>InputChainBuffer\<close> of the
  connection, and go back to the kernel's buffer ring when they are consumed; bytes to send sit in the
  fragments of a \<open>SendQueue\<close>. A \<open>TcpServer\<close> accepts through its \<open>Acceptor\<close> on the base loop and spreads
  connections over the loops of an \<open>IoUringLoopThreadPool\<close>.

  \<^bold>\<open>Conventions.\<close> Structures are records, enumerations are datatypes, \<open>size_t\<close> and flags are words, a
  pointer is an address or an index with \<open>None\<close> for null. An operation returns \<open>fault + result\<close>
  (Proactor_Prelude): \<open>NullDeref\<close> is a null or dangling pointer, \<open>AssertFailed\<close> a failing \<open>assert\<close>,
  \<open>OutOfBounds\<close> an access outside a buffer, \<open>Exit\<close> stands for \<open>exit\<close> and \<open>LOG_FATAL\<close>, and \<open>Diverges\<close> is
  what the caller of a loop sees that does not end. Loops whose end is not structural are
  \<open>partial_function (option)\<close>, and that they return is proved; nothing is bounded by fuel except the
  number of rounds of \<open>loop ()\<close>, which runs until \<open>quit ()\<close>: \<open>rounds\<close> lists what each round sees. What is not in the repository is a
  parameter with its documented behaviour as a hypothesis: liburing's rings (\<open>uring_laws\<close>,
  \<open>buf_ring_laws\<close>), the kernel (\<open>kernel\<close>, what a completion may report: \<open>write_legal\<close>,
  \<open>receive_legal\<close>), the allocator (\<open>alloc_ok\<close>), \<open>inet_addr\<close>, \<open>localtime\<close>, \<open>gettid\<close>, and the business
  coroutine, \<open>resume_ok\<close>: any sequence of calls of the connection's interface between two suspensions,
  that does not send again after an error. Each hypothesis is met by a concrete instance in a witness.

  \<^bold>\<open>The theories.\<close>
  \<^item> Proactor_Prelude: machine types, faults, memory, linked chains, and the locale \<open>step_invariant\<close> of step
    relations that keep an invariant. Text_Format: decimal numbers and \<open>snprintf\<close> into a buffer.
  \<^item> Chunk_Pool (include/ChunkPool.h, src/ChunkPoolManagerInput.cc): the pool, the manager and the locale
    \<open>chunk_lender\<close>, its promise to the buffers; construction publishes every chunk, chunks are disjoint.
  \<^item> Input_Chain_Buffer (src/InputChainBuffer.cc), Input_Chain_Stream, Chunk_Ownership: the chained buffer
    and that its loops end; it is a \<open>byte_fifo\<close> (Byte_Stream), the interface the send queue shares; and in
    every run of any number of connections the chunks are partitioned between ring, kernel and buffers.
  \<^item> Send_Queue (include/SendQueue.hpp): the queue with its cursor; batches, retrieval, destruction.
  \<^item> Timestamps, Timer_Queue, Timer_Correctness (src/Timestamp.cc, src/MonotonicTimestamp.cc, src/Timer.cc,
    src/TimerQueue.cc): time stamps and \<open>addTime\<close> with the rounding of \<open>double\<close>; the timer queue with
    callbacks that add and cancel timers; no assertion of it fails, exactly the due timers run.
  \<^item> Io_Uring_Loop, Loop_Correctness, Wakeup_Protocol, Loop_Lifetime (src/IoUringLoop.cc): submission with
    back-pressure, the rounds, the wake-up through the eventfd in every interleaving with other
    threads, and what the constructors and destructors of a loop take and give back.
  \<^item> Tcp_Connection, Connection_Safety, Connection_Runs, Connection_Stream, Connection_Lifetime,
    Connection_Findings (src/TcpConnection.cc, src/ReadContext.cc, src/WriteContext.cc): one connection with
    its loop and pool; the invariant of its two contexts and of the coroutine's handles; the runs of a
    connection, which refine an abstract byte stream and send every byte once and in order; the reference
    counts of the object; and the runs that go wrong.
  \<^item> Connection_Relation, Connection_Footprint, Loop_System, Loop_System_Safety, Loop_System_Contexts: the
    components put together, one loop with any number of connections that come and go, their chunk pool,
    its timers and the functors of other threads. The locale \<open>conn_relation\<close> proves once what all handlers
    of a connection keep; the sending side, the shared pool, the requests kept back and the unread bytes
    are its interpretations. A connection sees the others only through the steps \<open>other_loop\<close> and \<open>other_pool\<close>
    of Connection_Runs, and Loop_System_Safety proves that the others do nothing else: every connection
    of a running loop is in a state it can reach alone, and the rounds of the loop never fail. Of the
    kernel only this is assumed: it completes requests it was given, and reports data in chunks it has
    taken from the ring; that the chunk then is empty and nobody else's is part of the invariant, the
    partition of the chunks. Loop_System_Contexts shows that the bare pointers the loop keeps are to living
    connections, and that a destroyed connection gives everything back. Connection_Receive adds the memory
    of the pool, which the kernel writes: the bytes of a connection come out in the order in which they
    arrived. The theorem of this theory connects the server with the loops.
  \<^item> Inet_Address, Net_Socket, Accept_Path, Loop_Pool, Tcp_Server, Server_Correctness (src/InetAddress.cc,
    src/Socket.cc, src/AcceptContext.cc, src/Acceptor.cc, src/IoUringLoopThreadPool.cc, src/TcpServer.cc):
    the way of a connection into the server. The acceptor relies on the locale \<open>connection_handler\<close>, which
    the server's \<open>newConnection\<close> meets. Names are unique, the table is exact, accepting stays armed.
  \<^item> Loop_Thread (src/Thread.cc, src/IoUringLoopThread.cc), Thread_Pool (src/ThreadPool.cc), Coroutine_Task
    (include/Task.hpp), Current_Thread (src/CurrentThread.cc), Log_Output (src/Logger.cc, src/Timestamp.cc):
    the threads in every interleaving of their steps, the ownership of coroutine frames, the cached
    thread id, and logging from several threads.

  \<^bold>\<open>Defects.\<close> The model reproduces several: a retried write loses its place in the queue; a write after
  an error leaves a request without its holder; a queue of empty fragments never drains; a context
  is used after its \<open>holder_\<close> was the last reference to the connection; the destructor of a loop uses
  the \<open>io_uring\<close> object it has deleted; \<open>quit ()\<close> can be overwritten by \<open>loop ()\<close>; a worker of the
  thread pool runs one coroutine only, and its destructor can hang; a move assignment of a \<open>Task\<close>
  leaks; accepting never resumes after an error; a log line can carry another message's level; a
  connection of a sub-loop can be destroyed by the thread of the base loop. The
  theorems about the parts concerned have the hypotheses that exclude these runs.

  \<^bold>\<open>Not modelled.\<close> The text of log messages (the formatting of their arguments); \<open>noncopyable\<close> and
  \<open>Callbacks.h\<close>, which hold no code; the macOS branch of src/CurrentThread.cc; signed overflow of time
  stamps, which C++ leaves undefined and the model excludes by unbounded integers with the bounds in the
  theorems; failing allocations; the memory model of C++ below the atomic steps of the thread models;
  callbacks of timers that close connections. In the model of the whole loop a connection is destroyed
  between two rounds, not in the middle of the handler that drops the last reference (what such a
  handler does wrong is in Connection_Lifetime). In Connection_Runs a coroutine that works on another
  thread reaches the connection through its functors while the connection is open; a functor that
  runs after the close appears in the findings.
\<close>

section \<open>From the server to the loops\<close>

text \<open>What \<open>newConnection\<close> makes is what a loop expects of a connection to start.\<close>

lemma newConnection_constructed:
  assumes "newConnection K fd peer s = Inr s'"
  shows "\<exists>conn. ss_conns s' = ss_conns s @ [conn] \<and> tc_number conn = length (ss_conns s) \<and>
    (\<exists>number name fd here peer a b c conn0. TcpConnection number name fd here peer a b c = Inr conn0 \<and>
       conn = conn0\<lparr>tc_close_callback := True\<rparr>)"
proof -
  obtain r w where r: "sys K (SysGetsockname fd) (as_os s) = (r, w)" by fastforce
  obtain ioloop p where p: "getNextLoop (sv_pool (ss_server s)) = Inr (ioloop, p)"
    using assms by (auto simp: newConnection_def Let_def outcome_iff)
  let ?name = "sv_name (ss_server s) @ conn_suffix (ss_server s)"
  obtain conn0 where c: "TcpConnection (length (ss_conns s)) ?name fd (rp_addr r) peer (4096 * 16) 16 (4096 * 16) = Inr conn0"
    "ss_conns s' = ss_conns s @ [conn0\<lparr>tc_close_callback := True\<rparr>]"
    using assms r p by (auto simp: newConnection_def Let_def outcome_iff)
  moreover have "tc_number conn0 = length (ss_conns s)"
    using c(1) by (auto simp: TcpConnection_def outcome_iff)
  ultimately show ?thesis by (intro exI [of _ "conn0\<lparr>tc_close_callback := True\<rparr>"] conjI) (simp_all, blast)
qed

lemma started_conns:
  assumes "host_exec E (StartConnection conn h) s = Inr s'"
  shows "dom (ho_conns (snd s')) = insert (tc_number conn) (dom (ho_conns (snd s)))"
  using start_conns [OF assms] by auto



end
